(* ===== verification/Prelude.thy ===== *)
theory Prelude
  imports Main "HOL-Library.Word" "HOL-Library.Monad_Syntax"
begin

unbundle bit_operations_syntax

text \<open>
  Shared vocabulary of the development: the C integer types of
  \<^verbatim>\<open>include/sys/defs.h\<close> as words, and the generic lemmas on page-aligned words, bit
  masks and linked chains that the component theories use.

  Fallible code returns an \<open>option\<close>. \<open>None\<close> stands for a run that has no
  defined result in C: a null pointer is dereferenced, or a loop does not end.
  A C pointer that may be null is an \<open>option\<close> too (\<open>None\<close> is \<open>NULL\<close>).
\<close>

type_synonym u64 = "64 word"
type_synonym u32 = "32 word"
type_synonym u16 = "16 word"
type_synonym u8 = "8 word"

named_theorems chain_simps \<open>rules for linked chains\<close>
named_theorems entry_simps \<open>bit-level rules for page table entries\<close>

subsection \<open>Page-aligned addresses\<close>

definition aligned :: "u64 \<Rightarrow> bool" where
  "aligned a \<longleftrightarrow> a AND 0xFFF = 0"

lemma mask12: "(0xFFF :: u64) = mask 12"
  by (simp add: mask_eq_exp_minus_1)

lemma frame_mask: "(0xFFFFFFFFFFFFF000 :: u64) = NOT (mask 12)"
  by (simp add: mask_eq_exp_minus_1)

lemma unat_and_page_mask: "unat (a AND (0xFFF :: u64)) = unat a mod 4096"
  unfolding mask12 take_bit_eq_mask [symmetric]
  by (simp add: take_bit_eq_mod unat_mod)

lemma aligned_iff_mod: "aligned a \<longleftrightarrow> unat a mod 4096 = 0"
  by (simp add: aligned_def unsigned_eq_0_iff flip: unat_and_page_mask)

lemma aligned_obtain:
  assumes "aligned t"
  obtains q where "unat t = 4096 * q" "q < 2 ^ 52"
proof -
  have "unat t mod 4096 = 0" using assms by (simp add: aligned_iff_mod)
  then obtain q where q: "unat t = 4096 * q" by auto
  moreover have "unat t < 2 ^ 64" using unsigned_less [of t, where 'a = nat] by simp
  ultimately have "q < 2 ^ 52" by simp
  with q that show thesis by blast
qed

lemma aligned_bits:
  assumes "aligned a" "n < 12"
  shows "\<not> bit a n"
proof -
  have "\<not> bit (a AND mask 12) n" using assms(1) by (simp add: aligned_def mask12)
  with assms(2) show ?thesis by (auto simp: bit_simps)
qed

lemma small_bits:
  fixes f :: u64
  assumes "f < 4096" "bit f n"
  shows "n < 12"
proof -
  have "take_bit 12 f = f"
    using assms(1) by (simp add: take_bit_eq_mod word_less_nat_alt word_unat_eq_iff unat_mod)
  with assms(2) show ?thesis by (metis bit_take_bit_iff)
qed

text \<open>Flag bits put into the low half of an aligned address are removed by the frame mask.\<close>

lemma frame_or_flags [entry_simps]:
  assumes "aligned a" "f < 4096"
  shows "(a OR f) AND 0xFFFFFFFFFFFFF000 = a"
proof (rule bit_word_eqI)
  fix n assume n: "n < LENGTH(64)"
  show "bit ((a OR f) AND 0xFFFFFFFFFFFFF000) n = bit a n"
    unfolding frame_mask
    using aligned_bits [OF assms(1), of n] small_bits [OF assms(2), of n] n
    by (auto simp: bit_simps)
qed

lemma frame_aligned [entry_simps]: "aligned (e AND 0xFFFFFFFFFFFFF000)"
  unfolding aligned_def mask12 frame_mask by (rule bit_word_eqI) (auto simp: bit_simps)

subsection \<open>Table slots: an aligned base and an index below 512\<close>

lemma slot_unat:
  fixes i :: u64
  assumes "aligned t" "i < 512"
  shows "unat (t + 8 * i) = unat t + 8 * unat i"
proof -
  have i: "unat i < 512" using assms(2) by (simp add: word_less_nat_alt)
  obtain q where t: "unat t = 4096 * q" "q < 2 ^ 52" using assms(1) by (rule aligned_obtain)
  have "unat (8 * i) = 8 * unat i" using i by (simp add: unat_word_ariths)
  then show ?thesis using i t by (simp add: unat_word_ariths)
qed

lemma slot_nat:
  assumes "4096 * q + 8 * i = 4096 * q' + 8 * i'" "i < 512" "i' < 512"
  shows "q = q' \<and> i = (i' :: nat)"
proof -
  have "(4096 * q + 8 * i) div 4096 = q" "(4096 * q' + 8 * i') div 4096 = q'"
    using assms(2,3) by simp_all
  with assms(1) have "q = q'" by simp
  with assms(1) show ?thesis by simp
qed

lemma slot_inj [entry_simps]:
  fixes i :: u64
  assumes "aligned t" "aligned t'" "i < 512" "i' < 512"
  shows "t + 8 * i = t' + 8 * i' \<longleftrightarrow> t = t' \<and> i = i'"
proof
  assume e: "t + 8 * i = t' + 8 * i'"
  have i: "unat i < 512" "unat i' < 512" using assms(3,4) by (simp_all add: word_less_nat_alt)
  obtain q where q: "unat t = 4096 * q" "q < 2 ^ 52" using assms(1) by (rule aligned_obtain)
  obtain q' where q': "unat t' = 4096 * q'" "q' < 2 ^ 52" using assms(2) by (rule aligned_obtain)
  from e have "unat t + 8 * unat i = unat t' + 8 * unat i'"
    using slot_unat [OF assms(1,3)] slot_unat [OF assms(2,4)] by simp
  then have "q = q' \<and> unat i = unat i'" unfolding q q' using i by (rule slot_nat)
  then show "t = t' \<and> i = i'" using q q' by (simp add: word_unat_eq_iff)
qed simp

subsection \<open>Integer conversions\<close>

lemma sint_small:
  fixes w :: u32
  assumes "unat w < 2 ^ 31"
  shows "sint w = int (unat w)"
proof -
  have "int (unat w) < int (2 ^ 31)" using assms by (simp only: of_nat_less_iff)
  then have "uint w < 2 ^ 31" by simp
  moreover have "- (2 ^ 31) \<le> uint w" by (rule order_trans [OF _ uint_ge_0]) simp
  ultimately show ?thesis
    by (simp add: sint_uint signed_take_bit_int_eq_self)
qed

lemma ceil_page_aux:
  "r < 4096 \<Longrightarrow> (4096 * q + r + 4095) div 4096 = q + (if r > 0 then 1 else 0 :: nat)"
  by (auto intro!: div_nat_eqI)

lemma ceil_page: "(a + 4095) div 4096 = a div 4096 + (if a mod 4096 > 0 then 1 else 0 :: nat)"
  using ceil_page_aux [of "a mod 4096" "a div 4096"] by simp

lemma unat_ceil_page: "unat sz \<le> 4096 * ((unat sz + 4095) div 4096)"
  using ceil_page [of "unat sz"] mult_div_mod_eq [of 4096 "unat sz"] by (simp split: if_splits)

lemma ucast_scast_u32: "(ucast (scast (p :: u32) :: u64) :: u32) = p"
  by (rule bit_word_eqI) (auto simp: bit_simps)

subsection \<open>Linked chains\<close>

text \<open>
  \<open>chain h p xs\<close>: following the link field \<open>h\<close> from pointer \<open>p\<close> visits exactly the
  cells \<open>xs\<close> and then reaches the null pointer.
\<close>

primrec chain :: "('a \<Rightarrow> 'a option) \<Rightarrow> 'a option \<Rightarrow> 'a list \<Rightarrow> bool" where
  "chain h p [] = (p = None)"
| "chain h p (a # as) = (p = Some a \<and> chain h (h a) as)"

lemma chain_None [chain_simps, simp]: "chain h None xs = (xs = [])"
  by (cases xs) simp_all

lemma chain_Some [chain_simps]: "chain h (Some a) xs = (\<exists>ys. xs = a # ys \<and> chain h (h a) ys)"
  by (cases xs) auto

lemma chain_unique: "chain h p xs \<Longrightarrow> chain h p ys \<Longrightarrow> xs = ys"
  by (induction xs arbitrary: p ys) (auto simp: chain_Some)

lemma chain_upd_notin [chain_simps]:
  "a \<notin> set xs \<Longrightarrow> chain (h(a := v)) p xs = chain h p xs"
  by (induction xs arbitrary: p) auto

lemma chain_cong: "(\<And>x. x \<in> set xs \<Longrightarrow> h x = h' x) \<Longrightarrow> chain h p xs = chain h' p xs"
  by (induction xs arbitrary: p) auto

lemma chain_suffix:
  "chain h p (xs @ y # ys) \<Longrightarrow> chain h (Some y) (y # ys)"
  by (induction xs arbitrary: p) auto

lemma chain_distinct: "chain h p xs \<Longrightarrow> distinct xs"
proof (induction xs arbitrary: p)
  case (Cons a xs)
  have "a \<notin> set xs"
  proof
    assume "a \<in> set xs"
    then obtain us vs where "xs = us @ a # vs" by (meson split_list)
    moreover have "chain h (h a) xs" using Cons.prems by simp
    ultimately have "chain h (Some a) (a # vs)" by (auto dest: chain_suffix)
    then have "chain h (h a) vs" by simp
    with \<open>chain h (h a) xs\<close> have "vs = xs" by (rule chain_unique [symmetric])
    with \<open>xs = us @ a # vs\<close> show False by simp
  qed
  with Cons show ?case by auto
qed simp

text \<open>A run of consecutive indices linked upwards is a chain.\<close>

lemma chain_upt:
  assumes "a \<le> b" "\<And>i. a \<le> i \<Longrightarrow> i < b \<Longrightarrow> h i = (if Suc i < b then Some (Suc i) else None)"
  shows "chain h (if a < b then Some a else None) [a..<b]"
  using assms
proof (induction "b - a" arbitrary: a)
  case (Suc d)
  then have ab: "a < b" by simp
  have "chain h (if Suc a < b then Some (Suc a) else None) [Suc a..<b]"
    using Suc by (intro Suc.hyps(1)) auto
  then show ?case using ab Suc.prems(2) [of a] by (simp add: upt_conv_Cons)
qed simp

subsection \<open>Segments of a chain\<close>

text \<open>\<open>seg h p xs q\<close>: following \<open>h\<close> from \<open>p\<close> visits \<open>xs\<close> and arrives at \<open>q\<close>.\<close>

primrec seg :: "('a \<Rightarrow> 'a option) \<Rightarrow> 'a option \<Rightarrow> 'a list \<Rightarrow> 'a option \<Rightarrow> bool" where
  "seg h p [] q = (p = q)"
| "seg h p (a # as) q = (p = Some a \<and> seg h (h a) as q)"

lemma chain_seg: "chain h p xs = seg h p xs None"
  by (induction xs arbitrary: p) auto

lemma seg_append [chain_simps]: "seg h p (xs @ ys) q = (\<exists>r. seg h p xs r \<and> seg h r ys q)"
  by (induction xs arbitrary: p) auto

lemma seg_upd_notin [chain_simps]: "a \<notin> set xs \<Longrightarrow> seg (h(a := v)) p xs q = seg h p xs q"
  by (induction xs arbitrary: p) auto

lemma seg_upd_last:
  assumes "seg h p xs q" "xs \<noteq> []" "distinct xs"
  shows "seg (h(last xs := r)) p xs r"
  using assms by (induction xs arbitrary: p) (auto simp: seg_upd_notin)

lemma seg_hd: "seg h p xs q \<Longrightarrow> xs \<noteq> [] \<Longrightarrow> p = Some (hd xs)"
  by (cases xs) auto

lemma chain_append_seg: "chain h p (xs @ ys) = (\<exists>r. seg h p xs r \<and> chain h r ys)"
  by (simp add: chain_seg seg_append)

text \<open>Appending a cell at the end of a chain.\<close>

lemma chain_snoc:
  assumes "chain h p xs" "xs \<noteq> []" "a \<notin> set xs" "h a = None"
  shows "chain (h(last xs := Some a)) p (xs @ [a])"
proof -
  have "seg (h(last xs := Some a)) p xs (Some a)"
    using assms(1,2) chain_distinct [OF assms(1)] by (intro seg_upd_last) (auto simp: chain_seg)
  moreover have "last xs \<noteq> a" using assms(2,3) by auto
  ultimately show ?thesis using assms(4) by (auto simp: chain_append_seg)
qed

text \<open>Unlinking a cell from the middle of a chain and linking it at the end.\<close>

lemma chain_to_end:
  assumes "chain h p (us @ e # vs)" "us \<noteq> []" "vs \<noteq> []"
  shows "chain (h(last us := h e, last vs := Some e, e := None)) p (us @ vs @ [e])"
proof -
  note d = chain_distinct [OF assms(1)]
  from assms(1) have 1: "seg h p us (Some e)" "seg h (h e) vs None"
    by (auto simp: chain_seg seg_append)
  have l: "last us \<in> set us" "last vs \<in> set vs" using assms(2,3) by simp_all
  with d have ne: "last us \<noteq> last vs" "last us \<noteq> e" "last vs \<noteq> e" by auto
  have "seg (h(last us := h e)) p us (h e)" using 1(1) assms(2) d by (intro seg_upd_last) auto
  moreover have "seg (h(last vs := Some e)) (h e) vs (Some e)"
    using 1(2) assms(3) d by (intro seg_upd_last) auto
  moreover have "last us \<notin> set vs" "last vs \<notin> set us" using d l by auto
  ultimately have "seg (h(last us := h e, last vs := Some e)) p us (h e)"
    "seg (h(last us := h e, last vs := Some e)) (h e) vs (Some e)"
    by (simp_all add: seg_upd_notin fun_upd_twist [OF ne(1)]) (simp_all add: seg_upd_notin flip: fun_upd_twist [OF ne(1)])
  then show ?thesis using d by (auto simp: chain_seg seg_append seg_upd_notin)
qed

subsection \<open>Counted loops that may fault\<close>

text \<open>\<open>for_each body [a..<b] s\<close> is the loop \<^verbatim>\<open>for (i = a; i < b; i++) body\<close>, stopping at the
  first fault.\<close>

primrec for_each :: "('i \<Rightarrow> 's \<Rightarrow> 's option) \<Rightarrow> 'i list \<Rightarrow> 's \<Rightarrow> 's option" where
  "for_each body [] s = Some s"
| "for_each body (i # is) s = Option.bind (body i s) (for_each body is)"

lemma for_each_cong: "(\<And>i s. i \<in> set is \<Longrightarrow> f i s = g i s) \<Longrightarrow> for_each f is s = for_each g is s"
  by (induction "is" arbitrary: s) (simp_all split: bind_split)

lemma for_each_append:
  "for_each body (is @ js) s = Option.bind (for_each body is s) (for_each body js)"
  by (induction "is" arbitrary: s) (simp_all split: bind_splits)

end
