(* ===== verification/PageAlloc.thy ===== *)
theory PageAlloc
  imports Prelude
begin

text \<open>
  The physical page allocator of \<^verbatim>\<open>sys/phymap.c\<close>: the array \<^verbatim>\<open>pages\<close> of page
  descriptors, the free list threaded through it, and \<^verbatim>\<open>page_init\<close>,
  \<^verbatim>\<open>page_alloc\<close>, \<^verbatim>\<open>page_dealloc\<close>, \<^verbatim>\<open>kmalloc\<close>. A descriptor pointer is the
  index of the descriptor in the array, since every descriptor lives there.
\<close>

record page =
  nxt :: "nat option"
  refer_cnt :: u32
  page_addr :: u64

text \<open>The file-scope variables the allocator uses. The array is raw memory: it has no
  declared bound and its initial contents are whatever the memory held.\<close>

record alloc =
  pages :: "nat \<Rightarrow> page"
  free_list :: "nat option"
  noofpages :: u32
  physfree :: u64

text \<open>\<open>noofpages\<close> is a signed \<open>int\<close>, converted to \<open>size_t\<close> where it is used.\<close>

definition noofpages_sz :: "'a alloc_scheme \<Rightarrow> u64" where
  "noofpages_sz s = scast (noofpages s)"

text \<open>The first page number \<open>page_init\<close> leaves free. The source multiplies by the size of a
  \<^emph>\<open>pointer\<close> to \<open>struct Page\<close>, which is 8.\<close>

definition page_init_memory :: "'a alloc_scheme \<Rightarrow> u64" where
  "page_init_memory s = (physfree s + noofpages_sz s * 8) div 4096"

text \<open>One iteration of the loop of \<open>page_init\<close>, on the pair of \<open>prevPtr\<close> and the state.\<close>

definition page_init_step ::
    "u64 \<Rightarrow> nat \<Rightarrow> nat option \<times> 'a alloc_scheme \<Rightarrow> nat option \<times> 'a alloc_scheme" where
  "page_init_step memory i = (\<lambda>(prevPtr, s).
     let s = s\<lparr>pages := (pages s)(i := (pages s i)\<lparr>page_addr := of_nat i * 4096\<rparr>)\<rparr> in
     if i < unat memory then
       (prevPtr, s\<lparr>pages := (pages s)(i := (pages s i)\<lparr>refer_cnt := 1, nxt := None\<rparr>)\<rparr>)
     else
       let s = s\<lparr>pages := (pages s)(i := (pages s i)\<lparr>refer_cnt := 0\<rparr>)\<rparr>;
           s = (case prevPtr of
                  Some q \<Rightarrow> s\<lparr>pages := (pages s)(q := (pages s q)\<lparr>nxt := Some i\<rparr>)\<rparr>
                | None \<Rightarrow> s\<lparr>free_list := Some i\<rparr>)
       in (Some i, s))"

definition page_init :: "'a alloc_scheme \<Rightarrow> 'a alloc_scheme" where
  "page_init s =
     snd (fold (page_init_step (page_init_memory s)) [0..<unat (noofpages_sz s)] (None, s))"

definition page_alloc :: "'a alloc_scheme \<Rightarrow> nat option \<times> 'a alloc_scheme" where
  "page_alloc s =
     (case free_list s of
        None \<Rightarrow> (None, s)
      | Some newPage \<Rightarrow> (Some newPage, s\<lparr>free_list := nxt (pages s newPage)\<rparr>))"

definition page_dealloc :: "'a alloc_scheme \<Rightarrow> nat \<Rightarrow> 'a alloc_scheme" where
  "page_dealloc s ptr =
     (let s = s\<lparr>pages := (pages s)(ptr := (pages s ptr)\<lparr>nxt := free_list s\<rparr>)\<rparr>
      in s\<lparr>free_list := Some ptr\<rparr>)"

text \<open>The expression \<^verbatim>\<open>page_alloc()->addr\<close>, used throughout the kernel without a check:
  a null result is dereferenced.\<close>

definition page_alloc_addr :: "'a alloc_scheme \<Rightarrow> (u64 \<times> 'a alloc_scheme) option" where
  "page_alloc_addr s =
     (case page_alloc s of
        (None, _) \<Rightarrow> None
      | (Some p, s') \<Rightarrow> Some (page_addr (pages s' p), s'))"

text \<open>The \<open>int\<close> counter of \<open>kmalloc\<close>: a 64-bit quotient stored in 32 bits, plus one for a
  partial page.\<close>

definition kmalloc_cnt :: "u64 \<Rightarrow> u32" where
  "kmalloc_cnt sz = ucast (sz div 4096) + (if sz mod 4096 > 0 then 1 else 0)"

definition kmalloc :: "'a alloc_scheme \<Rightarrow> u64 \<Rightarrow> (u64 \<times> 'a alloc_scheme) option" where
  "kmalloc s sz =
     (if sz > 0 then
        do { (ret_addr, s) \<leftarrow> page_alloc_addr s;
             Some (ret_addr, ((\<lambda>s. snd (page_alloc s)) ^^ nat (sint (kmalloc_cnt sz) - 1)) s) }
      else Some (0, s))"

subsection \<open>The abstract allocator\<close>

text \<open>
  The contract: an abstraction \<open>rep\<close> relates a state to the list of free pages. Allocation
  takes the head, deallocation puts a page back at the front.
\<close>

locale page_allocator =
  fixes alloc_page :: "'s \<Rightarrow> 'p option \<times> 's"
    and dealloc_page :: "'s \<Rightarrow> 'p \<Rightarrow> 's"
    and rep :: "'s \<Rightarrow> 'p list \<Rightarrow> bool"
  assumes rep_distinct: "rep s xs \<Longrightarrow> distinct xs"
    and rep_unique: "rep s xs \<Longrightarrow> rep s ys \<Longrightarrow> xs = ys"
    and alloc_empty: "rep s [] \<Longrightarrow> alloc_page s = (None, s)"
    and alloc_head: "rep s (x # xs) \<Longrightarrow> fst (alloc_page s) = Some x"
    and alloc_rest: "rep s (x # xs) \<Longrightarrow> rep (snd (alloc_page s)) xs"
    and dealloc_front: "rep s xs \<Longrightarrow> x \<notin> set xs \<Longrightarrow> rep (dealloc_page s x) (x # xs)"
begin

lemma alloc_drop: "rep s xs \<Longrightarrow> rep (snd (alloc_page s)) (drop 1 xs)"
  by (cases xs) (auto simp: alloc_empty alloc_rest)

lemma alloc_many: "rep s xs \<Longrightarrow> rep (((\<lambda>s. snd (alloc_page s)) ^^ k) s) (drop k xs)"
proof (induction k arbitrary: s xs)
  case (Suc k)
  have "rep (((\<lambda>s. snd (alloc_page s)) ^^ k) (snd (alloc_page s))) (drop k (drop 1 xs))"
    by (rule Suc.IH, rule alloc_drop, rule Suc.prems)
  then show ?case by (simp add: funpow_Suc_right del: funpow.simps(2))
qed simp

lemma alloc_dealloc_restores:
  assumes "rep s xs" "fst (alloc_page s) = Some x"
  shows "rep (dealloc_page (snd (alloc_page s)) x) xs"
proof (cases xs)
  case Nil
  with assms show ?thesis by (simp add: alloc_empty)
next
  case (Cons y ys)
  with assms have "x = y" using alloc_head [of s y ys] by simp
  moreover have "y \<notin> set ys" using rep_distinct [OF assms(1)] Cons by simp
  ultimately show ?thesis using Cons assms(1) by (auto intro: dealloc_front alloc_rest)
qed

lemma dealloc_alloc_lifo:
  "rep s xs \<Longrightarrow> x \<notin> set xs \<Longrightarrow> fst (alloc_page (dealloc_page s x)) = Some x"
  by (rule alloc_head, rule dealloc_front)

lemma alloc_not_free:
  assumes "rep s xs" "fst (alloc_page s) = Some x" "rep (snd (alloc_page s)) ys"
  shows "x \<notin> set ys"
proof (cases xs)
  case Nil
  with assms show ?thesis by (simp add: alloc_empty)
next
  case (Cons z zs)
  with assms have "x = z" using alloc_head [of s z zs] by simp
  moreover have "ys = zs" using rep_unique [OF assms(3)] alloc_rest assms(1) Cons by blast
  ultimately show ?thesis using rep_distinct [OF assms(1)] Cons by simp
qed

end

text \<open>The free list of the model is the chain of \<open>next\<close> links from \<open>free_list\<close>.\<close>

definition flist :: "'a alloc_scheme \<Rightarrow> nat list \<Rightarrow> bool" where
  "flist s xs \<longleftrightarrow> chain (\<lambda>i. nxt (pages s i)) (free_list s) xs"

lemma flist_dealloc:
  assumes "flist s xs" "x \<notin> set xs"
  shows "flist (page_dealloc s x) (x # xs)"
proof -
  have "chain (\<lambda>i. nxt (pages (page_dealloc s x) i)) (free_list s) xs"
    using assms by (subst chain_cong [where h' = "\<lambda>i. nxt (pages s i)"])
      (auto simp: flist_def page_dealloc_def)
  then show ?thesis by (simp add: flist_def page_dealloc_def)
qed

interpretation pa: page_allocator page_alloc page_dealloc flist
proof unfold_locales
  show "\<And>s :: 'a alloc_scheme. \<And>xs. flist s xs \<Longrightarrow> distinct xs"
    by (auto simp: flist_def dest: chain_distinct)
  show "\<And>s :: 'a alloc_scheme. \<And>xs ys. flist s xs \<Longrightarrow> flist s ys \<Longrightarrow> xs = ys"
    by (auto simp: flist_def dest: chain_unique)
  show "\<And>s :: 'a alloc_scheme. \<And>xs x. flist s xs \<Longrightarrow> x \<notin> set xs \<Longrightarrow>
      flist (page_dealloc s x) (x # xs)"
    by (rule flist_dealloc)
qed (auto simp: flist_def page_alloc_def)

text \<open>Facts of the interface in the form the clients use them.\<close>

lemma page_alloc_addr_Cons:
  assumes "flist s (x # xs)"
  shows "\<exists>s'. page_alloc_addr s = Some (page_addr (pages s x), s') \<and> flist s' xs \<and>
    s' = s\<lparr>free_list := free_list s'\<rparr>"
  using assms pa.alloc_rest [OF assms]
  by (auto simp: page_alloc_addr_def page_alloc_def flist_def)

lemma page_alloc_addr_Nil: "flist s [] \<Longrightarrow> page_alloc_addr s = None"
  by (simp add: page_alloc_addr_def page_alloc_def flist_def)

lemma page_alloc_pages [simp]: "pages (snd (page_alloc s)) = pages s"
  by (auto simp: page_alloc_def split: option.splits)

subsection \<open>Initialisation\<close>

text \<open>What holds after the first \<open>k\<close> iterations of \<open>page_init\<close>.\<close>

definition page_init_inv ::
    "nat \<Rightarrow> 'a alloc_scheme \<Rightarrow> nat \<Rightarrow> nat option \<times> 'a alloc_scheme \<Rightarrow> bool" where
  "page_init_inv m s0 k = (\<lambda>(prevPtr, s).
     (if k \<le> m then prevPtr = None \<and> free_list s = None
      else prevPtr = Some (k - 1) \<and> free_list s = Some m \<and>
        nxt (pages s (k - 1)) = nxt (pages s0 (k - 1)))
     \<and> (\<forall>i. m \<le> i \<longrightarrow> Suc i < k \<longrightarrow> nxt (pages s i) = Some (Suc i))
     \<and> (\<forall>i \<ge> k. pages s i = pages s0 i)
     \<and> (\<forall>i < k. page_addr (pages s i) = of_nat i * 4096)
     \<and> (\<forall>i < k. refer_cnt (pages s i) = (if i < m then 1 else 0)))"

lemma page_init_inv_step:
  assumes "page_init_inv (unat memory) s0 k ps"
  shows "page_init_inv (unat memory) s0 (Suc k) (page_init_step memory k ps)"
proof (cases "k < unat memory")
  case True
  with assms show ?thesis
    by (auto simp: page_init_inv_def page_init_step_def Let_def less_Suc_eq split: prod.splits)
next
  case False
  show ?thesis
  proof (cases "k = unat memory")
    case True
    with assms False show ?thesis
      by (auto simp: page_init_inv_def page_init_step_def Let_def less_Suc_eq split: prod.splits)
  next
    case False
    with \<open>\<not> k < unat memory\<close> have "k > unat memory" by simp
    with assms show ?thesis
      by (auto simp: page_init_inv_def page_init_step_def Let_def less_Suc_eq split: prod.splits)
  qed
qed

lemma page_init_inv_fold:
  assumes "free_list s0 = None"
  shows "page_init_inv (unat memory) s0 k (fold (page_init_step memory) [0..<k] (None, s0))"
proof (induction k)
  case 0
  with assms show ?case by (simp add: page_init_inv_def)
next
  case (Suc k)
  then show ?case using page_init_inv_step by simp
qed

lemma page_init_result:
  assumes "free_list s = None"
  shows "\<exists>prevPtr. page_init_inv (unat (page_init_memory s)) s (unat (noofpages_sz s))
    (prevPtr, page_init s)"
  using page_init_inv_fold [OF assms, of "page_init_memory s" "unat (noofpages_sz s)"]
  by (metis page_init_def prod.collapse)

lemma page_init_flist:
  assumes "free_list s = None"
    and "m = unat (page_init_memory s)" and "n = unat (noofpages_sz s)"
    and "m < n \<Longrightarrow> nxt (pages s (n - 1)) = None"
  shows "flist (page_init s) [m..<n]"
proof -
  obtain prevPtr where inv: "page_init_inv m s n (prevPtr, page_init s)"
    using page_init_result [OF assms(1)] assms(2,3) by blast
  have "chain (\<lambda>i. nxt (pages (page_init s) i)) (if m < n then Some m else None) [m..<n]"
  proof (cases "m < n")
    case True
    then show ?thesis using inv assms(4)
      by (intro chain_upt) (auto simp: page_init_inv_def not_less dest: le_antisym Suc_leI)
  qed simp
  moreover have "free_list (page_init s) = (if m < n then Some m else None)"
    using inv by (auto simp: page_init_inv_def split: if_splits)
  ultimately show ?thesis by (simp add: flist_def)
qed

lemma page_init_addr:
  "free_list s = None \<Longrightarrow> i < unat (noofpages_sz s) \<Longrightarrow>
    page_addr (pages (page_init s) i) = of_nat i * 4096"
  using page_init_result [of s] by (auto simp: page_init_inv_def)

text \<open>C23. After \<open>page_init\<close> the free list is exactly the run of pages from the first
  unreserved page to the last page, in ascending order, every descriptor holds its own page
  address, and exactly the reserved pages carry reference count 1. The array memory must
  have held a null \<open>next\<close> link in its last descriptor beforehand: the loop never writes
  that link.\<close>

theorem page_init_correct:
  assumes "free_list s = None"
    and "m = unat (page_init_memory s)" and "n = unat (noofpages_sz s)"
    and "m < n \<Longrightarrow> nxt (pages s (n - 1)) = None"
  shows "flist (page_init s) [m..<n]
    \<and> (\<forall>i < n. page_addr (pages (page_init s) i) = of_nat i * 4096)
    \<and> (\<forall>i < n. refer_cnt (pages (page_init s) i) = (if i < m then 1 else 0))"
  using page_init_flist [OF assms] page_init_result [OF assms(1)] assms(2,3)
  by (auto simp: page_init_inv_def)

subsection \<open>kmalloc\<close>

text \<open>The number of whole pages a request needs.\<close>

definition pages_needed :: "u64 \<Rightarrow> nat" where
  "pages_needed sz = (unat sz + 4095) div 4096"

lemma kmalloc_cnt_exact:
  assumes "unat sz \<le> 2 ^ 42"
  shows "sint (kmalloc_cnt sz) = int (pages_needed sz)"
proof -
  have d: "unat sz div 4096 \<le> 2 ^ 30" using assms by simp
  have m: "(sz mod 4096 > 0) = (unat sz mod 4096 > 0)"
    by (simp add: word_less_nat_alt unat_mod)
  have u: "unat (ucast (sz div 4096) :: u32) = unat sz div 4096"
    using d by (simp add: unsigned_ucast_eq unat_div take_bit_nat_eq_self)
  have p: "pages_needed sz = unat sz div 4096 + (if unat sz mod 4096 > 0 then 1 else 0)"
    by (simp only: pages_needed_def ceil_page)
  have "unat (kmalloc_cnt sz) = pages_needed sz"
    using d by (simp add: kmalloc_cnt_def p u m unat_word_ariths)
  then show ?thesis using d p by (subst sint_small) auto
qed

lemma page_alloc_only_free_list:
  "((\<lambda>s. snd (page_alloc s)) ^^ k) s = s\<lparr>free_list := free_list (((\<lambda>s. snd (page_alloc s)) ^^ k) s)\<rparr>"
  by (induction k) (auto simp: page_alloc_def split: option.splits)

text \<open>\<open>kmalloc\<close> on an arbitrary free list: the address of the head page, and one page off the
  list for each page needed (or as many as there are).\<close>

lemma kmalloc_spec:
  assumes "flist s (x # xs)" "0 < sz" "unat sz \<le> 2 ^ 42"
  shows "\<exists>s'. kmalloc s sz = Some (page_addr (pages s x), s') \<and>
    flist s' (drop (pages_needed sz - 1) xs) \<and> s' = s\<lparr>free_list := free_list s'\<rparr>"
proof -
  define k where "k = pages_needed sz - 1"
  have k: "nat (sint (kmalloc_cnt sz) - 1) = k"
    using kmalloc_cnt_exact [OF assms(3)] by (simp add: k_def)
  obtain s1 where s1: "page_alloc_addr s = Some (page_addr (pages s x), s1)" "flist s1 xs"
      "s1 = s\<lparr>free_list := free_list s1\<rparr>"
    using page_alloc_addr_Cons [OF assms(1)] by blast
  define s2 where "s2 = ((\<lambda>s. snd (page_alloc s)) ^^ k) s1"
  have "flist s2 (drop k xs)" unfolding s2_def by (rule pa.alloc_many [OF s1(2)])
  moreover have "s2 = s\<lparr>free_list := free_list s2\<rparr>"
    using page_alloc_only_free_list [of k s1] s1(3) unfolding s2_def
    by (metis alloc.select_convs(2) alloc.surjective alloc.update_convs(2))
  moreover have "kmalloc s sz = Some (page_addr (pages s x), s2)"
    using assms(2) s1(1) by (simp add: kmalloc_def k s2_def)
  ultimately show ?thesis unfolding k_def by blast
qed

text \<open>C24. On an ascending free list (as \<open>page_init\<close> leaves it) with enough pages, \<open>kmalloc\<close>
  returns a block of physically consecutive pages that is large enough for the request and
  whose pages are all off the free list afterwards; the remaining list is the rest of the run.\<close>

theorem kmalloc_contiguous:
  assumes "flist s [a..<b]" "\<And>i. a \<le> i \<Longrightarrow> i < b \<Longrightarrow> page_addr (pages s i) = of_nat i * 4096"
    and "0 < sz" "unat sz \<le> 2 ^ 42" "a + pages_needed sz \<le> b"
  shows "\<exists>s'. kmalloc s sz = Some (of_nat a * 4096, s')
    \<and> flist s' [a + pages_needed sz..<b]
    \<and> unat sz \<le> 4096 * pages_needed sz"
proof -
  have need: "0 < pages_needed sz"
    using assms(3) by (simp add: pages_needed_def word_less_nat_alt div_greater_zero_iff)
  with assms(5) have ab: "a < b" by simp
  with assms(1) have "flist s (a # [Suc a..<b])" by (simp add: upt_conv_Cons)
  from kmalloc_spec [OF this assms(3,4)] obtain s' where
    s': "kmalloc s sz = Some (page_addr (pages s a), s')"
      "flist s' (drop (pages_needed sz - 1) [Suc a..<b])" by blast
  have "drop (pages_needed sz - 1) [Suc a..<b] = [a + pages_needed sz..<b]"
    using need by (simp add: drop_upt)
  with s' ab assms(2) [of a] show ?thesis
    by (simp add: pages_needed_def unat_ceil_page)
qed

text \<open>C31. \<open>kmalloc\<close> does not notice running out: when the list holds at least one page but
  fewer than the request needs, it still returns the head page's address, and leaves no free
  page.\<close>

theorem kmalloc_overcommits:
  assumes "flist s (x # xs)" "0 < sz" "unat sz \<le> 2 ^ 42" "length (x # xs) < pages_needed sz"
  shows "\<exists>s'. kmalloc s sz = Some (page_addr (pages s x), s') \<and> flist s' []"
  using kmalloc_spec [OF assms(1-3)] assms(4) by auto

text \<open>C32. Freeing what was just allocated restores the free list, the allocated page is not on
  the free list in between, and the next allocation would return it again.\<close>

theorem page_alloc_dealloc_roundtrip:
  assumes "flist s xs" "page_alloc s = (Some p, s')"
  shows "flist (page_dealloc s' p) xs \<and> (\<forall>ys. flist s' ys \<longrightarrow> p \<notin> set ys)
    \<and> fst (page_alloc (page_dealloc s' p)) = Some p"
proof -
  have r: "flist (page_dealloc s' p) xs"
    using pa.alloc_dealloc_restores [OF assms(1), of p] assms(2) by simp
  have "p \<notin> set ys" if "flist s' ys" for ys
    using pa.alloc_not_free [OF assms(1), of p ys] assms(2) that by simp
  moreover have "fst (page_alloc (page_dealloc s' p)) = Some p"
    by (simp add: page_alloc_def page_dealloc_def)
  ultimately show ?thesis using r by blast
qed


subsection \<open>Witnesses\<close>

definition demo_alloc :: alloc where
  "demo_alloc = \<lparr>pages = \<lambda>_. \<lparr>nxt = None, refer_cnt = 0, page_addr = 0\<rparr>, free_list = None,
     noofpages = 16, physfree = 0x2000\<rparr>"

lemma demo_alloc_size:
  "page_init_memory demo_alloc = 2" "noofpages_sz demo_alloc = 16"
  by (simp_all add: page_init_memory_def noofpages_sz_def demo_alloc_def)

lemma demo_alloc_fields:
  "free_list demo_alloc = None" "nxt (pages demo_alloc i) = None" "physfree demo_alloc = 0x2000"
  by (simp_all add: demo_alloc_def)

lemma demo_alloc_flist: "flist (page_init demo_alloc) [2..<16]"
  by (rule page_init_flist) (simp_all add: demo_alloc_size demo_alloc_fields)

lemma demo_alloc_addr:
  "i < 16 \<Longrightarrow> page_addr (pages (page_init demo_alloc) i) = of_nat i * 4096"
  by (rule page_init_addr) (simp_all add: demo_alloc_size demo_alloc_fields)

theorem page_init_correct_witness:
  "flist (page_init demo_alloc) [2..<16] \<and> page_addr (pages (page_init demo_alloc) 7) = 7 * 4096"
  using page_init_correct [of demo_alloc 2 16, OF demo_alloc_fields(1)] demo_alloc_size
    demo_alloc_fields(2)
  by fastforce

theorem kmalloc_contiguous_witness:
  "\<exists>s'. kmalloc (page_init demo_alloc) 4456 = Some (0x2000, s') \<and> flist s' [4..<16]"
proof -
  have n: "pages_needed 4456 = 2" by (simp add: pages_needed_def)
  have "page_addr (pages (page_init demo_alloc) i) = of_nat i * 4096" if "2 \<le> i" "i < 16" for i
    using demo_alloc_addr that by simp
  from kmalloc_contiguous [OF demo_alloc_flist this, where sz = 4456] n show ?thesis by simp
qed

theorem kmalloc_overcommits_witness:
  "\<exists>s'. kmalloc (page_init demo_alloc) 0x14000 =
     Some (page_addr (pages (page_init demo_alloc) 2), s') \<and> flist s' []"
proof -
  have "flist (page_init demo_alloc) (2 # [3..<16])"
    using demo_alloc_flist by (simp add: upt_conv_Cons)
  from kmalloc_overcommits [OF this, where sz = "0x14000"] show ?thesis by (simp add: pages_needed_def)
qed

theorem page_alloc_dealloc_roundtrip_witness:
  "flist (page_dealloc (snd (page_alloc (page_init demo_alloc))) 2) [2..<16]"
proof -
  have "fst (page_alloc (page_init demo_alloc)) = Some 2"
    using pa.alloc_head [of "page_init demo_alloc" 2 "[3..<16]"] demo_alloc_flist
    by (simp add: upt_conv_Cons)
  then have "page_alloc (page_init demo_alloc) =
      (Some 2, snd (page_alloc (page_init demo_alloc)))"
    by (metis prod.collapse)
  from page_alloc_dealloc_roundtrip [OF demo_alloc_flist this] show ?thesis by simp
qed


end
