(* ===== verification/PageTable.thy ===== *)
theory PageTable
  imports PageAlloc "HOL-Library.Sublist"
begin

unbundle bit_operations_syntax

text \<open>
  The four-level page tables of \<^verbatim>\<open>sys/phymap.c\<close>. Physical memory is a map from byte
  addresses to 64-bit entries (only 8-byte aligned slots are used); a table pointer is the
  physical address of its page, with 0 for \<open>NULL\<close>, and the kernel reads and writes tables
  through it directly because the region that holds them is identity mapped.
\<close>

record vm = alloc +
  mem :: "u64 \<Rightarrow> u64"
  CR3 :: u64 \<comment> \<open>the control register\<close>
  pml4 :: u64 \<comment> \<open>the global \<open>struct PML4 *pml4\<close>\<close>
  cr3 :: u64 \<comment> \<open>the global \<open>uint64_t cr3\<close>\<close>

abbreviation PTE_P :: u64 where "PTE_P \<equiv> 0x001"
abbreviation PTE_W :: u64 where "PTE_W \<equiv> 0x002"
abbreviation PTE_U :: u64 where "PTE_U \<equiv> 0x004"
abbreviation PTE_COW :: u64 where "PTE_COW \<equiv> 0x100"
abbreviation FRAME :: u64 where "FRAME \<equiv> 0xFFFFFFFFFFFFF000"

definition get_CR3 :: "'a vm_scheme \<Rightarrow> u64" where
  "get_CR3 s = CR3 s"

definition set_CR3 :: "'a vm_scheme \<Rightarrow> u64 \<Rightarrow> 'a vm_scheme" where
  "set_CR3 s new_cr3 = s\<lparr>CR3 := new_cr3\<rparr>"

definition load_CR3 :: "'a vm_scheme \<Rightarrow> 'a vm_scheme" where
  "load_CR3 s = s\<lparr>CR3 := cr3 s\<rparr>"

definition getPML4Index :: "u64 \<Rightarrow> u64" where
  "getPML4Index addr = drop_bit 39 addr AND 0x1FF"

definition getPDPTIndex :: "u64 \<Rightarrow> u64" where
  "getPDPTIndex addr = drop_bit 30 addr AND 0x1FF"

definition getPDTIndex :: "u64 \<Rightarrow> u64" where
  "getPDTIndex addr = drop_bit 21 addr AND 0x1FF"

definition getPTIndex :: "u64 \<Rightarrow> u64" where
  "getPTIndex addr = drop_bit 12 addr AND 0x1FF"

text \<open>\<^verbatim>\<open>tbl->pt_entries[i]\<close> as a read (which faults on a null table) and as a write.\<close>

definition pt_entry :: "'a vm_scheme \<Rightarrow> u64 \<Rightarrow> u64 \<Rightarrow> u64" where
  "pt_entry s tbl i = mem s (tbl + 8 * i)"

definition pt_get :: "'a vm_scheme \<Rightarrow> u64 \<Rightarrow> u64 \<Rightarrow> u64 option" where
  "pt_get s tbl i = (if tbl = 0 then None else Some (pt_entry s tbl i))"

definition pt_write :: "'a vm_scheme \<Rightarrow> u64 \<Rightarrow> u64 \<Rightarrow> u64 \<Rightarrow> 'a vm_scheme" where
  "pt_write s tbl i v = s\<lparr>mem := (mem s)(tbl + 8 * i := v)\<rparr>"

definition pt_set :: "'a vm_scheme \<Rightarrow> u64 \<Rightarrow> u64 \<Rightarrow> u64 \<Rightarrow> 'a vm_scheme option" where
  "pt_set s tbl i v = (if tbl = 0 then None else Some (pt_write s tbl i v))"

definition get_address :: "u64 \<Rightarrow> u64" where
  "get_address entry = entry AND FRAME"

definition get_pml4_entry :: "'a vm_scheme \<Rightarrow> u64 \<Rightarrow> u64 \<Rightarrow> u64 option" where
  "get_pml4_entry s p i = pt_get s p i"

definition get_pdpt_entry :: "'a vm_scheme \<Rightarrow> u64 \<Rightarrow> u64 \<Rightarrow> u64 option" where
  "get_pdpt_entry s p i = pt_get s p i"

definition get_pdt_entry :: "'a vm_scheme \<Rightarrow> u64 \<Rightarrow> u64 \<Rightarrow> u64 option" where
  "get_pdt_entry s p i = pt_get s p i"

definition get_pt_entry :: "'a vm_scheme \<Rightarrow> u64 \<Rightarrow> u64 \<Rightarrow> u64 option" where
  "get_pt_entry s p i = pt_get s p i"

text \<open>The three table allocators have the same body, at three levels.\<close>

definition pdpt_alloc :: "'a vm_scheme \<Rightarrow> u64 \<Rightarrow> u64 \<Rightarrow> (u64 \<times> 'a vm_scheme) option" where
  "pdpt_alloc s pml4p pml4_index = do {
     (pdpt, s) \<leftarrow> page_alloc_addr s;
     s \<leftarrow> pt_set s pml4p pml4_index (pdpt OR (PTE_P OR PTE_W OR PTE_U));
     Some (pdpt, s) }"

definition pdt_alloc :: "'a vm_scheme \<Rightarrow> u64 \<Rightarrow> u64 \<Rightarrow> (u64 \<times> 'a vm_scheme) option" where
  "pdt_alloc s pdpt pdpt_index = do {
     (pdt, s) \<leftarrow> page_alloc_addr s;
     s \<leftarrow> pt_set s pdpt pdpt_index (pdt OR (PTE_P OR PTE_W OR PTE_U));
     Some (pdt, s) }"

definition pt_alloc :: "'a vm_scheme \<Rightarrow> u64 \<Rightarrow> u64 \<Rightarrow> (u64 \<times> 'a vm_scheme) option" where
  "pt_alloc s pdt pdt_index = do {
     (pt, s) \<leftarrow> page_alloc_addr s;
     s \<leftarrow> pt_set s pdt pdt_index (pt OR (PTE_P OR PTE_W OR PTE_U));
     Some (pt, s) }"

text \<open>The body that \<open>map_virt_address\<close> and \<open>map_process\<close> share; they differ only in where the
  root table comes from.\<close>

definition map_at :: "'a vm_scheme \<Rightarrow> u64 \<Rightarrow> u64 \<Rightarrow> u64 \<Rightarrow> 'a vm_scheme option" where
  "map_at s root vaddr paddr = do {
     pml4_entry \<leftarrow> get_pml4_entry s root (getPML4Index vaddr);
     (pdpt, s) \<leftarrow> (if pml4_entry AND PTE_P \<noteq> 0 then Some (get_address pml4_entry, s)
                    else pdpt_alloc s root (getPML4Index vaddr));
     pdpt_entry \<leftarrow> get_pdpt_entry s pdpt (getPDPTIndex vaddr);
     (pdt, s) \<leftarrow> (if pdpt_entry AND PTE_P \<noteq> 0 then Some (get_address pdpt_entry, s)
                   else pdt_alloc s pdpt (getPDPTIndex vaddr));
     pdt_entry \<leftarrow> get_pdt_entry s pdt (getPDTIndex vaddr);
     (pt, s) \<leftarrow> (if pdt_entry AND PTE_P \<noteq> 0 then Some (get_address pdt_entry, s)
                  else pt_alloc s pdt (getPDTIndex vaddr));
     pt_set s pt (getPTIndex vaddr) (paddr OR (PTE_P OR PTE_W OR PTE_U)) }"

definition map_virt_address :: "'a vm_scheme \<Rightarrow> u64 \<Rightarrow> u64 \<Rightarrow> 'a vm_scheme option" where
  "map_virt_address s vaddr paddr = map_at s (pml4 s) vaddr paddr"

definition map_process :: "'a vm_scheme \<Rightarrow> u64 \<Rightarrow> u64 \<Rightarrow> 'a vm_scheme option" where
  "map_process s vaddr paddr = map_at s (get_CR3 s) vaddr paddr"

definition get_phy_addr :: "'a vm_scheme \<Rightarrow> u64 \<Rightarrow> (u64 \<times> 'a vm_scheme) option" where
  "get_phy_addr s vaddr = do {
     (page, s) \<leftarrow> page_alloc_addr s;
     s \<leftarrow> map_process s vaddr page;
     Some (vaddr, s) }"

text \<open>\<open>phyAddr\<close>: a missing upper level leaves a null table pointer that the next read
  dereferences; a missing page table gives 0. The result is the raw entry.\<close>

definition phyAddr :: "'a vm_scheme \<Rightarrow> u64 \<Rightarrow> u64 option" where
  "phyAddr s vaddr = do {
     pml4_entry \<leftarrow> get_pml4_entry s (get_CR3 s) (getPML4Index vaddr);
     let pdpt = (if pml4_entry AND PTE_P \<noteq> 0 then get_address pml4_entry else 0);
     pdpt_entry \<leftarrow> get_pdpt_entry s pdpt (getPDPTIndex vaddr);
     let pdt = (if pdpt_entry AND PTE_P \<noteq> 0 then get_address pdpt_entry else 0);
     pdt_entry \<leftarrow> get_pdt_entry s pdt (getPDTIndex vaddr);
     let pt = (if pdt_entry AND PTE_P \<noteq> 0 then get_address pdt_entry else 0);
     if pt \<noteq> 0 then get_pt_entry s pt (getPTIndex vaddr) else Some 0 }"

text \<open>\<open>set_user_AddrSpace\<close> copies all 512 root entries of the current address space.\<close>

definition set_user_AddrSpace :: "'a vm_scheme \<Rightarrow> (u64 \<times> 'a vm_scheme) option" where
  "set_user_AddrSpace s = do {
     (newPML4, s) \<leftarrow> page_alloc_addr s;
     let curPML4 = get_CR3 s;
     Some (newPML4, fold (\<lambda>i s. pt_write s newPML4 (of_nat i) (pt_entry s curPML4 (of_nat i)))
                     [0..<512] s) }"

subsection \<open>The hardware walk as specification\<close>

definition present :: "u64 \<Rightarrow> bool" where
  "present e \<longleftrightarrow> e AND PTE_P \<noteq> 0"

text \<open>\<open>walk s t is\<close>: follow the indices from table \<open>t\<close> through present entries; the
  result is the last entry, if it is present too.\<close>

fun walk :: "'a vm_scheme \<Rightarrow> u64 \<Rightarrow> u64 list \<Rightarrow> u64 option" where
  "walk s t [] = None"
| "walk s t [i] = (if present (pt_entry s t i) then Some (pt_entry s t i) else None)"
| "walk s t (i # j # js) =
     (if present (pt_entry s t i) then walk s (get_address (pt_entry s t i)) (j # js) else None)"

definition vpath :: "u64 \<Rightarrow> u64 list" where
  "vpath va = [getPML4Index va, getPDPTIndex va, getPDTIndex va, getPTIndex va]"

text \<open>What the processor's translation finds for \<open>va\<close> in the address space \<open>root\<close>.\<close>

definition translate :: "'a vm_scheme \<Rightarrow> u64 \<Rightarrow> u64 \<Rightarrow> u64 option" where
  "translate s root va = walk s root (vpath va)"

subsection \<open>The table invariant\<close>

text \<open>
  A ghost map \<open>own\<close> gives every page that serves as a table the index path by which it is
  reached from a root (a root has the empty path). Several roots may share lower tables, as
  \<open>set_user_AddrSpace\<close> makes them do, but always at the same path. Free pages are aligned,
  distinct, not null, serve as no table, and hold no present entry.
\<close>

definition tables_ok :: "(u64 \<Rightarrow> u64 list option) \<Rightarrow> 'a vm_scheme \<Rightarrow> bool" where
  "tables_ok own s \<longleftrightarrow>
     (\<forall>t p. own t = Some p \<longrightarrow> aligned t \<and> t \<noteq> 0 \<and> length p \<le> 3) \<and>
     (\<forall>t p i. own t = Some p \<longrightarrow> length p < 3 \<longrightarrow> i < 512 \<longrightarrow> present (pt_entry s t i) \<longrightarrow>
        own (get_address (pt_entry s t i)) = Some (p @ [i]))"

definition free_ok :: "(u64 \<Rightarrow> u64 list option) \<Rightarrow> nat list \<Rightarrow> 'a vm_scheme \<Rightarrow> bool" where
  "free_ok own fl s \<longleftrightarrow> flist s fl \<and>
     inj_on (\<lambda>x. page_addr (pages s x)) (set fl) \<and>
     (\<forall>x \<in> set fl. aligned (page_addr (pages s x)) \<and> page_addr (pages s x) \<noteq> 0 \<and>
        own (page_addr (pages s x)) = None \<and>
        (\<forall>i < 512. \<not> present (pt_entry s (page_addr (pages s x)) i)))"

definition vm_wf :: "(u64 \<Rightarrow> u64 list option) \<Rightarrow> nat list \<Rightarrow> 'a vm_scheme \<Rightarrow> bool" where
  "vm_wf own fl s \<longleftrightarrow> tables_ok own s \<and> free_ok own fl s"

subsection \<open>Index and entry arithmetic\<close>

lemma and_1ff_less [simp, entry_simps]: "(x :: u64) AND 0x1FF < 512"
  by (rule le_less_trans [OF word_and_le1]) simp

lemma vpath_less: "i \<in> set (vpath va) \<Longrightarrow> i < 512"
  by (auto simp: vpath_def getPML4Index_def getPDPTIndex_def getPDTIndex_def getPTIndex_def)

lemma index_less [simp]:
  "getPML4Index va < 512" "getPDPTIndex va < 512" "getPDTIndex va < 512" "getPTIndex va < 512"
  by (auto intro: vpath_less simp: vpath_def)

lemma length_vpath [simp]: "length (vpath va) = 4"
  by (simp add: vpath_def)

lemma and_1: "(e :: u64) AND 1 \<noteq> 0 \<longleftrightarrow> bit e 0"
  by (simp add: and_one_eq odd_iff_mod_2_eq_one bit_0)

lemma present_or_flags [simp, entry_simps]: "present (a OR 7)"
proof -
  have "bit (7 :: u64) 0" by simp
  then show ?thesis unfolding present_def and_1 by (simp add: bit_or_iff)
qed

lemma address_or_flags [simp, entry_simps]: "aligned a \<Longrightarrow> get_address (a OR 7) = a"
  unfolding get_address_def by (rule frame_or_flags) simp_all

lemma pt_entry_update [entry_simps]:
  assumes "aligned t" "aligned t'" "i < 512" "i' < 512"
  shows "pt_entry (pt_write s t i v) t' i' =
    (if t' = t \<and> i' = i then v else pt_entry s t' i')"
  using slot_inj [OF assms(2,1,4,3)] by (auto simp: pt_entry_def pt_write_def)

lemma pt_entry_free_list [simp]: "pt_entry (s\<lparr>free_list := x\<rparr>) = pt_entry s"
  by (intro ext) (simp add: pt_entry_def)

lemma walk_free_list [simp]: "walk (s\<lparr>free_list := v\<rparr>) t is = walk s t is"
  by (induction s t "is" rule: walk.induct) simp_all

lemma pt_write_sel [simp]:
  "pages (pt_write s t i v) = pages s" "free_list (pt_write s t i v) = free_list s"
  "CR3 (pt_write s t i v) = CR3 s" "pml4 (pt_write s t i v) = pml4 s"
  "cr3 (pt_write s t i v) = cr3 s" "physfree (pt_write s t i v) = physfree s"
  by (simp_all add: pt_write_def)

lemma flist_pt_write [simp]: "flist (pt_write s t i v) fl = flist s fl"
  by (simp add: flist_def)

lemma walk_mem_cong: "mem s' = mem s \<Longrightarrow> walk s' t is = walk s t is"
  by (induction s t "is" rule: walk.induct) (simp_all add: pt_entry_def)

lemma translate_mem_cong: "mem s' = mem s \<Longrightarrow> translate s' r va = translate s r va"
  unfolding translate_def by (rule walk_mem_cong)

lemma vm_wf_cong:
  assumes "mem s' = mem s" "pages s' = pages s" "free_list s' = free_list s"
  shows "vm_wf own fl s' = vm_wf own fl s"
proof -
  have "pt_entry s' = pt_entry s" by (intro ext) (simp add: pt_entry_def assms(1))
  then show ?thesis by (simp add: vm_wf_def tables_ok_def free_ok_def flist_def assms)
qed

subsection \<open>One level of a walk that allocates\<close>

definition next_or_alloc :: "'a vm_scheme \<Rightarrow> u64 \<Rightarrow> u64 \<Rightarrow> (u64 \<times> 'a vm_scheme) option" where
  "next_or_alloc s t i = do {
     e \<leftarrow> pt_get s t i;
     if e AND PTE_P \<noteq> 0 then Some (get_address e, s) else pdpt_alloc s t i }"

lemma table_allocs_eq: "pdt_alloc = pdpt_alloc" "pt_alloc = pdpt_alloc"
  by (intro ext, simp add: pdpt_alloc_def pdt_alloc_def pt_alloc_def)+

lemma map_at_steps:
  "map_at s root va pa = do {
     (pdpt, s) \<leftarrow> next_or_alloc s root (getPML4Index va);
     (pdt, s) \<leftarrow> next_or_alloc s pdpt (getPDPTIndex va);
     (pt, s) \<leftarrow> next_or_alloc s pdt (getPDTIndex va);
     pt_set s pt (getPTIndex va) (pa OR 7) }"
  by (simp add: map_at_def next_or_alloc_def table_allocs_eq get_pml4_entry_def
      get_pdpt_entry_def get_pdt_entry_def split_beta cong: if_cong)

lemma tables_okD:
  assumes "tables_ok own s" "own t = Some p"
  shows "aligned t" "t \<noteq> 0" "length p \<le> 3"
  using assms by (auto simp: tables_ok_def)

lemma tables_ok_next:
  assumes "tables_ok own s" "own t = Some p" "length p < 3" "i < 512" "present (pt_entry s t i)"
  shows "own (get_address (pt_entry s t i)) = Some (p @ [i])"
  using assms by (auto simp: tables_ok_def)

lemma free_okD:
  assumes "free_ok own fl s" "x \<in> set fl"
  shows "aligned (page_addr (pages s x))" "page_addr (pages s x) \<noteq> 0"
    "own (page_addr (pages s x)) = None"
    "i < 512 \<Longrightarrow> \<not> present (pt_entry s (page_addr (pages s x)) i)"
  using assms by (auto simp: free_ok_def)

text \<open>Writing a slot leaves every walk alone whose path does not pass through that slot.\<close>

lemma walk_write_other:
  assumes "tables_ok own s" "own t0 = Some p0" "i0 < 512"
    and "own t = Some p" "set is \<subseteq> {..<512}" "length p + length is \<le> 4"
    and "\<not> prefix (p0 @ [i0]) (p @ is)"
  shows "walk (pt_write s t0 i0 v) t is = walk s t is"
  using assms(4-7)
proof (induction "is" arbitrary: t p)
  case (Cons i js)
  have al: "aligned t" "aligned t0" using assms(1,2) Cons.prems(1) by (auto dest: tables_okD)
  have i: "i < 512" using Cons.prems(2) by simp
  have "\<not> (t = t0 \<and> i = i0)"
    using Cons.prems(1,4) assms(2) by auto
  then have e: "pt_entry (pt_write s t0 i0 v) t i = pt_entry s t i"
    using al i assms(3) by (auto simp: pt_entry_update)
  show ?case
  proof (cases js)
    case Nil
    with e show ?thesis by simp
  next
    case js: (Cons j ks)
    show ?thesis
    proof (cases "present (pt_entry s t i)")
      case True
      have "own (get_address (pt_entry s t i)) = Some (p @ [i])"
        using tables_ok_next [OF assms(1) Cons.prems(1) _ i True] Cons.prems(3) js by simp
      from Cons.IH [OF this] Cons.prems(2-4) show ?thesis using js e True by simp
    next
      case False
      with e js show ?thesis by simp
    qed
  qed
qed simp

text \<open>Hanging a fresh, empty table into an absent slot changes no walk.\<close>

lemma walk_add_table:
  assumes "tables_ok own s" "own t0 = Some p0" "length p0 < 3" "i0 < 512"
    and "\<not> present (pt_entry s t0 i0)"
    and "aligned f" "own f = None" "\<And>i. i < 512 \<Longrightarrow> \<not> present (pt_entry s f i)"
    and "own t = Some p" "set is \<subseteq> {..<512}" "length p + length is = 4"
  shows "walk (pt_write s t0 i0 (f OR 7)) t is = walk s t is"
  using assms(9-11)
proof (induction "is" arbitrary: t p)
  case (Cons i js)
  define s' where "s' = pt_write s t0 i0 (f OR 7)"
  have al: "aligned t" "aligned t0" using assms(1,2) Cons.prems(1) by (auto dest: tables_okD)
  have i: "i < 512" using Cons.prems(2) by simp
  have e: "pt_entry s' t i = (if t = t0 \<and> i = i0 then f OR 7 else pt_entry s t i)"
    unfolding s'_def using al i assms(4) by (auto simp: pt_entry_update)
  show ?case
  proof (cases "t = t0 \<and> i = i0")
    case True
    with Cons.prems(1,3) assms(2,3) obtain j ks where js: "js = j # ks" "j < 512"
      using Cons.prems(2) by (cases js) auto
    have "f \<noteq> t0" using assms(2,7) by auto
    then have "\<not> present (pt_entry s' f j)"
      unfolding s'_def using al(2) assms(4,6,8) js(2) by (simp add: pt_entry_update)
    then have "walk s' f js = None" using js(1) by (cases ks) simp_all
    then show ?thesis unfolding s'_def [symmetric] using e True assms(5,6) js(1) by simp
  next
    case False
    then have e: "pt_entry s' t i = pt_entry s t i" using e by auto
    show ?thesis
    proof (cases "js = [] \<or> \<not> present (pt_entry s t i)")
      case True
      with e show ?thesis unfolding s'_def [symmetric] by (cases js) simp_all
    next
      case False
      then obtain j ks where js: "js = j # ks" and pr: "present (pt_entry s t i)"
        by (cases js) auto
      have "own (get_address (pt_entry s t i)) = Some (p @ [i])"
        using tables_ok_next [OF assms(1) Cons.prems(1) _ i pr] Cons.prems(3) js by simp
      from Cons.IH [OF this] Cons.prems(2,3) show ?thesis using js e pr by (simp add: s'_def)
    qed
  qed
qed simp

lemma vm_wf_write:
  assumes "vm_wf own fl s" "own t = Some p" "i < 512"
    and "length p < 3 \<Longrightarrow> present v \<Longrightarrow> own (get_address v) = Some (p @ [i])"
  shows "vm_wf own fl (pt_write s t i v)"
proof -
  have ok: "tables_ok own s" "free_ok own fl s" using assms(1) by (auto simp: vm_wf_def)
  have e: "pt_entry (pt_write s t i v) u j = (if u = t \<and> j = i then v else pt_entry s u j)"
    if "aligned u" "j < 512" for u j
    using that assms(3) tables_okD(1) [OF ok(1) assms(2)] by (simp add: pt_entry_update)
  have "own (get_address (pt_entry (pt_write s t i v) u j)) = Some (q @ [j])"
    if u: "own u = Some q" "length q < 3" "j < 512" "present (pt_entry (pt_write s t i v) u j)" for u q j
    using u assms(2,4) e [OF tables_okD(1) [OF ok(1) u(1)] u(3)] tables_ok_next [OF ok(1) u(1-3)]
    by (auto split: if_splits)
  then have "tables_ok own (pt_write s t i v)" using tables_okD [OF ok(1)] by (simp add: tables_ok_def)
  moreover have "free_ok own fl (pt_write s t i v)"
    using ok(2) e assms(2) by (auto simp: free_ok_def)
  ultimately show ?thesis by (simp add: vm_wf_def)
qed

lemma vm_wf_write_leaf:
  assumes "vm_wf own fl s" "own t = Some p" "length p = 3" "i < 512"
  shows "vm_wf own fl (pt_write s t i v)"
  by (rule vm_wf_write [OF assms(1,2,4)]) (simp add: assms(3))

text \<open>Taking the head page off the free list to serve as a table.\<close>

lemma free_ok_take:
  assumes "free_ok own (x # fl) s" "f = page_addr (pages s x)"
    and "pages s' = pages s" "free_list s' = nxt (pages s x)"
    and "\<And>u i. aligned u \<Longrightarrow> own u = None \<Longrightarrow> u \<noteq> f \<Longrightarrow> i < 512 \<Longrightarrow> pt_entry s' u i = pt_entry s u i"
  shows "free_ok (own(f \<mapsto> p)) fl s'"
  unfolding free_ok_def
proof (intro conjI ballI)
  have fl: "flist s (x # fl)" using assms(1) by (simp add: free_ok_def)
  then show "flist s' fl" using assms(3,4) by (simp add: flist_def)
  have inj: "inj_on (\<lambda>x. page_addr (pages s x)) (set (x # fl))"
    using assms(1) unfolding free_ok_def by blast
  then show "inj_on (\<lambda>x. page_addr (pages s' x)) (set fl)" by (simp add: assms(3))
  fix y assume y: "y \<in> set fl"
  note fy = free_okD [OF assms(1), of y, simplified, OF disjI2, OF y]
  have "y \<noteq> x" using y pa.rep_distinct [OF fl] by auto
  then have "page_addr (pages s y) \<noteq> f"
    using inj_onD [OF inj, of y x] y unfolding assms(2) by (metis list.set_intros)
  then show "aligned (page_addr (pages s' y))" "page_addr (pages s' y) \<noteq> 0"
    "(own(f \<mapsto> p)) (page_addr (pages s' y)) = None"
    "\<forall>i < 512. \<not> present (pt_entry s' (page_addr (pages s' y)) i)"
    using fy assms(5) [OF fy(1,3)] by (simp_all add: assms(3))
qed

text \<open>The page may be given any place in the tables, since none of its words is a present entry.\<close>

lemma vm_wf_claim:
  assumes "vm_wf own (x # fl) s" "length q \<le> 3" "f = page_addr (pages s x)"
  shows "vm_wf (own(f \<mapsto> q)) fl (s\<lparr>free_list := nxt (pages s x)\<rparr>)"
proof -
  have ok: "tables_ok own s" "free_ok own (x # fl) s" using assms(1) by (auto simp: vm_wf_def)
  note fx = free_okD [OF ok(2), of x, simplified, folded assms(3)]
  have "tables_ok (own(f \<mapsto> q)) (s\<lparr>free_list := nxt (pages s x)\<rparr>)"
    using fx assms(2) tables_okD [OF ok(1)] tables_ok_next [OF ok(1)] by (auto simp: tables_ok_def)
  moreover have "free_ok (own(f \<mapsto> q)) fl (s\<lparr>free_list := nxt (pages s x)\<rparr>)"
    by (rule free_ok_take [OF ok(2) assms(3)]) auto
  ultimately show ?thesis by (simp add: vm_wf_def)
qed

lemma vm_wf_add_table:
  assumes "vm_wf own (x # fl) s" "own t = Some p" "length p < 3" "i < 512"
    and "f = page_addr (pages s x)" "s' = pt_write (s\<lparr>free_list := nxt (pages s x)\<rparr>) t i (f OR 7)"
  shows "vm_wf (own(f \<mapsto> p @ [i])) fl s'"
proof -
  have f: "aligned f" "own f = None" using assms(1,5) free_okD [of own "x # fl" s x] by (auto simp: vm_wf_def)
  have "vm_wf (own(f \<mapsto> p @ [i])) fl (s\<lparr>free_list := nxt (pages s x)\<rparr>)"
    by (rule vm_wf_claim [OF assms(1) _ assms(5)]) (use assms(3) in simp)
  then show ?thesis
    unfolding assms(6) by (rule vm_wf_write) (use assms(2,4) f in auto)
qed

text \<open>
  \<open>vm_grows own s own' s'\<close>: between the two states tables were only added. No translation
  through the old tables changed, no present entry was overwritten, and no field of the state
  other than memory and the free list changed.
\<close>

definition same_but_mem :: "'a vm_scheme \<Rightarrow> 'a vm_scheme \<Rightarrow> bool" where
  "same_but_mem s s' \<longleftrightarrow> pages s' = pages s \<and> noofpages s' = noofpages s \<and>
     physfree s' = physfree s \<and> CR3 s' = CR3 s \<and> pml4 s' = pml4 s \<and> cr3 s' = cr3 s \<and>
     vm.more s' = vm.more s"

definition vm_grows ::
    "(u64 \<Rightarrow> u64 list option) \<Rightarrow> 'a vm_scheme \<Rightarrow> (u64 \<Rightarrow> u64 list option) \<Rightarrow> 'a vm_scheme \<Rightarrow> bool"
  where
  "vm_grows own s own' s' \<longleftrightarrow> own \<subseteq>\<^sub>m own' \<and> same_but_mem s s' \<and>
     (\<forall>r q is. own r = Some q \<longrightarrow> set is \<subseteq> {..<512} \<longrightarrow> length q + length is = 4 \<longrightarrow>
        walk s' r is = walk s r is) \<and>
     (\<forall>u q j. own u = Some q \<longrightarrow> j < 512 \<longrightarrow> present (pt_entry s u j) \<or> length q = 3 \<longrightarrow>
        pt_entry s' u j = pt_entry s u j)"

lemma map_le_Some: "m \<subseteq>\<^sub>m m' \<Longrightarrow> m a = Some b \<Longrightarrow> m' a = Some b"
  by (metis domI map_le_def)

lemma vm_grows_refl [simp]: "vm_grows own s own s"
  by (simp add: vm_grows_def same_but_mem_def)

lemma vm_grows_trans:
  assumes "vm_grows own s own' s'" "vm_grows own' s' own'' s''"
  shows "vm_grows own s own'' s''"
proof -
  have le: "own r = Some q \<Longrightarrow> own' r = Some q" for r q
    using assms(1) by (auto simp: vm_grows_def dest: map_le_Some)
  show ?thesis unfolding vm_grows_def
  proof (intro conjI allI impI)
    show "own \<subseteq>\<^sub>m own''" using assms by (auto simp: vm_grows_def dest: map_le_trans)
    show "same_but_mem s s''" using assms by (auto simp: vm_grows_def same_but_mem_def)
  next
    fix r q and "is" :: "u64 list"
    assume "own r = Some q" "set is \<subseteq> {..<512}" "length q + length is = 4"
    then show "walk s'' r is = walk s r is"
      using le assms unfolding vm_grows_def by metis
  next
    fix u q and j :: u64
    assume "own u = Some q" "j < 512" "present (pt_entry s u j) \<or> length q = 3"
    then show "pt_entry s'' u j = pt_entry s u j"
      using le assms unfolding vm_grows_def by metis
  qed
qed

lemma vm_growsD:
  assumes "vm_grows own s own' s'"
  shows "own r = Some q \<Longrightarrow> own' r = Some q"
    and "own r = Some [] \<Longrightarrow> translate s' r va = translate s r va"
    and "own r = Some q \<Longrightarrow> j < 512 \<Longrightarrow> present (pt_entry s r j) \<Longrightarrow>
      pt_entry s' r j = pt_entry s r j"
    and "own r = Some q \<Longrightarrow> j < 512 \<Longrightarrow> length q = 3 \<Longrightarrow> pt_entry s' r j = pt_entry s r j"
proof -
  show "own r = Some [] \<Longrightarrow> translate s' r va = translate s r va"
    using assms vpath_less unfolding vm_grows_def translate_def
    by (metis add_cancel_left_left lessThan_iff length_vpath list.size(3) subsetI)
qed (use assms in \<open>auto simp: vm_grows_def dest: map_le_Some\<close>)

text \<open>Allocating a table into an absent slot.\<close>

lemma pdpt_alloc_spec:
  assumes "vm_wf own (x # fl) s" "own t = Some p" "length p < 3" "i < 512"
    and "\<not> present (pt_entry s t i)" "f = page_addr (pages s x)"
  obtains s' where "pdpt_alloc s t i = Some (f, s')" "vm_wf (own(f \<mapsto> p @ [i])) fl s'"
    "vm_grows own s (own(f \<mapsto> p @ [i])) s'" "pt_entry s' t i = f OR 7" "aligned f" "f \<noteq> 0"
    "\<And>j. j < 512 \<Longrightarrow> \<not> present (pt_entry s' f j)"
proof -
  have ok: "tables_ok own s" "free_ok own (x # fl) s" using assms(1) by (auto simp: vm_wf_def)
  note t = tables_okD [OF ok(1) assms(2)]
  define s1 where "s1 = s\<lparr>free_list := nxt (pages s x)\<rparr>"
  define s' where "s' = pt_write s1 t i (f OR 7)"
  note fx = free_okD [OF ok(2), of x, simplified, folded assms(6)]
  have "flist s (x # fl)" using ok(2) by (simp add: free_ok_def)
  then have "page_alloc_addr s = Some (f, s1)"
    by (auto simp: page_alloc_addr_def page_alloc_def flist_def assms(6) s1_def)
  then have eq: "pdpt_alloc s t i = Some (f, s')"
    using t(2) by (simp add: pdpt_alloc_def pt_set_def s'_def)
  have wf: "vm_wf (own(f \<mapsto> p @ [i])) fl s'"
    using assms by (intro vm_wf_add_table) (simp_all add: s'_def s1_def)
  have e: "pt_entry s' u j = (if u = t \<and> j = i then f OR 7 else pt_entry s u j)"
    if "aligned u" "j < 512" for u j
    using that assms(4) t(1) unfolding s'_def s1_def by (auto simp: pt_entry_update)
  have "walk s' r is = walk s r is"
    if "own r = Some q" "set is \<subseteq> {..<512}" "length q + length is = 4" for r q "is"
  proof -
    have "walk s' r is = walk s1 r is"
      unfolding s'_def using ok(1) assms(2-5) fx that
      by (intro walk_add_table [where own = own and p = q]) (auto simp: s1_def tables_ok_def)
    then show ?thesis by (simp add: s1_def)
  qed
  moreover have "pt_entry s' u j = pt_entry s u j"
    if "own u = Some q" "j < 512" "present (pt_entry s u j) \<or> length q = 3" for u q j
    using e [OF tables_okD(1) [OF ok(1) that(1)] that(2)] that(1,3) assms(2,3,5) by auto
  ultimately have "vm_grows own s (own(f \<mapsto> p @ [i])) s'"
    using fx(3) unfolding vm_grows_def
    by (auto simp: map_le_def same_but_mem_def s'_def s1_def pt_write_def)
  moreover have "\<not> present (pt_entry s' f j)" if "j < 512" for j
    using e [OF fx(1) that] fx(3,4) that assms(2) by auto
  ultimately show thesis using that eq wf e [OF t(1) assms(4)] fx(1,2) by simp
qed

text \<open>One level of an allocating walk succeeds while a page is free and ends in a table at the
  extended path.\<close>

lemma next_or_alloc_spec:
  assumes "vm_wf own fl s" "own t = Some p" "length p < 3" "i < 512" "fl \<noteq> []"
  obtains t' s' own' fl' where "next_or_alloc s t i = Some (t', s')" "vm_wf own' fl' s'"
    "vm_grows own s own' s'" "own' t' = Some (p @ [i])" "length fl \<le> Suc (length fl')"
    "present (pt_entry s' t i)" "get_address (pt_entry s' t i) = t'"
proof -
  have ok: "tables_ok own s" using assms(1) by (auto simp: vm_wf_def)
  note nz = tables_okD(2) [OF ok assms(2)]
  show thesis
  proof (cases "present (pt_entry s t i)")
    case True
    then have "next_or_alloc s t i = Some (get_address (pt_entry s t i), s)"
      using nz by (simp add: next_or_alloc_def pt_get_def present_def)
    moreover have "own (get_address (pt_entry s t i)) = Some (p @ [i])"
      by (rule tables_ok_next [OF ok assms(2-4) True])
    ultimately show thesis using True assms(1) that [of _ s own fl] by simp
  next
    case False
    obtain x xs where fl: "fl = x # xs" using assms(5) by (cases fl) auto
    obtain s' where "pdpt_alloc s t i = Some (page_addr (pages s x), s')"
      "vm_wf (own(page_addr (pages s x) \<mapsto> p @ [i])) xs s'"
      "vm_grows own s (own(page_addr (pages s x) \<mapsto> p @ [i])) s'"
      "pt_entry s' t i = page_addr (pages s x) OR 7" "aligned (page_addr (pages s x))"
      by (rule pdpt_alloc_spec [OF assms(1)[unfolded fl] assms(2-4) False refl])
    moreover have "next_or_alloc s t i = pdpt_alloc s t i"
      using False nz by (simp add: next_or_alloc_def pt_get_def present_def)
    ultimately show thesis using that fl by simp
  qed
qed

lemma walk_snoc:
  "is \<noteq> [] \<Longrightarrow> walk s t (is @ [i]) = Option.bind (walk s t is) (\<lambda>e. walk s (get_address e) [i])"
  by (induction s t "is" rule: walk.induct) simp_all

lemma walk_Cons:
  "js \<noteq> [] \<Longrightarrow> present (pt_entry s t i) \<Longrightarrow> walk s t (i # js) = walk s (get_address (pt_entry s t i)) js"
  by (cases js) simp_all

text \<open>States that agree on the tables along a path walk it alike.\<close>

lemma walk_same_tables:
  assumes "tables_ok own s" "\<And>u q i. own u = Some q \<Longrightarrow> Q q \<Longrightarrow> i < 512 \<Longrightarrow> pt_entry s' u i = pt_entry s u i"
    and "own t = Some p" "set is \<subseteq> {..<512}" "length p + length is \<le> 4" "\<forall>n < length is. Q (p @ take n is)"
  shows "walk s' t is = walk s t is"
  using assms(3-6)
proof (induction "is" arbitrary: t p)
  case (Cons i js)
  have e: "pt_entry s' t i = pt_entry s t i" using assms(2) [OF Cons.prems(1)] Cons.prems(2,4) by fastforce
  show ?case
  proof (cases "js = [] \<or> \<not> present (pt_entry s t i)")
    case True
    then show ?thesis using e by (cases js) simp_all
  next
    case False
    then have o: "own (get_address (pt_entry s t i)) = Some (p @ [i])"
      using tables_ok_next [OF assms(1) Cons.prems(1)] Cons.prems(2,3) by (cases js) auto
    have "Q ((p @ [i]) @ take n js)" if "n < length js" for n using Cons.prems(4) [rule_format, of "Suc n"] that by simp
    with Cons.IH [OF o] Cons.prems(2,3) False show ?thesis using e by (simp add: walk_Cons)
  qed
qed simp

text \<open>The upper three levels: down to the page table for \<open>va\<close>.\<close>

definition leaf_table :: "'a vm_scheme \<Rightarrow> u64 \<Rightarrow> u64 \<Rightarrow> (u64 \<times> 'a vm_scheme) option" where
  "leaf_table s root va = do {
     (pdpt, s) \<leftarrow> next_or_alloc s root (getPML4Index va);
     (pdt, s) \<leftarrow> next_or_alloc s pdpt (getPDPTIndex va);
     next_or_alloc s pdt (getPDTIndex va) }"

definition upath :: "u64 \<Rightarrow> u64 list" where
  "upath va = [getPML4Index va, getPDPTIndex va, getPDTIndex va]"

lemma vpath_upath: "vpath va = upath va @ [getPTIndex va]"
  by (simp add: vpath_def upath_def)

lemma upath_ne [simp]: "upath va \<noteq> []"
  by (simp add: upath_def)

lemma map_at_leaf:
  "map_at s root va pa = do { (pt, s) \<leftarrow> leaf_table s root va; pt_set s pt (getPTIndex va) (pa OR 7) }"
  by (simp add: map_at_steps leaf_table_def case_prod_unfold)

lemma leaf_table_spec:
  assumes "vm_wf own fl s" "own root = Some []" "3 \<le> length fl"
  obtains t1 s3 own3 fl3 e where "leaf_table s root va = Some (t1, s3)" "vm_wf own3 fl3 s3"
    "vm_grows own s own3 s3" "own3 t1 = Some (upath va)" "length fl \<le> 3 + length fl3"
    "walk s3 root (upath va) = Some e" "get_address e = t1"
proof -
  let ?i4 = "getPML4Index va" and ?i3 = "getPDPTIndex va" and ?i2 = "getPDTIndex va"
  have ne: "fl \<noteq> []" using assms(3) by auto
  obtain t3 s1 own1 fl1 where
    1: "next_or_alloc s root ?i4 = Some (t3, s1)" "vm_wf own1 fl1 s1" "vm_grows own s own1 s1"
      "own1 t3 = Some [?i4]" "length fl \<le> Suc (length fl1)" "present (pt_entry s1 root ?i4)"
      "get_address (pt_entry s1 root ?i4) = t3"
    by (rule next_or_alloc_spec [OF assms(1,2) _ index_less(1) [of va] ne]) auto
  then have ne1: "fl1 \<noteq> []" using assms(3) by auto
  obtain t2 s2 own2 fl2 where
    2: "next_or_alloc s1 t3 ?i3 = Some (t2, s2)" "vm_wf own2 fl2 s2" "vm_grows own1 s1 own2 s2"
      "own2 t2 = Some [?i4, ?i3]" "length fl1 \<le> Suc (length fl2)" "present (pt_entry s2 t3 ?i3)"
      "get_address (pt_entry s2 t3 ?i3) = t2"
    by (rule next_or_alloc_spec [OF 1(2,4) _ index_less(2) [of va] ne1]) auto
  then have ne2: "fl2 \<noteq> []" using assms(3) 1(5) by auto
  obtain t1 s3 own3 fl3 where
    3: "next_or_alloc s2 t2 ?i2 = Some (t1, s3)" "vm_wf own3 fl3 s3" "vm_grows own2 s2 own3 s3"
      "own3 t1 = Some [?i4, ?i3, ?i2]" "length fl2 \<le> Suc (length fl3)"
      "present (pt_entry s3 t2 ?i2)" "get_address (pt_entry s3 t2 ?i2) = t1"
    by (rule next_or_alloc_spec [OF 2(2,4) _ index_less(3) [of va] ne2]) auto
  have g23: "vm_grows own1 s1 own3 s3" by (rule vm_grows_trans [OF 2(3) 3(3)])
  have "pt_entry s3 root ?i4 = pt_entry s1 root ?i4" "pt_entry s3 t3 ?i3 = pt_entry s2 t3 ?i3"
    using vm_growsD(3) [OF g23 _ _ 1(6)] vm_growsD(3) [OF 3(3) _ _ 2(6)]
      vm_growsD(1) [OF 1(3) assms(2)] vm_growsD(1) [OF 2(3) 1(4)]
    by simp_all
  then have "walk s3 root (upath va) = Some (pt_entry s3 t2 ?i2)"
    using 1(6,7) 2(6,7) 3(6) by (simp add: upath_def)
  moreover have "leaf_table s root va = Some (t1, s3)"
    by (simp add: leaf_table_def 1(1) 2(1) 3(1))
  moreover have "length fl \<le> 3 + length fl3" using 1(5) 2(5) 3(5) by simp
  ultimately show thesis
    using that [OF _ 3(2) vm_grows_trans [OF 1(3) g23]] 3(4,7) by (simp add: upath_def)
qed

text \<open>Writing the leaf entry of \<open>va\<close> once its page table is there.\<close>

lemma leaf_write_spec:
  assumes "vm_wf own fl s" "own root = Some []" "own t = Some (upath va)"
    and "walk s root (upath va) = Some e" "get_address e = t"
    and "s' = pt_write s t (getPTIndex va) (pa OR 7)"
  shows "vm_wf own fl s'" "translate s' root va = Some (pa OR 7)"
    and "own r = Some [] \<Longrightarrow> vpath va' \<noteq> vpath va \<Longrightarrow> translate s' r va' = translate s r va'"
    and "own r = Some [] \<Longrightarrow> walk s' r (upath va') = walk s r (upath va')"
    and "own u = Some q \<Longrightarrow> length q < 3 \<Longrightarrow> j < 512 \<Longrightarrow> pt_entry s' u j = pt_entry s u j"
proof -
  have ok: "tables_ok own s" using assms(1) by (simp add: vm_wf_def)
  note t = tables_okD [OF ok assms(3)]
  show "vm_wf own fl s'"
    unfolding assms(6) by (rule vm_wf_write_leaf [OF assms(1,3)]) (simp_all add: upath_def)
  show up: "walk s' r (upath va') = walk s r (upath va')" if "own r = Some []" for r va'
    unfolding assms(6)
    by (rule walk_write_other [OF ok assms(3) index_less(4) that]) (auto simp: upath_def)
  have "pt_entry s' t (getPTIndex va) = pa OR 7"
    using t(1) by (simp add: assms(6) pt_entry_update)
  then show "translate s' root va = Some (pa OR 7)"
    using up [OF assms(2)] assms(4,5) by (simp add: translate_def vpath_upath walk_snoc)
  show "own r = Some [] \<Longrightarrow> vpath va' \<noteq> vpath va \<Longrightarrow> translate s' r va' = translate s r va'"
    unfolding translate_def assms(6)
    by (rule walk_write_other [OF ok assms(3) index_less(4)]) (auto simp: vpath_def upath_def)
  show "pt_entry s' u j = pt_entry s u j" if "own u = Some q" "length q < 3" "j < 512"
  proof -
    have "u \<noteq> t" using assms(3) that(1,2) by (auto simp: upath_def)
    then show ?thesis
      using t(1) tables_okD(1) [OF ok that(1)] that(3) by (simp add: assms(6) pt_entry_update)
  qed
qed

text \<open>The mapping operation: it succeeds when three pages are free, the address translates to
  the new entry afterwards, no other page's translation changes, in any address space, and
  present entries of upper tables stay.\<close>

lemma map_at_spec:
  assumes "vm_wf own fl s" "own root = Some []" "3 \<le> length fl"
  obtains s' own' fl' where "map_at s root va pa = Some s'" "vm_wf own' fl' s'"
    "own \<subseteq>\<^sub>m own'" "same_but_mem s s'" "length fl \<le> 3 + length fl'"
    "translate s' root va = Some (pa OR 7)"
    "\<And>r va'. own r = Some [] \<Longrightarrow> vpath va' \<noteq> vpath va \<Longrightarrow> translate s' r va' = translate s r va'"
    "\<And>u q j. own u = Some q \<Longrightarrow> length q < 3 \<Longrightarrow> j < 512 \<Longrightarrow> present (pt_entry s u j) \<Longrightarrow>
      pt_entry s' u j = pt_entry s u j"
proof -
  obtain t1 s3 own3 fl3 e where
    3: "leaf_table s root va = Some (t1, s3)" "vm_wf own3 fl3 s3" "vm_grows own s own3 s3"
      "own3 t1 = Some (upath va)" "length fl \<le> 3 + length fl3"
      "walk s3 root (upath va) = Some e" "get_address e = t1"
    by (rule leaf_table_spec [OF assms])
  define s' where "s' = pt_write s3 t1 (getPTIndex va) (pa OR 7)"
  note own3 = vm_growsD(1) [OF 3(3)]
  note w = leaf_write_spec [OF 3(2) own3 [OF assms(2)] 3(4,6,7) s'_def]
  have "t1 \<noteq> 0" using 3(2,4) tables_okD(2) by (auto simp: vm_wf_def)
  then have "map_at s root va pa = Some s'"
    by (simp add: map_at_leaf 3(1) pt_set_def s'_def)
  moreover have "same_but_mem s s'"
    using 3(3) by (auto simp: vm_grows_def same_but_mem_def s'_def pt_write_def)
  moreover have "translate s' r va' = translate s r va'"
    if "own r = Some []" "vpath va' \<noteq> vpath va" for r va'
    using w(3) [OF own3 that(2)] vm_growsD(2) [OF 3(3)] that(1) by simp
  moreover have "pt_entry s' u j = pt_entry s u j"
    if "own u = Some q" "length q < 3" "j < 512" "present (pt_entry s u j)" for u q j
    using w(5) [OF own3 that(2,3)] vm_growsD(3) [OF 3(3) that(1,3,4)] that(1) by simp
  ultimately show thesis using 3(3,5) w(1,2) that [of s' own3 fl3] by (auto simp: vm_grows_def)
qed

text \<open>It does not write to a page at the lowest level other than the page table of \<open>va\<close>.\<close>

lemma map_at_keeps_leaf:
  assumes "vm_wf own fl s" "own root = Some []" "3 \<le> length fl" "map_at s root va pa = Some s'"
    and "own u = Some q" "length q = 3" "q \<noteq> upath va" "j < 512"
  shows "pt_entry s' u j = pt_entry s u j"
proof -
  obtain t1 s3 own3 fl3 e where
    3: "leaf_table s root va = Some (t1, s3)" "vm_wf own3 fl3 s3" "vm_grows own s own3 s3" "own3 t1 = Some (upath va)"
    by (rule leaf_table_spec [OF assms(1-3)])
  have u: "own3 u = Some q" by (rule vm_growsD(1) [OF 3(3) assms(5)])
  have al: "aligned u" "aligned t1" using 3(2,4) u by (auto simp: vm_wf_def dest: tables_okD)
  have "s' = pt_write s3 t1 (getPTIndex va) (pa OR 7)"
    using assms(4) by (auto simp: map_at_leaf 3(1) pt_set_def split: if_splits)
  moreover have "u \<noteq> t1" using 3(4) u assms(7) by auto
  ultimately have "pt_entry s' u j = pt_entry s3 u j" using al assms(8) by (simp add: pt_entry_update)
  then show ?thesis using vm_growsD(4) [OF 3(3) assms(5,8,6)] by simp
qed

text \<open>Two addresses have the same index path exactly when bits 12 to 47 agree.\<close>

lemma index_take_bit:
  "getPML4Index a = take_bit 9 (drop_bit 39 a)" "getPDPTIndex a = take_bit 9 (drop_bit 30 a)"
  "getPDTIndex a = take_bit 9 (drop_bit 21 a)" "getPTIndex a = take_bit 9 (drop_bit 12 a)"
proof -
  have "(0x1FF :: u64) = mask 9" by (simp add: mask_eq_exp_minus_1)
  then show "getPML4Index a = take_bit 9 (drop_bit 39 a)"
    "getPDPTIndex a = take_bit 9 (drop_bit 30 a)" "getPDTIndex a = take_bit 9 (drop_bit 21 a)"
    "getPTIndex a = take_bit 9 (drop_bit 12 a)"
    by (simp_all add: getPML4Index_def getPDPTIndex_def getPDTIndex_def getPTIndex_def take_bit_eq_mask)
qed

lemma index_eq_bits:
  "take_bit 9 (drop_bit k a) = take_bit 9 (drop_bit k (b :: u64)) \<longleftrightarrow>
    (\<forall>n. k \<le> n \<longrightarrow> n < k + 9 \<longrightarrow> bit a n = bit b n)"
  (is "?l = ?r")
proof
  assume e: ?l
  show ?r
  proof (intro allI impI)
    fix n assume n: "k \<le> n" "n < k + 9"
    have "bit (take_bit 9 (drop_bit k a)) (n - k) = bit (take_bit 9 (drop_bit k b)) (n - k)"
      using e by simp
    with n show "bit a n = bit b n" by (auto simp: bit_take_bit_iff bit_drop_bit_eq)
  qed
next
  assume ?r
  then show ?l by (intro bit_eqI) (auto simp: bit_take_bit_iff bit_drop_bit_eq)
qed

lemma bit_range_split:
  fixes P :: "nat \<Rightarrow> bool"
  assumes "\<forall>n. 39 \<le> n \<longrightarrow> n < 39 + 9 \<longrightarrow> P n" "\<forall>n. 30 \<le> n \<longrightarrow> n < 30 + 9 \<longrightarrow> P n"
    "\<forall>n. 21 \<le> n \<longrightarrow> n < 21 + 9 \<longrightarrow> P n" "\<forall>n. 12 \<le> n \<longrightarrow> n < 12 + 9 \<longrightarrow> P n"
    and n: "12 \<le> n" "n < 48"
  shows "P n"
proof -
  consider "n < 21" | "21 \<le> n" "n < 30" | "30 \<le> n" "n < 39" | "39 \<le> n" by linarith
  then show ?thesis
    using assms(1) [rule_format, of n] assms(2) [rule_format, of n] assms(3) [rule_format, of n]
      assms(4) [rule_format, of n] n
    by cases simp_all
qed

lemma vpath_eq_iff:
  "vpath a = vpath b \<longleftrightarrow> (\<forall>n. 12 \<le> n \<longrightarrow> n < 48 \<longrightarrow> bit a n = bit b n)"
  (is "_ \<longleftrightarrow> ?r")
proof
  assume "vpath a = vpath b"
  then have "take_bit 9 (drop_bit 39 a) = take_bit 9 (drop_bit 39 b)"
    "take_bit 9 (drop_bit 30 a) = take_bit 9 (drop_bit 30 b)"
    "take_bit 9 (drop_bit 21 a) = take_bit 9 (drop_bit 21 b)"
    "take_bit 9 (drop_bit 12 a) = take_bit 9 (drop_bit 12 b)"
    by (simp_all only: vpath_def index_take_bit list.inject)
  then show ?r unfolding index_eq_bits
    by (intro allI impI, rule bit_range_split [where P = "\<lambda>n. bit a n = bit b n"])
next
  assume ?r
  then have "take_bit 9 (drop_bit 39 a) = take_bit 9 (drop_bit 39 b)"
    "take_bit 9 (drop_bit 30 a) = take_bit 9 (drop_bit 30 b)"
    "take_bit 9 (drop_bit 21 a) = take_bit 9 (drop_bit 21 b)"
    "take_bit 9 (drop_bit 12 a) = take_bit 9 (drop_bit 12 b)"
    unfolding index_eq_bits by simp_all
  then show "vpath a = vpath b" unfolding vpath_def index_take_bit by (simp only:)
qed

lemma vpath_low_eq:
  assumes "vpath a = vpath b" "unat a < 2 ^ 48" "unat b < 2 ^ 48"
  shows "unat a div 4096 = unat b div 4096"
proof -
  have t: "take_bit 48 a = a" "take_bit 48 b = b"
    using assms(2,3) by (simp_all add: take_bit_eq_mod word_unat_eq_iff unat_mod)
  have "drop_bit 12 a = drop_bit 12 b"
  proof (rule bit_eqI)
    fix n
    have "bit a (12 + n) = bit b (12 + n)"
      using assms(1) t unfolding vpath_eq_iff by (metis bit_take_bit_iff le_add1)
    then show "bit (drop_bit 12 a) n = bit (drop_bit 12 b) n" by (simp add: bit_drop_bit_eq)
  qed
  then have "unat (drop_bit 12 a) = unat (drop_bit 12 b)" by simp
  then show ?thesis by (simp add: drop_bit_eq_div unat_div)
qed

subsection \<open>The code's own lookup\<close>

lemma phyAddr_translate:
  assumes "tables_ok own s" "own (CR3 s) = Some []" "translate s (CR3 s) va = Some e"
  shows "phyAddr s va = Some e"
proof -
  let ?e4 = "pt_entry s (CR3 s) (getPML4Index va)"
  let ?e3 = "pt_entry s (get_address ?e4) (getPDPTIndex va)"
  let ?e2 = "pt_entry s (get_address ?e3) (getPDTIndex va)"
  have pr: "present ?e4" "present ?e3" "present ?e2"
    and e: "e = pt_entry s (get_address ?e2) (getPTIndex va)"
    using assms(3) by (auto simp: translate_def vpath_def split: if_splits)
  have own4: "own (get_address ?e4) = Some [getPML4Index va]"
    using tables_ok_next [OF assms(1,2) _ index_less(1) pr(1)] by simp
  have own3: "own (get_address ?e3) = Some [getPML4Index va, getPDPTIndex va]"
    using tables_ok_next [OF assms(1) own4 _ index_less(2) pr(2)] by simp
  have own2: "own (get_address ?e2) = Some [getPML4Index va, getPDPTIndex va, getPDTIndex va]"
    using tables_ok_next [OF assms(1) own3 _ index_less(3) pr(3)] by simp
  note nz = tables_okD(2) [OF assms(1)]
  show ?thesis
    using pr e nz [OF assms(2)] nz [OF own4] nz [OF own3] nz [OF own2]
    by (simp add: phyAddr_def get_pml4_entry_def get_pdpt_entry_def get_pdt_entry_def
        get_pt_entry_def pt_get_def get_CR3_def present_def)
qed

text \<open>C7. Mapping a page in the current address space succeeds when three pages are free, and
  the kernel's lookup of that address (and the processor's translation) then give the
  physical address with the present, writable and user bits.\<close>

theorem map_process_roundtrip:
  assumes "vm_wf own fl s" "own (CR3 s) = Some []" "3 \<le> length fl"
  shows "\<exists>s'. map_process s va pa = Some s' \<and>
    phyAddr s' va = Some (pa OR (PTE_P OR PTE_W OR PTE_U)) \<and>
    translate s' (CR3 s') va = phyAddr s' va"
proof -
  obtain s' own' fl' where
    m: "map_at s (CR3 s) va pa = Some s'" "vm_wf own' fl' s'" "own \<subseteq>\<^sub>m own'" "same_but_mem s s'"
      "translate s' (CR3 s) va = Some (pa OR 7)"
    by (rule map_at_spec [OF assms])
  have c: "CR3 s' = CR3 s" using m(4) by (simp add: same_but_mem_def)
  moreover have "phyAddr s' va = Some (pa OR 7)"
    using m assms(2) c by (intro phyAddr_translate [of own']) (auto simp: vm_wf_def dest: map_le_Some)
  ultimately show ?thesis using m(1,5) by (auto simp: map_process_def get_CR3_def)
qed

text \<open>C17. Mapping one page leaves the translation of every address on another page (one that
  differs in bits 12 to 47) unchanged in every address space, keeps the table invariant, and
  uses at most three free pages.\<close>

theorem map_process_frame:
  assumes "vm_wf own fl s" "own (CR3 s) = Some []" "3 \<le> length fl"
    and "map_process s va pa = Some s'"
  shows "(\<forall>r va'. own r = Some [] \<longrightarrow> (\<exists>n. 12 \<le> n \<and> n < 48 \<and> bit va n \<noteq> bit va' n) \<longrightarrow>
      translate s' r va' = translate s r va') \<and>
    (\<exists>own' fl'. vm_wf own' fl' s' \<and> own \<subseteq>\<^sub>m own' \<and> length fl \<le> 3 + length fl')"
proof -
  obtain s1 own' fl' where
    m: "map_at s (CR3 s) va pa = Some s1" "vm_wf own' fl' s1" "own \<subseteq>\<^sub>m own'"
      "length fl \<le> 3 + length fl'"
      "\<And>r va'. own r = Some [] \<Longrightarrow> vpath va' \<noteq> vpath va \<Longrightarrow> translate s1 r va' = translate s r va'"
    by (rule map_at_spec [OF assms(1-3), of va pa]) blast
  have "s1 = s'" using m(1) assms(4) by (simp add: map_process_def get_CR3_def)
  with m show ?thesis by (metis vpath_eq_iff)
qed

subsection \<open>Establishing the invariant\<close>

lemma unat_page_number: "i < 2 ^ 52 \<Longrightarrow> unat (of_nat i * 4096 :: u64) = i * 4096"
  by (simp add: unat_word_ariths unsigned_of_nat take_bit_nat_eq_self)

lemma page_number_inj: "i < 2 ^ 52 \<Longrightarrow> j < 2 ^ 52 \<Longrightarrow> (of_nat i * 4096 :: u64) = of_nat j * 4096 \<longleftrightarrow> i = j"
  using unat_page_number [of i] unat_page_number [of j] by (auto simp: word_unat_eq_iff)

lemma aligned_page_number: "i < 2 ^ 52 \<Longrightarrow> aligned (of_nat i * 4096)"
  by (simp add: aligned_iff_mod unat_page_number)

text \<open>A single empty root table below a run of free pages, all of them without present
  entries, satisfies the invariant.\<close>

lemma vm_wf_fresh:
  assumes "flist s [a..<b]" "b < 2 ^ 52" "0 < k" "k < a" "root = of_nat k * 4096"
    and "\<And>i. i < b \<Longrightarrow> page_addr (pages s i) = of_nat i * 4096"
    and "\<And>t i. t = k \<or> a \<le> t \<and> t < b \<Longrightarrow> i < 512 \<Longrightarrow> \<not> present (pt_entry s (of_nat t * 4096) i)"
    and "a \<le> b"
  shows "vm_wf [root \<mapsto> []] [a..<b] s"
proof -
  have k: "k < 2 ^ 52" using assms(2,4,8) by simp
  have nz: "of_nat i * 4096 \<noteq> (0 :: u64)" if "0 < i" "i < 2 ^ 52" for i
    using page_number_inj [of i 0] that by simp
  have "tables_ok [root \<mapsto> []] s"
    using assms(3,5) nz [of k] aligned_page_number [of k] k assms(7)
    by (auto simp: tables_ok_def split: if_splits)
  moreover have "free_ok [root \<mapsto> []] [a..<b] s"
    unfolding free_ok_def
  proof (intro conjI ballI)
    show "inj_on (\<lambda>x. page_addr (pages s x)) (set [a..<b])"
      using assms(2) by (auto simp: inj_on_def assms(6) page_number_inj)
    fix x assume "x \<in> set [a..<b]"
    then have x: "a \<le> x" "x < b" "x < 2 ^ 52" "0 < x" using assms(2,3,4) by auto
    then show "aligned (page_addr (pages s x))" "page_addr (pages s x) \<noteq> 0"
      "[root \<mapsto> []] (page_addr (pages s x)) = None"
      "\<forall>i < 512. \<not> present (pt_entry s (page_addr (pages s x)) i)"
      using assms(4,5,7) k page_number_inj [of x k]
      by (auto simp: assms(6) aligned_page_number nz)
  qed (rule assms(1))
  ultimately show ?thesis by (simp add: vm_wf_def)
qed

subsection \<open>A concrete state\<close>

definition demo_vm :: vm where
  "demo_vm = \<lparr>pages = pages (page_init demo_alloc), free_list = free_list (page_init demo_alloc),
     noofpages = 16, physfree = 0x2000, mem = \<lambda>_. 0, CR3 = 0x1000, pml4 = 0x1000, cr3 = 0x1000\<rparr>"

lemma demo_vm_CR3 [simp]: "CR3 demo_vm = 0x1000" "pml4 demo_vm = 0x1000"
  by (simp_all add: demo_vm_def)

lemma demo_vm_wf: "vm_wf [0x1000 \<mapsto> []] [2..<16] demo_vm"
proof (rule vm_wf_fresh [where k = 1])
  show "flist demo_vm [2..<16]"
    using demo_alloc_flist by (simp only: flist_def demo_vm_def alloc.select_convs)
  show "\<And>i. i < 16 \<Longrightarrow> page_addr (pages demo_vm i) = of_nat i * 4096"
    using demo_alloc_addr by (simp add: demo_vm_def)
qed (simp_all add: demo_vm_def pt_entry_def present_def)

theorem map_process_roundtrip_witness:
  "\<exists>s'. map_process demo_vm 0x400000 0x7000 = Some s' \<and> phyAddr s' 0x400000 = Some 0x7007"
  using map_process_roundtrip [OF demo_vm_wf, where va = "0x400000" and pa = "0x7000"] by auto

theorem map_process_frame_witness:
  "\<exists>s'. map_process demo_vm 0x400000 0x7000 = Some s' \<and>
     translate s' 0x1000 0x401000 = translate demo_vm 0x1000 0x401000"
proof -
  have own: "[0x1000 \<mapsto> []] (CR3 demo_vm) = Some []" by simp
  have len: "3 \<le> length [2..<16]" by simp
  obtain s' where s': "map_process demo_vm 0x400000 0x7000 = Some s'"
    by (rule map_at_spec [OF demo_vm_wf own len, of "0x400000" "0x7000"])
       (simp add: map_process_def get_CR3_def)
  have b: "12 \<le> (12 :: nat) \<and> 12 < (48 :: nat) \<and> bit (0x400000 :: u64) 12 \<noteq> bit (0x401000 :: u64) 12"
    by simp
  have "\<exists>n. 12 \<le> n \<and> n < 48 \<and> bit (0x400000 :: u64) n \<noteq> bit (0x401000 :: u64) n"
    using b by (rule exI)
  with map_process_frame [OF demo_vm_wf own len s'] s' show ?thesis
    by (intro exI [of _ s']) simp
qed

end
