(* ===== verification/AddrSpace.thy ===== *)
theory AddrSpace
  imports PageTable
begin

unbundle bit_operations_syntax

text \<open>
  Building address spaces (\<^verbatim>\<open>sys/phymap.c\<close>): the kernel's own tables at boot
  (\<open>pagetable_init\<close>, \<open>mapAllpages\<close>, \<open>mem_alloc\<close>), the copy of the tables for a forked
  child (\<open>copy_page_tables_forchild\<close>), and the facts about \<open>set_user_AddrSpace\<close>.
\<close>

text \<open>The loop of \<open>pagetable_init\<close>. It need not end when \<open>physfree\<close> is within a page of the
  top of the address range.\<close>

partial_function (option) pagetable_loop ::
    "'a vm_scheme \<Rightarrow> u64 \<Rightarrow> u64 \<Rightarrow> u64 \<Rightarrow> 'a vm_scheme option" where
  "pagetable_loop s pt vaddr pbase =
     (if pbase < physfree s then do {
        s \<leftarrow> pt_set s pt (getPTIndex vaddr) (pbase OR (PTE_P OR PTE_W OR PTE_U));
        pagetable_loop s pt (vaddr + 0x1000) (pbase + 0x1000) }
      else Some s)"

text \<open>\<open>kernmem\<close> and \<open>physbase\<close> are the addresses of the linker's symbols.\<close>

definition pagetable_init :: "u64 \<Rightarrow> u64 \<Rightarrow> 'a vm_scheme \<Rightarrow> 'a vm_scheme option" where
  "pagetable_init kernmem physbase s = do {
     (p, s) \<leftarrow> page_alloc_addr s;
     let s = s\<lparr>pml4 := p, cr3 := p\<rparr>;
     if p = 0 then Some s else do {
       (pdpt, s) \<leftarrow> pdpt_alloc s p (getPML4Index kernmem);
       if pdpt = 0 then Some s else do {
         (pdt, s) \<leftarrow> pdt_alloc s pdpt (getPDPTIndex kernmem);
         if pdt = 0 then Some s else do {
           (pt, s) \<leftarrow> pt_alloc s pdt (getPDTIndex kernmem);
           if pt = 0 then Some s else pagetable_loop s pt kernmem physbase } } } }"

partial_function (option) mapAllpages_loop :: "'a vm_scheme \<Rightarrow> u64 \<Rightarrow> 'a vm_scheme option" where
  "mapAllpages_loop s viraddr =
     (if viraddr \<le> 0x500000 then do {
        s \<leftarrow> map_virt_address s viraddr viraddr;
        mapAllpages_loop s (viraddr + 0x1000) }
      else Some s)"

definition mapAllpages :: "'a vm_scheme \<Rightarrow> 'a vm_scheme option" where
  "mapAllpages s = mapAllpages_loop s (physfree s)"

text \<open>\<open>maxPhysMem\<close>, which \<open>mem_alloc\<close> also sets, is read nowhere.\<close>

definition mem_alloc :: "u64 \<Rightarrow> u64 \<Rightarrow> u32 \<Rightarrow> u64 \<Rightarrow> 'a vm_scheme \<Rightarrow> 'a vm_scheme option" where
  "mem_alloc kernmem physbase no_of_pages phys_free s = do {
     let s = page_init (s\<lparr>noofpages := no_of_pages, physfree := phys_free\<rparr>);
     s \<leftarrow> pagetable_init kernmem physbase s;
     s \<leftarrow> mapAllpages s;
     s \<leftarrow> map_virt_address s 0xffffffff800b8000 0xb8000;
     Some (load_CR3 s) }"

subsection \<open>Copying the tables for a child\<close>

text \<open>The innermost loop: a present entry is rewritten, in the child and in the parent, without
  the write bit and with the copy-on-write mark.\<close>

definition copy_pt_entry :: "u64 \<Rightarrow> u64 \<Rightarrow> nat \<Rightarrow> 'a vm_scheme \<Rightarrow> 'a vm_scheme option" where
  "copy_pt_entry c_pt p_pt pt_indx s = do {
     pt_entry \<leftarrow> get_pt_entry s p_pt (of_nat pt_indx);
     if pt_entry AND PTE_P \<noteq> 0 then do {
       let page = get_address pt_entry;
       s \<leftarrow> pt_set s c_pt (of_nat pt_indx) (page OR (PTE_P OR PTE_U OR PTE_COW));
       pt_set s p_pt (of_nat pt_indx) (page OR (PTE_P OR PTE_U OR PTE_COW)) }
     else Some s }"

definition copy_pdt_entry :: "u64 \<Rightarrow> u64 \<Rightarrow> nat \<Rightarrow> 'a vm_scheme \<Rightarrow> 'a vm_scheme option" where
  "copy_pdt_entry c_pdt p_pdt pdt_indx s = do {
     pdt_entry \<leftarrow> get_pdt_entry s p_pdt (of_nat pdt_indx);
     if pdt_entry AND PTE_P \<noteq> 0 then do {
       (c_pt, s) \<leftarrow> pt_alloc s c_pdt (of_nat pdt_indx);
       let p_pt = get_address pdt_entry;
       for_each (copy_pt_entry c_pt p_pt) [0..<512] s }
     else Some s }"

definition copy_pdpt_entry :: "u64 \<Rightarrow> u64 \<Rightarrow> nat \<Rightarrow> 'a vm_scheme \<Rightarrow> 'a vm_scheme option" where
  "copy_pdpt_entry c_pdpt p_pdpt pdpt_indx s = do {
     pdpt_entry \<leftarrow> get_pdpt_entry s p_pdpt (of_nat pdpt_indx);
     if pdpt_entry AND PTE_P \<noteq> 0 then do {
       (c_pdt, s) \<leftarrow> pdt_alloc s c_pdpt (of_nat pdpt_indx);
       let p_pdt = get_address pdpt_entry;
       for_each (copy_pdt_entry c_pdt p_pdt) [0..<512] s }
     else Some s }"

definition copy_pml4_entry :: "u64 \<Rightarrow> u64 \<Rightarrow> nat \<Rightarrow> 'a vm_scheme \<Rightarrow> 'a vm_scheme option" where
  "copy_pml4_entry c_pml4 p_pml4 pml4_indx s = do {
     pml4_entry \<leftarrow> get_pml4_entry s p_pml4 (of_nat pml4_indx);
     if pml4_entry AND PTE_P \<noteq> 0 then do {
       (c_pdpt, s) \<leftarrow> pdpt_alloc s c_pml4 (of_nat pml4_indx);
       let p_pdpt = get_address pml4_entry;
       for_each (copy_pdpt_entry c_pdpt p_pdpt) [0..<512] s }
     else Some s }"

definition copy_page_tables_forchild :: "'a vm_scheme \<Rightarrow> u64 \<Rightarrow> 'a vm_scheme option" where
  "copy_page_tables_forchild s c_pml4 = do {
     let p_pml4 = get_CR3 s;
     s \<leftarrow> for_each (copy_pml4_entry c_pml4 p_pml4) [0..<510] s;
     e \<leftarrow> pt_get s p_pml4 511;
     s \<leftarrow> pt_set s c_pml4 511 e;
     e \<leftarrow> pt_get s p_pml4 510;
     pt_set s c_pml4 510 e }"

subsection \<open>Identity mapping at boot\<close>

lemma unat_index:
  "unat (getPTIndex a) = unat a div 2 ^ 12 mod 512"
  "unat (getPDTIndex a) = unat a div 2 ^ 21 mod 512"
  "unat (getPDPTIndex a) = unat a div 2 ^ 30 mod 512"
  "unat (getPML4Index a) = unat a div 2 ^ 39 mod 512"
  unfolding index_take_bit
  by (simp_all add: take_bit_eq_mod drop_bit_eq_div unat_mod unat_div)

text \<open>Consecutive pages from \<open>v\<close> on.\<close>

definition page_from :: "u64 \<Rightarrow> nat \<Rightarrow> u64" where
  "page_from v k = v + of_nat k * 0x1000"

lemma page_from_0 [simp]: "page_from v 0 = v"
  and page_from_Suc: "page_from (v + 0x1000) k = page_from v (Suc k)"
  by (simp_all add: page_from_def algebra_simps)

lemma unat_page_from:
  assumes "unat v + 4096 * k < 2 ^ 64"
  shows "unat (page_from v k) = unat v + 4096 * k"
proof -
  have "k < 2 ^ 52" using assms by simp
  then show ?thesis using assms
    by (simp add: page_from_def unat_word_ariths unat_page_number [simplified] mult.commute
        unsigned_of_nat take_bit_nat_eq_self)
qed

lemma page_from_vpath:
  assumes "unat v + 4096 * k < 2 ^ 48" "unat v + 4096 * j < 2 ^ 48" "k \<noteq> j"
  shows "vpath (page_from v k) \<noteq> vpath (page_from v j)"
proof
  assume "vpath (page_from v k) = vpath (page_from v j)"
  moreover have "unat (page_from v k) = unat v + 4096 * k" "unat (page_from v j) = unat v + 4096 * j"
    using assms(1,2) by (simp_all add: unat_page_from)
  ultimately have "(unat v + 4096 * k) div 4096 = (unat v + 4096 * j) div 4096"
    using vpath_low_eq [of "page_from v k" "page_from v j"] assms(1,2) by simp
  with assms(3) show False by simp
qed

text \<open>\<open>maps_range own root v n g s s'\<close>: between \<open>s\<close> and \<open>s'\<close> the \<open>n\<close> pages from \<open>v\<close> on were mapped below \<open>root\<close>, page \<open>k\<close> by the
  entry \<open>g k\<close>, and no other page was.\<close>

definition maps_range ::
    "(u64 \<Rightarrow> u64 list option) \<Rightarrow> u64 \<Rightarrow> u64 \<Rightarrow> nat \<Rightarrow> (nat \<Rightarrow> u64) \<Rightarrow> 'a vm_scheme \<Rightarrow> 'a vm_scheme \<Rightarrow> bool" where
  "maps_range own root v n g s s' \<longleftrightarrow> (\<forall>k < n. translate s' root (page_from v k) = Some (g k)) \<and>
     (\<forall>r va. own r = Some [] \<longrightarrow> (\<forall>k < n. vpath va \<noteq> vpath (page_from v k)) \<longrightarrow> translate s' r va = translate s r va)"

lemma maps_rangeD:
  assumes "maps_range own root v n g s s'"
  shows "k < n \<Longrightarrow> translate s' root (page_from v k) = Some (g k)"
    and "own r = Some [] \<Longrightarrow> (\<And>k. k < n \<Longrightarrow> vpath va \<noteq> vpath (page_from v k)) \<Longrightarrow> translate s' r va = translate s r va"
  using assms by (auto simp: maps_range_def)

lemma maps_range_0 [simp]: "maps_range own root v 0 g s s"
  by (simp add: maps_range_def)

lemma maps_range_Suc:
  assumes "inj_on (\<lambda>k. vpath (page_from v k)) {..<Suc n}" "own root = Some []" "own \<subseteq>\<^sub>m own1"
    and "translate s1 root v = Some (g 0)"
    and "\<And>r va. own r = Some [] \<Longrightarrow> vpath va \<noteq> vpath v \<Longrightarrow> translate s1 r va = translate s r va"
    and "maps_range own1 root (v + 0x1000) n (\<lambda>k. g (Suc k)) s1 s'"
  shows "maps_range own root v (Suc n) g s s'"
proof -
  note rest = maps_rangeD [OF assms(6), unfolded page_from_Suc]
  have "vpath v \<noteq> vpath (page_from v (Suc j))" if "j < n" for j
    using inj_onD [OF assms(1), of 0 "Suc j"] that by auto
  then have "translate s' root v = Some (g 0)"
    using rest(2) [OF map_le_Some [OF assms(3,2)], of v] assms(4) by simp
  moreover have "translate s' r va = translate s r va"
    if "own r = Some []" "\<forall>k < Suc n. vpath va \<noteq> vpath (page_from v k)" for r va
    using rest(2) [OF map_le_Some [OF assms(3) that(1)], of va] assms(5) [OF that(1), of va] that(2) [rule_format, of 0] that(2)
    by simp
  ultimately show ?thesis using rest(1) by (auto simp: maps_range_def less_Suc_eq_0_disj)
qed

lemma page_count: "k < (lim - base + 4095) div 4096 \<longleftrightarrow> base + 4096 * k < (lim :: nat)"
proof -
  have "k < (lim - base + 4095) div 4096 \<longleftrightarrow> Suc k * 4096 \<le> lim - base + 4095"
    unfolding Suc_le_eq [symmetric] by (rule less_eq_div_iff_mult_less_eq) simp
  then show ?thesis by (simp, linarith)
qed

lemma inj_pages_Suc:
  "inj_on (\<lambda>k. vpath (page_from v k)) {..<Suc n} \<Longrightarrow> inj_on (\<lambda>k. vpath (page_from (v + 0x1000) k)) {..<n}"
  unfolding page_from_Suc inj_on_def by auto

lemma mapAllpages_loop_spec:
  assumes "vm_wf own fl s" "own (pml4 s) = Some []" "3 * n \<le> length fl"
    and "\<And>k. k < n \<longleftrightarrow> unat v + 4096 * k \<le> 0x500000"
  shows "\<exists>s' own' fl'. mapAllpages_loop s v = Some s' \<and> vm_wf own' fl' s' \<and> own \<subseteq>\<^sub>m own' \<and>
    same_but_mem s s' \<and> length fl \<le> 3 * n + length fl' \<and> maps_range own (pml4 s) v n (\<lambda>k. page_from v k OR 7) s s'"
  using assms
proof (induction n arbitrary: own fl s v)
  case 0
  then have "\<not> v \<le> 0x500000" using "0"(4) [of 0] by (simp add: word_le_nat_alt)
  then have "mapAllpages_loop s v = Some s" by (simp add: mapAllpages_loop.simps)
  moreover have "same_but_mem s s" by (simp add: same_but_mem_def)
  ultimately show ?case using 0 by (intro exI [of _ s] exI [of _ own] exI [of _ fl]) simp
next
  case (Suc n)
  have v: "unat v \<le> 0x500000" "v \<le> 0x500000" using Suc.prems(4) [of 0] by (simp_all add: word_le_nat_alt)
  then have v': "unat (v + 0x1000) = unat v + 4096" by (simp add: unat_word_ariths)
  have k: "k < n \<longleftrightarrow> unat (v + 0x1000) + 4096 * k \<le> 0x500000" for k using Suc.prems(4) [of "Suc k"] by (simp add: v')
  have inj: "inj_on (\<lambda>k. vpath (page_from v k)) {..<Suc n}"
    by (rule inj_onI, rule ccontr) (use page_from_vpath [of v] Suc.prems(4) in fastforce)
  obtain s1 own1 fl1 where
    1: "map_at s (pml4 s) v v = Some s1" "vm_wf own1 fl1 s1" "own \<subseteq>\<^sub>m own1" "same_but_mem s s1"
      "length fl \<le> 3 + length fl1" "translate s1 (pml4 s) v = Some (v OR 7)"
      "\<And>r va'. own r = Some [] \<Longrightarrow> vpath va' \<noteq> vpath v \<Longrightarrow> translate s1 r va' = translate s r va'"
    using Suc.prems(3) by (auto intro: map_at_spec [OF Suc.prems(1,2), of v v])
  have p: "pml4 s1 = pml4 s" using 1(4) by (simp add: same_but_mem_def)
  have o: "own1 (pml4 s1) = Some []" using 1(3) Suc.prems(2) p by (simp add: map_le_Some)
  have "3 * n \<le> length fl1" using Suc.prems(3) 1(5) by simp
  from Suc.IH [OF 1(2) o this k] obtain s' own' fl' where
    2: "mapAllpages_loop s1 (v + 0x1000) = Some s'" "vm_wf own' fl' s'" "own1 \<subseteq>\<^sub>m own'" "same_but_mem s1 s'"
      "length fl1 \<le> 3 * n + length fl'" "maps_range own1 (pml4 s) (v + 0x1000) n (\<lambda>k. page_from v (Suc k) OR 7) s1 s'"
    unfolding p page_from_Suc by blast
  have "mapAllpages_loop s v = Some s'"
    using v(2) 1(1) 2(1) by (subst mapAllpages_loop.simps) (simp add: map_virt_address_def)
  moreover have "own \<subseteq>\<^sub>m own'" using 1(3) 2(3) by (rule map_le_trans)
  moreover have "same_but_mem s s'" using 1(4) 2(4) by (simp add: same_but_mem_def)
  moreover have "maps_range own (pml4 s) v (Suc n) (\<lambda>k. page_from v k OR 7) s s'"
    by (rule maps_range_Suc [OF inj Suc.prems(2) 1(3) _ _ 2(6)]) (use 1(6,7) in simp_all)
  ultimately show ?case using 2(2,5) 1(5) by (intro exI [of _ s'] exI [of _ own'] exI [of _ fl']) simp
qed


subsection \<open>A user address space shares the kernel's tables\<close>

abbreviation copy_root :: "u64 \<Rightarrow> u64 \<Rightarrow> nat \<Rightarrow> 'a vm_scheme \<Rightarrow> 'a vm_scheme" where
  "copy_root new cur k s \<equiv>
     fold (\<lambda>i s. pt_write s new (of_nat i) (pt_entry s cur (of_nat i))) [0..<k] s"

lemma copy_root_spec:
  assumes "aligned new" "aligned cur" "new \<noteq> cur" "k \<le> 512"
  shows "same_but_mem s (copy_root new cur k s) \<and> free_list (copy_root new cur k s) = free_list s \<and>
    (\<forall>u j. aligned u \<longrightarrow> j < 512 \<longrightarrow> pt_entry (copy_root new cur k s) u j =
      (if u = new \<and> unat j < k then pt_entry s cur j else pt_entry s u j))"
  using assms(4)
proof (induction k)
  case 0
  show ?case by (simp add: same_but_mem_def)
next
  case (Suc k)
  define s1 where "s1 = copy_root new cur k s"
  have k: "of_nat k < (512 :: u64)" "unat (of_nat k :: u64) = k"
    using Suc.prems by (simp_all add: word_less_nat_alt unsigned_of_nat take_bit_nat_eq_self)
  have IH: "same_but_mem s s1" "free_list s1 = free_list s"
    "\<And>u j. aligned u \<Longrightarrow> j < 512 \<Longrightarrow> pt_entry s1 u j =
      (if u = new \<and> unat j < k then pt_entry s cur j else pt_entry s u j)"
    using Suc unfolding s1_def by auto
  have cur: "pt_entry s1 cur (of_nat k) = pt_entry s cur (of_nat k)"
    using IH(3) [OF assms(2) k(1)] assms(3) by simp
  have "pt_entry (pt_write s1 new (of_nat k) (pt_entry s1 cur (of_nat k))) u j =
      (if u = new \<and> unat j < Suc k then pt_entry s cur j else pt_entry s u j)"
    if "aligned u" "j < 512" for u j
  proof (cases "u = new \<and> j = of_nat k")
    case True
    then show ?thesis using k assms(1) that by (simp add: pt_entry_update cur)
  next
    case False
    then have "\<not> (u = new \<and> unat j = k)" using k(2) by (auto simp: word_unat_eq_iff)
    then show ?thesis using False k(1) assms(1) that IH(3) [OF that]
      by (auto simp: pt_entry_update less_Suc_eq)
  qed
  then show ?case using IH(1,2)
    by (simp add: s1_def [symmetric] same_but_mem_def) (simp add: pt_write_def)
qed

lemma tables_ok_copy_root:
  assumes "tables_ok own s" "own cur = Some []" "own r = None" "aligned r" "r \<noteq> 0"
    and "\<And>i. i < 512 \<Longrightarrow> pt_entry s' r i = pt_entry s cur i"
    and "\<And>u q i. own u = Some q \<Longrightarrow> i < 512 \<Longrightarrow> pt_entry s' u i = pt_entry s u i"
  shows "tables_ok (own(r \<mapsto> [])) s'"
  unfolding tables_ok_def
proof (intro conjI allI impI)
  fix t p assume "(own(r \<mapsto> [])) t = Some p"
  then show "aligned t" "t \<noteq> 0" "length p \<le> 3"
    using assms(4,5) tables_okD [OF assms(1)] by (auto split: if_splits)
next
  fix t p i
  assume a: "(own(r \<mapsto> [])) t = Some p" "length p < 3" "i < 512" "present (pt_entry s' t i)"
  have "own (get_address (pt_entry s' t i)) = Some (p @ [i])"
  proof (cases "t = r")
    case True
    then show ?thesis using a assms(6) [OF a(3)] tables_ok_next [OF assms(1,2)] by simp
  next
    case False
    then show ?thesis using a assms(7) [OF _ a(3)] tables_ok_next [OF assms(1)] by simp
  qed
  then show "(own(r \<mapsto> [])) (get_address (pt_entry s' t i)) = Some (p @ [i])"
    using assms(3) by auto
qed

lemma set_user_AddrSpace_spec:
  assumes "vm_wf own (x # fl) s" "own (CR3 s) = Some []"
  obtains r s' where "set_user_AddrSpace s = Some (r, s')" "vm_wf (own(r \<mapsto> [])) fl s'"
    "r \<noteq> CR3 s" "same_but_mem s s'" "own r = None"
    "\<And>i. i < 512 \<Longrightarrow> pt_entry s' r i = pt_entry s (CR3 s) i"
    "\<And>u q i. own u = Some q \<Longrightarrow> i < 512 \<Longrightarrow> pt_entry s' u i = pt_entry s u i"
proof -
  have ok: "tables_ok own s" "free_ok own (x # fl) s" using assms(1) by (auto simp: vm_wf_def)
  define r where "r = page_addr (pages s x)"
  define s1 where "s1 = s\<lparr>free_list := nxt (pages s x)\<rparr>"
  define s' where "s' = copy_root r (CR3 s) 512 s1"
  note rx = free_okD [OF ok(2), of x, simplified, folded r_def]
  note cur = tables_okD [OF ok(1) assms(2)]
  have "flist s (x # fl)" using ok(2) by (simp add: free_ok_def)
  then have pa: "page_alloc_addr s = Some (r, s1)"
    by (auto simp: page_alloc_addr_def page_alloc_def flist_def r_def s1_def)
  have ne: "r \<noteq> CR3 s" using rx(3) assms(2) by auto
  have c: "same_but_mem s1 s'" "free_list s' = free_list s1"
    "\<And>u j. aligned u \<Longrightarrow> j < 512 \<Longrightarrow>
      pt_entry s' u j = (if u = r then pt_entry s (CR3 s) j else pt_entry s u j)"
    using copy_root_spec [OF rx(1) cur(1) ne, of 512 s1] unfolding s'_def
    by (auto simp: s1_def word_less_nat_alt)
  have old: "pt_entry s' u i = pt_entry s u i" if "own u = Some q" "i < 512" for u q i
    using c(3) [OF tables_okD(1) [OF ok(1) that(1)] that(2)] that(1) rx(3) by auto
  have new: "pt_entry s' r i = pt_entry s (CR3 s) i" if "i < 512" for i
    using c(3) [OF rx(1) that] by simp
  have "tables_ok (own(r \<mapsto> [])) s'"
    by (rule tables_ok_copy_root [OF ok(1) assms(2) rx(3,1,2) new old])
  moreover have "free_ok (own(r \<mapsto> [])) fl s'"
    using c by (intro free_ok_take [OF ok(2) r_def]) (auto simp: same_but_mem_def s1_def)
  ultimately have "vm_wf (own(r \<mapsto> [])) fl s'" by (simp add: vm_wf_def)
  moreover have "set_user_AddrSpace s = Some (r, s')"
    unfolding set_user_AddrSpace_def pa by (simp add: get_CR3_def s'_def s1_def)
  moreover have "same_but_mem s s'" using c(1) by (simp add: same_but_mem_def s1_def)
  ultimately show thesis using that ne rx(3) new old by blast
qed

text \<open>Two roots with the same entry at an index give the same walks through it.\<close>

lemma translate_same_root_entry:
  "pt_entry s r (getPML4Index va) = pt_entry s r' (getPML4Index va) \<Longrightarrow>
    translate s r va = translate s r' va"
  by (simp add: translate_def vpath_def)

lemma set_user_AddrSpace_translates:
  assumes "vm_wf own (x # fl) s" "own (CR3 s) = Some []"
  obtains r s' where "set_user_AddrSpace s = Some (r, s')" "vm_wf (own(r \<mapsto> [])) fl s'" "r \<noteq> CR3 s"
    "same_but_mem s s'" "own r = None" "\<And>va. translate s' (CR3 s) va = translate s (CR3 s) va"
    "\<And>va. translate s' r va = translate s (CR3 s) va"
proof -
  obtain r s' where
    1: "set_user_AddrSpace s = Some (r, s')" "vm_wf (own(r \<mapsto> [])) fl s'" "r \<noteq> CR3 s"
      "same_but_mem s s'" "own r = None"
      "\<And>i. i < 512 \<Longrightarrow> pt_entry s' r i = pt_entry s (CR3 s) i"
      "\<And>u q i. own u = Some q \<Longrightarrow> i < 512 \<Longrightarrow> pt_entry s' u i = pt_entry s u i"
    by (rule set_user_AddrSpace_spec [OF assms]) blast
  have ok: "tables_ok own s" using assms(1) by (simp add: vm_wf_def)
  have "walk s' (CR3 s) (vpath va) = walk s (CR3 s) (vpath va)" for va
    by (rule walk_same_tables [where Q = "\<lambda>_. True", OF ok _ assms(2)]) (use 1(7) vpath_less in auto)
  then have cur: "translate s' (CR3 s) va = translate s (CR3 s) va" for va by (simp add: translate_def)
  moreover have "translate s' r va = translate s' (CR3 s) va" for va
    by (rule translate_same_root_entry) (simp add: 1(6) 1(7) [OF assms(2)])
  ultimately show thesis using that [OF 1(1-5)] by simp
qed

text \<open>C34. A user address space starts as a copy of the current one: every address translates
  alike in both, and all of the current space's translations are as before.\<close>

theorem set_user_AddrSpace_copies:
  assumes "vm_wf own (x # fl) s" "own (CR3 s) = Some []"
  shows "\<exists>r s'. set_user_AddrSpace s = Some (r, s') \<and> r \<noteq> CR3 s \<and> CR3 s' = CR3 s \<and>
    (\<forall>va. translate s' r va = translate s (CR3 s) va) \<and>
    (\<forall>va. translate s' (CR3 s) va = translate s (CR3 s) va)"
  by (rule set_user_AddrSpace_translates [OF assms]) (auto simp: same_but_mem_def)

text \<open>C35. The copy is not isolated from the original: where the current space has a second-level
  table for an address, a page mapped later into the new space at that address appears in the
  current space as well.\<close>

theorem user_mapping_leaks_into_kernel:
  assumes "vm_wf own (x # fl) s" "own (CR3 s) = Some []" "3 \<le> length fl"
    and "present (pt_entry s (CR3 s) (getPML4Index va))"
  shows "\<exists>r s' s''. set_user_AddrSpace s = Some (r, s') \<and> map_process (set_CR3 s' r) va pa = Some s'' \<and>
    translate s'' (CR3 s) va = Some (pa OR (PTE_P OR PTE_W OR PTE_U))"
proof -
  obtain r s' where
    1: "set_user_AddrSpace s = Some (r, s')" "vm_wf (own(r \<mapsto> [])) fl s'" "r \<noteq> CR3 s"
      "same_but_mem s s'" "own r = None"
      "\<And>i. i < 512 \<Longrightarrow> pt_entry s' r i = pt_entry s (CR3 s) i"
      "\<And>u q i. own u = Some q \<Longrightarrow> i < 512 \<Longrightarrow> pt_entry s' u i = pt_entry s u i"
    by (rule set_user_AddrSpace_spec [OF assms(1,2)]) blast
  have wf: "vm_wf (own(r \<mapsto> [])) fl (set_CR3 s' r)"
    using 1(2) by (simp add: vm_wf_def tables_ok_def free_ok_def set_CR3_def pt_entry_def flist_def)
  have "(own(r \<mapsto> [])) r = Some []" by simp
  then obtain s'' where
    2: "map_at (set_CR3 s' r) r va pa = Some s''" "translate s'' r va = Some (pa OR 7)"
      "\<And>u q j. (own(r \<mapsto> [])) u = Some q \<Longrightarrow> length q < 3 \<Longrightarrow> j < 512 \<Longrightarrow>
         present (pt_entry (set_CR3 s' r) u j) \<Longrightarrow> pt_entry s'' u j = pt_entry (set_CR3 s' r) u j"
    by (rule map_at_spec [OF wf _ assms(3), of r va pa]) blast
  have e: "pt_entry (set_CR3 s' r) u j = pt_entry s' u j" for u j
    by (simp add: set_CR3_def pt_entry_def)
  let ?i = "getPML4Index va"
  have "pt_entry s'' r ?i = pt_entry s (CR3 s) ?i"
    using 2(3) [of r "[]" ?i] 1(6) assms(4) by (simp add: e)
  moreover have "pt_entry s'' (CR3 s) ?i = pt_entry s (CR3 s) ?i"
    using 2(3) [of "CR3 s" "[]" ?i] 1(3) 1(7) [OF assms(2)] assms(2,4) by (simp add: e)
  ultimately have "translate s'' (CR3 s) va = translate s'' r va"
    by (intro translate_same_root_entry) simp
  with 1(1) 2(1,2) show ?thesis by (auto simp: map_process_def get_CR3_def set_CR3_def)
qed

subsection \<open>The kernel's own tables\<close>

text \<open>Within one 2 MB region the upper three indices do not change and the last one counts.\<close>

lemma region_nat:
  fixes u k :: nat
  assumes "u mod 2 ^ 21 + 4096 * k < 2 ^ 21"
  shows "(u + 4096 * k) div 2 ^ 21 = u div 2 ^ 21"
    and "(u + 4096 * k) div 2 ^ 12 mod 512 = u mod 2 ^ 21 div 2 ^ 12 + k"
proof -
  define q r where "q = u div 2 ^ 21" and "r = u mod 2 ^ 21"
  have u: "u = 2 ^ 21 * q + r" by (simp add: q_def r_def)
  have r: "r + 4096 * k < 2 ^ 21" using assms by (simp add: r_def)
  then show "(u + 4096 * k) div 2 ^ 21 = u div 2 ^ 21"
    unfolding q_def [symmetric] by (simp add: u)
  have e: "(u + 4096 * k) div 2 ^ 12 = 512 * q + (r div 2 ^ 12 + k)"
    by (simp add: u)
  have "r div 2 ^ 12 + k < 512" using r by simp
  then have "(512 * q + (r div 2 ^ 12 + k)) mod 512 = r div 2 ^ 12 + k"
    by (simp only: mod_mult_self4 mod_less)
  then show "(u + 4096 * k) div 2 ^ 12 mod 512 = u mod 2 ^ 21 div 2 ^ 12 + k"
    by (simp only: e r_def)
qed

lemma region_bound:
  fixes q r m :: nat
  assumes "q < 2 ^ 43" "r + m < 2 ^ 21"
  shows "2 ^ 21 * q + r + m < 2 ^ 64"
proof -
  have "2 ^ 21 * q + r + m < 2 ^ 21 * Suc q" using assms(2) by simp
  also have "\<dots> \<le> 2 ^ 21 * 2 ^ 43" using assms(1) by (intro mult_le_mono2) simp
  finally show ?thesis by simp
qed

lemma region_upath:
  assumes "unat v mod 2 ^ 21 + 4096 * k < 2 ^ 21"
  shows "upath (page_from v k) = upath v"
    and "unat (getPTIndex (page_from v k)) = unat v mod 2 ^ 21 div 2 ^ 12 + k"
proof -
  have q: "unat v div 2 ^ 21 < 2 ^ 43" using unsigned_less [of v, where 'a = nat] by simp
  have "unat v + 4096 * k < 2 ^ 64"
    using region_bound [OF q assms] by simp
  then have u: "unat (page_from v k) = unat v + 4096 * k" by (rule unat_page_from)
  note n = region_nat [OF assms]
  have d: "(unat v + 4096 * k) div 2 ^ (21 + j) = unat v div 2 ^ (21 + j)" for j
    using n(1) by (simp only: power_add div_mult2_eq)
  show "unat (getPTIndex (page_from v k)) = unat v mod 2 ^ 21 div 2 ^ 12 + k"
    by (simp only: unat_index u n(2))
  show "upath (page_from v k) = upath v"
    using d [of 0] d [of 9] d [of 18] by (simp add: upath_def word_unat_eq_iff unat_index u)
qed

lemma region_inj:
  assumes "unat v mod 2 ^ 21 + 4096 * n \<le> 2 ^ 21"
  shows "inj_on (\<lambda>k. vpath (page_from v k)) {..<n}"
proof (rule inj_onI)
  fix k j assume kj: "k \<in> {..<n}" "j \<in> {..<n}" "vpath (page_from v k) = vpath (page_from v j)"
  then have "unat (getPTIndex (page_from v k)) = unat (getPTIndex (page_from v j))" by (simp add: vpath_def)
  then show "k = j" using region_upath(2) [of v k] region_upath(2) [of v j] assms kj(1,2) by simp
qed

lemma pagetable_loop_spec:
  assumes "vm_wf own fl s" "own root = Some []" "own t = Some p"
    and "walk s root p = Some e" "get_address e = t" "unat pb + 4096 * n < 2 ^ 64"
    and "\<And>k. k < n \<longleftrightarrow> unat pb + 4096 * k < unat (physfree s)"
    and "\<And>k. k < n \<Longrightarrow> upath (page_from v k) = p" "inj_on (\<lambda>k. vpath (page_from v k)) {..<n}"
  shows "\<exists>s'. pagetable_loop s t v pb = Some s' \<and> vm_wf own fl s' \<and> same_but_mem s s' \<and>
    maps_range own root v n (\<lambda>k. page_from pb k OR 7) s s'"
  using assms
proof (induction n arbitrary: s v pb)
  case 0
  then have "\<not> pb < physfree s" using "0"(7) [of 0] by (simp add: word_less_nat_alt)
  then have "pagetable_loop s t v pb = Some s" by (simp add: pagetable_loop.simps)
  then show ?case using 0 by (simp add: same_but_mem_def)
next
  case (Suc n)
  have pbl: "pb < physfree s" using Suc.prems(7) [of 0] by (simp add: word_less_nat_alt)
  define s1 where "s1 = pt_write s t (getPTIndex v) (pb OR 7)"
  have p: "p = upath v" using Suc.prems(8) [of 0] by simp
  note w = leaf_write_spec [OF Suc.prems(1,2,3)[unfolded p] Suc.prems(4,5)[unfolded p] s1_def]
  have pb: "unat (pb + 0x1000) = unat pb + 4096" using Suc.prems(6) by (simp add: unat_word_ariths)
  have t0: "t \<noteq> 0" using Suc.prems(1,3) tables_okD(2) by (auto simp: vm_wf_def)
  have a: "k < n \<longleftrightarrow> unat (pb + 0x1000) + 4096 * k < unat (physfree s1)" for k
    using Suc.prems(7) [of "Suc k"] by (simp add: pb s1_def add.assoc)
  have b: "walk s1 root p = Some e" using w(4) [OF Suc.prems(2), of v] Suc.prems(4) p by simp
  have c: "upath (page_from (v + 0x1000) k) = p" if "k < n" for k
    using Suc.prems(8) [of "Suc k"] that by (simp add: page_from_Suc)
  have d: "unat (pb + 0x1000) + 4096 * n < 2 ^ 64" using Suc.prems(6) by (simp add: pb)
  obtain s' where
    2: "pagetable_loop s1 t (v + 0x1000) (pb + 0x1000) = Some s'" "vm_wf own fl s'" "same_but_mem s1 s'"
      "maps_range own root (v + 0x1000) n (\<lambda>k. page_from pb (Suc k) OR 7) s1 s'"
    using Suc.IH [OF w(1) Suc.prems(2,3) b Suc.prems(5) d a c inj_pages_Suc [OF Suc.prems(9)]] unfolding page_from_Suc by blast
  have "pagetable_loop s t v pb = Some s'"
    using pbl t0 2(1) by (subst pagetable_loop.simps) (simp add: pt_set_def s1_def)
  moreover have "same_but_mem s s'"
    using 2(3) by (simp add: same_but_mem_def s1_def) (simp add: pt_write_def)
  moreover have "maps_range own root v (Suc n) (\<lambda>k. page_from pb k OR 7) s s'"
    by (rule maps_range_Suc [OF Suc.prems(9,2) map_le_refl _ _ 2(4)]) (use w(2,3) in simp_all)
  ultimately show ?case using 2(2) by blast
qed

text \<open>The table path of a virtual address, allocated from nothing.\<close>

lemma fresh_tables:
  assumes "vm_wf own (x1 # x2 # x3 # fl) s" "own root = Some []"
    and "\<And>i. i < 512 \<Longrightarrow> \<not> present (pt_entry s root i)"
  obtains t3 s1 t2 s2 t1 s3 own3 e where "pdpt_alloc s root (getPML4Index va) = Some (t3, s1)"
    "pdt_alloc s1 t3 (getPDPTIndex va) = Some (t2, s2)"
    "pt_alloc s2 t2 (getPDTIndex va) = Some (t1, s3)"
    "t3 \<noteq> 0" "t2 \<noteq> 0" "t1 \<noteq> 0" "vm_wf own3 fl s3" "same_but_mem s s3" "own3 root = Some []"
    "own3 t1 = Some (upath va)" "walk s3 root (upath va) = Some e" "get_address e = t1"
proof -
  define t3 t2 t1 where "t3 = page_addr (pages s x1)" and "t2 = page_addr (pages s x2)"
    and "t1 = page_addr (pages s x3)"
  let ?i4 = "getPML4Index va" and ?i3 = "getPDPTIndex va" and ?i2 = "getPDTIndex va"
  obtain s1 where
    1: "pdpt_alloc s root ?i4 = Some (t3, s1)" "vm_wf (own(t3 \<mapsto> [?i4])) (x2 # x3 # fl) s1"
      "vm_grows own s (own(t3 \<mapsto> [?i4])) s1" "pt_entry s1 root ?i4 = t3 OR 7" "aligned t3" "t3 \<noteq> 0"
      "\<And>j. j < 512 \<Longrightarrow> \<not> present (pt_entry s1 t3 j)"
    by (rule pdpt_alloc_spec [OF assms(1,2) _ index_less(1) assms(3) t3_def]) auto
  define own1 where "own1 = own(t3 \<mapsto> [?i4])"
  have p1: "pages s1 = pages s" using 1(3) by (simp add: vm_grows_def same_but_mem_def)
  have o1: "own1 t3 = Some [?i4]" by (simp add: own1_def)
  obtain s2 where
    2: "pdpt_alloc s1 t3 ?i3 = Some (t2, s2)" "vm_wf (own1(t2 \<mapsto> [?i4, ?i3])) (x3 # fl) s2"
      "vm_grows own1 s1 (own1(t2 \<mapsto> [?i4, ?i3])) s2" "pt_entry s2 t3 ?i3 = t2 OR 7" "aligned t2"
      "t2 \<noteq> 0" "\<And>j. j < 512 \<Longrightarrow> \<not> present (pt_entry s2 t2 j)"
    by (rule pdpt_alloc_spec [OF 1(2)[folded own1_def] o1 _ index_less(2) 1(7), of va t2])
       (auto simp: p1 t2_def)
  define own2 where "own2 = own1(t2 \<mapsto> [?i4, ?i3])"
  have p2: "pages s2 = pages s" using p1 2(3) by (simp add: vm_grows_def same_but_mem_def)
  have o2: "own2 t2 = Some [?i4, ?i3]" by (simp add: own2_def)
  obtain s3 where
    3: "pdpt_alloc s2 t2 ?i2 = Some (t1, s3)" "vm_wf (own2(t1 \<mapsto> [?i4, ?i3, ?i2])) fl s3"
      "vm_grows own2 s2 (own2(t1 \<mapsto> [?i4, ?i3, ?i2])) s3" "pt_entry s3 t2 ?i2 = t1 OR 7"
      "aligned t1" "t1 \<noteq> 0"
    by (rule pdpt_alloc_spec [OF 2(2)[folded own2_def] o2 _ index_less(3) 2(7), of va t1])
       (auto simp: p2 t1_def)
  define own3 where "own3 = own2(t1 \<mapsto> [?i4, ?i3, ?i2])"
  note g1 = 1(3)[folded own1_def] and g2 = 2(3)[folded own2_def] and g3 = 3(3)[folded own3_def]
  have g: "vm_grows own s own3 s3" by (intro vm_grows_trans [OF g1] vm_grows_trans [OF g2 g3])
  have "pt_entry s3 root ?i4 = t3 OR 7"
    using vm_growsD(3) [OF vm_grows_trans [OF g2 g3] vm_growsD(1) [OF g1 assms(2)]] 1(4) by simp
  moreover have "pt_entry s3 t3 ?i3 = t2 OR 7"
    using vm_growsD(3) [OF g3 vm_growsD(1) [OF g2 o1]] 2(4) by simp
  ultimately have "walk s3 root (upath va) = Some (t1 OR 7)"
    using 1(5) 2(5) 3(4) by (simp add: upath_def)
  then show thesis
    using that [of t3 s1 t2 s2 t1 s3 own3 "t1 OR 7"] 1(1,6) 2(1,6) 3(1,2,5,6) g
      vm_growsD(1) [OF g assms(2)]
    by (simp add: table_allocs_eq own3_def [symmetric] vm_grows_def) (simp add: own3_def upath_def)
qed

text \<open>The kernel's own tables: started on a run of free, empty pages, \<open>pagetable_init\<close> ends, and every
  page of the kernel image, from \<open>physbase\<close> up to \<open>physfree\<close>, is mapped at its place above \<open>kernmem\<close>,
  provided the image stays within one 2 MB region (one page table).\<close>

lemma pagetable_init_spec:
  assumes "flist s [a..<b]" "0 < a" "a + 4 \<le> b" "b < 2 ^ 52"
    and "\<And>i. i < b \<Longrightarrow> page_addr (pages s i) = of_nat i * 4096"
    and "\<And>t i. a \<le> t \<Longrightarrow> t < b \<Longrightarrow> i < 512 \<Longrightarrow> \<not> present (pt_entry s (of_nat t * 4096) i)"
    and "unat (physfree s) \<le> unat physbase + 4096 * n" "unat physbase + 4096 * n < 2 ^ 64"
    and "unat kernmem mod 2 ^ 21 + 4096 * n \<le> 2 ^ 21"
  shows "\<exists>s'. pagetable_init kernmem physbase s = Some s' \<and> cr3 s' = pml4 s' \<and> physfree s' = physfree s \<and>
    (\<exists>own'. vm_wf own' [a + 4..<b] s' \<and> own' (pml4 s') = Some []) \<and>
    (\<forall>k. unat physbase + 4096 * k < unat (physfree s) \<longrightarrow>
       translate s' (pml4 s') (kernmem + of_nat k * 0x1000) =
         Some ((physbase + of_nat k * 0x1000) OR (PTE_P OR PTE_W OR PTE_U)))"
proof -
  define root where "root = (of_nat a * 4096 :: u64)"
  define s0 where "s0 = s\<lparr>free_list := nxt (pages s a), pml4 := root, cr3 := root\<rparr>"
  have fl: "flist s (a # [Suc a..<b])" using assms(1,3) by (simp add: upt_conv_Cons)
  then have al: "page_alloc_addr s = Some (root, s\<lparr>free_list := nxt (pages s a)\<rparr>)"
    using assms(3) assms(5) [of a]
    by (auto simp: page_alloc_addr_def page_alloc_def flist_def root_def)
  have e0: "pt_entry s0 t i = pt_entry s t i" for t i by (simp add: s0_def pt_entry_def)
  have wf: "vm_wf [root \<mapsto> []] [Suc a..<b] s0"
    by (rule vm_wf_fresh [where k = a])
       (use assms(2-6) fl in \<open>auto simp: e0 [unfolded s0_def root_def] root_def s0_def flist_def\<close>)
  have "[Suc a..<b] = Suc a # (a + 2) # (a + 3) # [a + 4..<b]"
    using assms(3) by (simp add: upt_conv_Cons eval_nat_numeral)
  note wf = wf [unfolded this]
  obtain t3 s1 t2 s2 t1 s3 own3 e where
    3: "pdpt_alloc s0 root (getPML4Index kernmem) = Some (t3, s1)"
      "pdt_alloc s1 t3 (getPDPTIndex kernmem) = Some (t2, s2)"
      "pt_alloc s2 t2 (getPDTIndex kernmem) = Some (t1, s3)" "t3 \<noteq> 0" "t2 \<noteq> 0" "t1 \<noteq> 0"
      "vm_wf own3 [a + 4..<b] s3" "same_but_mem s0 s3" "own3 root = Some []"
      "own3 t1 = Some (upath kernmem)" "walk s3 root (upath kernmem) = Some e" "get_address e = t1"
    by (rule fresh_tables [OF wf, where root = root and va = kernmem])
       (use assms(3) assms(6) [of a] in \<open>auto simp: e0 root_def\<close>)
  have ph: "physfree s3 = physfree s" using 3(8) by (simp add: same_but_mem_def s0_def)
  have up: "upath (page_from kernmem k) = upath kernmem" if "k < n" for k
    using region_upath(1) [of kernmem k] assms(9) that by simp
  define N where "N = (unat (physfree s) - unat physbase + 4095) div 4096"
  have N: "k < N \<longleftrightarrow> unat physbase + 4096 * k < unat (physfree s3)" for k
    unfolding N_def ph by (rule page_count)
  have Nn: "N \<le> n" using N [of n] assms(7) by (simp add: ph)
  have "unat physbase + 4096 * N < 2 ^ 64" "inj_on (\<lambda>k. vpath (page_from kernmem k)) {..<N}" "\<And>k. k < N \<Longrightarrow> upath (page_from kernmem k) = upath kernmem"
    using assms(8,9) Nn up by (auto intro!: region_inj)
  with pagetable_loop_spec [OF 3(7,9,10,11,12) _ N, of kernmem] obtain s' where
    4: "pagetable_loop s3 t1 kernmem physbase = Some s'" "vm_wf own3 [a + 4..<b] s'" "same_but_mem s3 s'"
      "maps_range own3 root kernmem N (\<lambda>k. page_from physbase k OR 7) s3 s'"
    by blast
  have "root \<noteq> 0" using page_number_inj [of a 0] assms(2-4) by (simp add: root_def)
  then have "pagetable_init kernmem physbase s = Some s'"
    using 3(1-6) 4(1) by (simp add: pagetable_init_def al s0_def)
  moreover have "pml4 s' = root" "cr3 s' = root" "physfree s' = physfree s"
    using 3(8) 4(3) by (simp_all add: same_but_mem_def s0_def)
  moreover have "translate s' root (page_from kernmem k) = Some (page_from physbase k OR 7)"
    if "unat physbase + 4096 * k < unat (physfree s)" for k
    by (rule maps_rangeD(1) [OF 4(4)]) (use N that ph in simp)
  ultimately show ?thesis using 4(2) 3(9) by (auto simp: page_from_def)
qed

subsection \<open>The memory manager at boot\<close>

lemma page_init_keeps:
  fixes s :: "'a alloc_scheme"
  shows "noofpages (page_init s) = noofpages s" "physfree (page_init s) = physfree s" "alloc.more (page_init s) = alloc.more s"
proof -
  have "noofpages (snd (fold (page_init_step m) is ps)) = noofpages (snd ps) \<and>
      physfree (snd (fold (page_init_step m) is ps)) = physfree (snd ps) \<and>
      alloc.more (snd (fold (page_init_step m) is ps)) = alloc.more (snd ps)" for m "is" and ps :: "nat option \<times> 'a alloc_scheme"
    by (induction "is" arbitrary: ps) (auto simp: page_init_step_def Let_def split: option.splits)
  then show "noofpages (page_init s) = noofpages s" "physfree (page_init s) = physfree s"
    "alloc.more (page_init s) = alloc.more s" by (simp_all add: page_init_def)
qed

lemma page_init_mem [simp]: "mem (page_init s) = mem s"
  using page_init_keeps(3) [of s] by (cases s; cases "page_init s") simp

text \<open>Low addresses, the kernel image and the screen lie under different upper tables.\<close>

lemma upath_low:
  assumes "unat a \<le> 0x500000"
  shows "hd (upath a) = 0"
proof -
  have "unat (getPML4Index a) = 0" using assms by (simp add: unat_index)
  then show ?thesis by (simp add: upath_def unsigned_eq_0_iff)
qed

lemma upath_high: "upath 0xFFFFFFFF80200000 = [511, 510, 1]" "upath 0xFFFFFFFF800B8000 = [511, 510, 0]"
  by (simp_all add: upath_def getPML4Index_def getPDPTIndex_def getPDTIndex_def)

lemma upath_kernel: "k < 512 \<Longrightarrow> upath (page_from 0xFFFFFFFF80200000 k) = [511, 510, 1]"
  using region_upath(1) [of "0xFFFFFFFF80200000" k] upath_high by simp

lemma vpath_neqI: "upath a \<noteq> upath b \<Longrightarrow> vpath a \<noteq> vpath b"
  by (auto simp: vpath_upath)

text \<open>The machine the kernel boots on: \<open>np\<close> pages of memory, the kernel image and what the loader put
  behind it end at \<open>pf\<close>, the last descriptor has a null link, and the pages that \<open>page_init\<close> makes free
  hold no word with its lowest bit set.\<close>

definition boot_memory :: "u32 \<Rightarrow> u64 \<Rightarrow> 'a vm_scheme \<Rightarrow> bool" where
  "boot_memory np pf s \<longleftrightarrow>
     (let s0 = s\<lparr>noofpages := np, physfree := pf\<rparr>; m = unat (page_init_memory s0); b = unat (noofpages_sz s0) in
      free_list s = None \<and> nxt (pages s (b - 1)) = None \<and> 0x200000 \<le> pf \<and> pf \<le> 0x400000 \<and>
      m + 2314 \<le> b \<and> b < 2 ^ 52 \<and>
      (\<forall>t i. m \<le> t \<longrightarrow> t < b \<longrightarrow> i < 512 \<longrightarrow> \<not> present (pt_entry s (of_nat t * 4096) i)))"

lemma boot_tables:
  assumes "boot_memory np pf s"
  obtains s2 own2 fl2 where "pagetable_init 0xFFFFFFFF80200000 0x200000 (page_init (s\<lparr>noofpages := np, physfree := pf\<rparr>)) = Some s2"
    "cr3 s2 = pml4 s2" "physfree s2 = pf" "vm_wf own2 fl2 s2" "own2 (pml4 s2) = Some []" "2310 \<le> length fl2"
    "\<And>k. 0x200000 + 4096 * k < unat pf \<Longrightarrow>
       translate s2 (pml4 s2) (page_from 0xFFFFFFFF80200000 k) = Some (page_from 0x200000 k OR 7)"
proof -
  define s0 where "s0 = s\<lparr>noofpages := np, physfree := pf\<rparr>"
  define m b where "m = unat (page_init_memory s0)" and "b = unat (noofpages_sz s0)"
  have h: "free_list s = None" "s0 = s\<lparr>noofpages := np, physfree := pf\<rparr>"
    "m = unat (page_init_memory s0)" "b = unat (noofpages_sz s0)" "nxt (pages s (b - 1)) = None"
    "0x200000 \<le> pf" "pf \<le> 0x400000" "m + 2314 \<le> b" "b < 2 ^ 52"
    "\<And>t i. m \<le> t \<Longrightarrow> t < b \<Longrightarrow> i < 512 \<Longrightarrow> \<not> present (pt_entry s (of_nat t * 4096) i)"
    using assms by (simp_all add: boot_memory_def Let_def s0_def m_def b_def)
  define s1 where "s1 = page_init s0"
  have pf: "0x200000 \<le> unat pf" "unat pf \<le> 0x400000" using h(6,7) by (simp_all add: word_le_nat_alt)
  have "physfree s0 = pf" by (simp add: h(2))
  then have "unat (physfree s0 + noofpages_sz s0 * 8) = unat pf + 8 * b"
    using pf(2) h(9) by (simp add: unat_word_ariths h(4))
  then have "0 < m" using pf(1) by (simp add: h(3) page_init_memory_def unat_div)
  moreover have "flist s1 [m..<b]"
    unfolding s1_def by (rule page_init_flist [OF _ h(3,4)]) (use h(1,2,5) in simp_all)
  moreover have "page_addr (pages s1 i) = of_nat i * 4096" if "i < b" for i
    unfolding s1_def by (rule page_init_addr) (use that h(1,2,4) in simp_all)
  moreover have "\<not> present (pt_entry s1 (of_nat t * 4096) i)" if "m \<le> t" "t < b" "i < 512" for t i
    using h(10) [OF that] by (simp add: s1_def pt_entry_def h(2))
  moreover have pf1: "physfree s1 = pf" by (simp add: s1_def page_init_keeps h(2))
  ultimately obtain s2 own2 where 2: "pagetable_init 0xFFFFFFFF80200000 0x200000 s1 = Some s2" "cr3 s2 = pml4 s2"
    "physfree s2 = pf" "vm_wf own2 [m + 4..<b] s2" "own2 (pml4 s2) = Some []"
    "\<And>k. 0x200000 + 4096 * k < unat pf \<Longrightarrow>
       translate s2 (pml4 s2) (page_from 0xFFFFFFFF80200000 k) = Some (page_from 0x200000 k OR 7)"
    using pagetable_init_spec [of s1 m b "0x200000" 512 "0xFFFFFFFF80200000"] h(8,9) pf
    by (auto simp: page_from_def)
  show thesis using that [OF 2(1) [unfolded s1_def h(2)] 2(2-5) _ 2(6)] h(8) by simp
qed

lemma mem_alloc_spec:
  assumes "boot_memory np pf s"
  shows "\<exists>s'. mem_alloc 0xFFFFFFFF80200000 0x200000 np pf s = Some s' \<and> CR3 s' = pml4 s' \<and>
    (\<exists>own fl. vm_wf own fl s' \<and> own (CR3 s') = Some []) \<and>
    (\<forall>k. 0x200000 + 4096 * k < unat pf \<longrightarrow>
       translate s' (CR3 s') (0xFFFFFFFF80200000 + of_nat k * 0x1000) =
         Some ((0x200000 + of_nat k * 0x1000) OR (PTE_P OR PTE_W OR PTE_U))) \<and>
    (\<forall>k. unat pf + 4096 * k \<le> 0x500000 \<longrightarrow>
       translate s' (CR3 s') (pf + of_nat k * 0x1000) = Some ((pf + of_nat k * 0x1000) OR (PTE_P OR PTE_W OR PTE_U))) \<and>
    translate s' (CR3 s') 0xFFFFFFFF800B8000 = Some (0xB8000 OR (PTE_P OR PTE_W OR PTE_U))"
proof -
  have pf: "0x200000 \<le> unat pf" "unat pf \<le> 0x400000"
    using assms by (simp_all add: boot_memory_def Let_def word_le_nat_alt)
  obtain s2 own2 fl2 where
    2: "pagetable_init 0xFFFFFFFF80200000 0x200000 (page_init (s\<lparr>noofpages := np, physfree := pf\<rparr>)) = Some s2"
      "cr3 s2 = pml4 s2" "physfree s2 = pf" "vm_wf own2 fl2 s2" "own2 (pml4 s2) = Some []" "2310 \<le> length fl2"
      "\<And>k. 0x200000 + 4096 * k < unat pf \<Longrightarrow>
         translate s2 (pml4 s2) (page_from 0xFFFFFFFF80200000 k) = Some (page_from 0x200000 k OR 7)"
    by (rule boot_tables [OF assms]) blast
  define n where "n = (0x500001 - unat pf + 4095) div 4096"
  have n: "k < n \<longleftrightarrow> unat pf + 4096 * k \<le> 0x500000" for k
    using page_count [of k "0x500001" "unat pf"] unfolding n_def by linarith
  have n3: "3 * n \<le> 2307" using pf(1) by (simp add: n_def)
  then have "3 * n \<le> length fl2" using 2(6) by simp
  then obtain s3 own3 fl3 where 3: "mapAllpages_loop s2 pf = Some s3" "vm_wf own3 fl3 s3" "own2 \<subseteq>\<^sub>m own3"
    "same_but_mem s2 s3" "length fl2 \<le> 3 * n + length fl3" "maps_range own2 (pml4 s2) pf n (\<lambda>k. page_from pf k OR 7) s2 s3"
    using mapAllpages_loop_spec [OF 2(4,5) _ n] by blast
  note 3 = 3(1-5) maps_rangeD [OF 3(6), unfolded n]
  have c3: "pml4 s3 = pml4 s2" "cr3 s3 = pml4 s2" using 3(4) 2(2) by (simp_all add: same_but_mem_def)
  have o3: "own3 (pml4 s2) = Some []" by (rule map_le_Some [OF 3(3) 2(5)])
  have l3: "3 \<le> length fl3" using 3(5) 2(6) n3 by simp
  obtain s4 own4 fl4 where 4: "map_at s3 (pml4 s2) 0xFFFFFFFF800B8000 0xB8000 = Some s4" "vm_wf own4 fl4 s4"
    "own3 \<subseteq>\<^sub>m own4" "same_but_mem s3 s4" "translate s4 (pml4 s2) 0xFFFFFFFF800B8000 = Some (0xB8000 OR 7)"
    "\<And>r va'. own3 r = Some [] \<Longrightarrow> vpath va' \<noteq> vpath 0xFFFFFFFF800B8000 \<Longrightarrow> translate s4 r va' = translate s3 r va'"
    by (rule map_at_spec [OF 3(2) o3 l3, where va = "0xFFFFFFFF800B8000" and pa = "0xB8000"]) blast
  have c4: "pml4 s4 = pml4 s2" "cr3 s4 = pml4 s2" using 4(4) c3 by (simp_all add: same_but_mem_def)
  have low: "upath (page_from pf k) \<noteq> 511 # q" if "unat pf + 4096 * k \<le> 0x500000" for k q
    using upath_low [of "page_from pf k"] that unat_page_from [of pf k] by auto
  have kern: "translate s4 (pml4 s2) (page_from 0xFFFFFFFF80200000 k) = Some (page_from 0x200000 k OR 7)"
    if "0x200000 + 4096 * k < unat pf" for k
  proof -
    have up: "upath (page_from 0xFFFFFFFF80200000 k) = [511, 510, 1]" using that pf by (intro upath_kernel) simp
    have "translate s4 (pml4 s2) (page_from 0xFFFFFFFF80200000 k) = translate s3 (pml4 s2) (page_from 0xFFFFFFFF80200000 k)"
      by (rule 4(6) [OF o3 vpath_neqI]) (simp add: up upath_high)
    also have "\<dots> = translate s2 (pml4 s2) (page_from 0xFFFFFFFF80200000 k)"
      by (rule 3(7) [OF 2(5)]) (use low up in \<open>metis vpath_neqI\<close>)
    finally show ?thesis using 2(7) that by simp
  qed
  have ident: "translate s4 (pml4 s2) (page_from pf k) = Some (page_from pf k OR 7)" if "unat pf + 4096 * k \<le> 0x500000" for k
    using 4(6) [OF o3 vpath_neqI] low [OF that] 3(6) [OF that] by (simp add: upath_high)
  have l4: "translate (load_CR3 s4) r va = translate s4 r va" for r va
    by (rule translate_mem_cong) (simp add: load_CR3_def)
  have "vm_wf own4 fl4 (load_CR3 s4) = vm_wf own4 fl4 s4" by (rule vm_wf_cong) (simp_all add: load_CR3_def)
  moreover have "mem_alloc 0xFFFFFFFF80200000 0x200000 np pf s = Some (load_CR3 s4)"
    using 2(1,3) 3(1) 4(1) c3 by (simp add: mem_alloc_def mapAllpages_def map_virt_address_def)
  ultimately show ?thesis
    using kern ident 4(2,5) map_le_Some [OF 4(3) o3] c4
    by (intro exI [of _ "load_CR3 s4"]) (auto simp: l4 page_from_def, auto simp: load_CR3_def)
qed


subsection \<open>Witnesses\<close>

lemma demo_vm_wf_Cons: "vm_wf [0x1000 \<mapsto> []] (2 # [3..<16]) demo_vm"
  using demo_vm_wf by (simp only: upt_conv_Cons) simp

theorem set_user_AddrSpace_copies_witness:
  "\<exists>r s'. set_user_AddrSpace demo_vm = Some (r, s') \<and>
     translate s' r 0x400000 = translate demo_vm 0x1000 0x400000"
  using set_user_AddrSpace_copies [OF demo_vm_wf_Cons] by auto

theorem user_mapping_leaks_into_kernel_witness:
  "\<exists>s r s' s''. map_process demo_vm 0x400000 0x7000 = Some s \<and>
     set_user_AddrSpace s = Some (r, s') \<and>
     map_process (set_CR3 s' r) 0x600000 0x9000 = Some s'' \<and>
     translate s'' (CR3 s) 0x600000 = Some 0x9007"
proof -
  have own: "[0x1000 \<mapsto> []] (CR3 demo_vm) = Some []" by simp
  have len: "3 \<le> length [2..<16]" by simp
  obtain s own fl where
    1: "map_at demo_vm (CR3 demo_vm) 0x400000 0x7000 = Some s" "vm_wf own fl s"
      "[0x1000 \<mapsto> []] \<subseteq>\<^sub>m own" "same_but_mem demo_vm s" "length [2..<16] \<le> 3 + length fl"
      "translate s (CR3 demo_vm) 0x400000 = Some (0x7000 OR 7)"
    by (rule map_at_spec [OF demo_vm_wf own len, of "0x400000" "0x7000"])
  have c: "CR3 s = 0x1000" using 1(4) by (simp add: same_but_mem_def)
  have o: "own (CR3 s) = Some []" using 1(3) c by (simp add: map_le_Some)
  have "length fl \<ge> 11" using 1(5) by simp
  then obtain x xs where fl: "fl = x # xs" "3 \<le> length xs" by (cases fl) auto
  have "present (pt_entry s (CR3 s) (getPML4Index 0x400000))"
    using 1(6) c by (auto simp: translate_def vpath_def split: if_splits)
  moreover have "getPML4Index 0x400000 = getPML4Index 0x600000" by (simp add: getPML4Index_def)
  ultimately have "present (pt_entry s (CR3 s) (getPML4Index 0x600000))" by simp
  from user_mapping_leaks_into_kernel [OF 1(2)[unfolded fl(1)] o fl(2) this, of "0x9000"] 1(1)
  show ?thesis by (auto simp: map_process_def get_CR3_def)
qed

text \<open>A machine with 8192 pages of cleared memory.\<close>

definition demo_ram :: vm where
  "demo_ram = \<lparr>pages = \<lambda>_. \<lparr>nxt = None, refer_cnt = 0, page_addr = 0\<rparr>, free_list = None,
     noofpages = 0, physfree = 0, mem = \<lambda>_. 0, CR3 = 0, pml4 = 0, cr3 = 0\<rparr>"

lemma demo_ram_boots: "boot_memory 8192 0x300000 demo_ram"
proof -
  let ?s = "demo_ram\<lparr>noofpages := 8192, physfree := 0x300000\<rparr>"
  have m: "784 = unat (page_init_memory ?s)" "8192 = unat (noofpages_sz ?s)"
    by (simp_all add: page_init_memory_def noofpages_sz_def)
  have e: "\<not> present (pt_entry demo_ram t i)" for t i
    by (simp add: demo_ram_def pt_entry_def present_def)
  have d: "free_list demo_ram = None" "nxt (pages demo_ram i) = None" for i by (simp_all add: demo_ram_def)
  show ?thesis using d e by (simp add: boot_memory_def Let_def m [symmetric])
qed


end
