(* ===== verification/Task.thy ===== *)
theory Task
  imports AddrSpace
begin

unbundle bit_operations_syntax

text \<open>
  Tasks and the scheduler of \<^verbatim>\<open>sys/task.c\<close> and \<^verbatim>\<open>include/sys/task.h\<close>: the process table,
  the task list and its rotation, the choice of the next task and the context switch.

  A \<^verbatim>\<open>Task *\<close> is the address \<open>kmalloc\<close> returned (\<open>None\<close> for \<open>NULL\<close>), and the heap of task
  structures maps such an address to the fields. The array \<^verbatim>\<open>kstack\<close> is not among the
  fields: the stacks are read and written by address (pushes and pops), so they live in the
  word memory \<open>mem\<close> at the place the structure gives them.
\<close>

record Registers =
  r_rax :: u64 r_rbx :: u64 r_rcx :: u64 r_rdx :: u64 r_rsi :: u64 r_rdi :: u64
  r_rsp :: u64 r_rbp :: u64 r_rip :: u64 r_rflags :: u64 r_cr3 :: u64

record vma_struct =
  vma_start :: u64
  vma_end :: u64
  vma_next :: "u64 option"
  vma_flags :: u64
  vma_type :: u64
  vm_memsz :: u64
  vm_offset :: u64
  vm_file :: u64

record Task =
  regs :: Registers
  task_name :: string
  pid :: u16
  ppid :: u16
  state :: u16
  pml4e_addr :: u64
  cwd :: string
  task_next :: "u64 option"
  vma :: "u64 option"
  ustack :: u64
  task_rsp :: u64
  task_cr3 :: u64
  task_rip :: u64
  entry_pt :: u64
  kernel_rsp :: u64

abbreviation TASK_WAITING :: u16 where "TASK_WAITING \<equiv> 0"
abbreviation TASK_RUNNING :: u16 where "TASK_RUNNING \<equiv> 1"
abbreviation TASK_ENDED :: u16 where "TASK_ENDED \<equiv> 2"
abbreviation TASK_ZOMBIE :: u16 where "TASK_ZOMBIE \<equiv> 3"

text \<open>The layout of the structure: its size and the byte offsets of the fields that the code
  (or the processor) reaches by address.\<close>

abbreviation sizeof_Task :: u64 where "sizeof_Task \<equiv> 4456"
abbreviation off_task_cr3 :: u64 where "off_task_cr3 \<equiv> 4424"
abbreviation off_kernel_rsp :: u64 where "off_kernel_rsp \<equiv> 4448"

definition kstack_addr :: "u64 \<Rightarrow> u64 \<Rightarrow> u64" where
  "kstack_addr t i = t + 312 + 8 * i"

text \<open>What the task code prints.\<close>

datatype event =
  Ps_header
| Ps_line u16 u16 string string
| Killed u16

text \<open>The registers the switch code and the interrupt entry save and restore.\<close>

record cpu =
  rax :: u64 rbx :: u64 rcx :: u64 rdx :: u64 rsi :: u64 rdi :: u64
  rbp :: u64 r8 :: u64 r9 :: u64
  rsp :: u64 rip :: u64 cs :: u64 rflags :: u64 ss :: u64

record kernel = vm +
  tasks :: "u64 \<Rightarrow> Task"
  vmas :: "u64 \<Rightarrow> vma_struct"
  processID :: "nat \<Rightarrow> u32"
  current :: "u64 option"
  currentRunningTask :: "u64 option"
  runningTask :: "u64 option"
  from_task :: "u64 option"
  to_task :: "u64 option"
  tss_rsp0 :: u64
  cpu_state :: cpu
  kout :: "event list"

definition upd_task :: "u64 \<Rightarrow> (Task \<Rightarrow> Task) \<Rightarrow> 'a kernel_scheme \<Rightarrow> 'a kernel_scheme" where
  "upd_task t f s = s\<lparr>tasks := (tasks s)(t := f (tasks s t))\<rparr>"

definition emit :: "event \<Rightarrow> 'a kernel_scheme \<Rightarrow> 'a kernel_scheme" where
  "emit e s = s\<lparr>kout := kout s @ [e]\<rparr>"

subsection \<open>Process numbers\<close>

fun getProcessID_loop :: "'a kernel_scheme \<Rightarrow> nat list \<Rightarrow> u32 \<times> 'a kernel_scheme" where
  "getProcessID_loop s [] = (- 1, s)"
| "getProcessID_loop s (i # is) =
     (if processID s i = 0 then (of_nat i, s\<lparr>processID := (processID s)(i := 1)\<rparr>)
      else getProcessID_loop s is)"

definition getProcessID :: "'a kernel_scheme \<Rightarrow> u32 \<times> 'a kernel_scheme" where
  "getProcessID s = getProcessID_loop s [1..<100]"

definition init_process_map :: "'a kernel_scheme \<Rightarrow> 'a kernel_scheme" where
  "init_process_map s = fold (\<lambda>id s. s\<lparr>processID := (processID s)(id := 0)\<rparr>) [1..<100] s"

subsection \<open>The task list\<close>

partial_function (option) moveProcessToEnd_loop ::
    "'a kernel_scheme \<Rightarrow> u64 \<Rightarrow> u64 \<Rightarrow> (u64 \<times> 'a kernel_scheme) option" where
  "moveProcessToEnd_loop s element lst =
     (case task_next (tasks s lst) of
        None \<Rightarrow> Some (lst, s)
      | Some n \<Rightarrow>
          let s = (if n = element then upd_task lst (task_next_update (\<lambda>_. task_next (tasks s n))) s
                   else s)
          in (case task_next (tasks s lst) of
                None \<Rightarrow> None
              | Some l \<Rightarrow> moveProcessToEnd_loop s element l))"

definition moveProcessToEnd :: "'a kernel_scheme \<Rightarrow> u64 \<Rightarrow> 'a kernel_scheme option" where
  "moveProcessToEnd s element = do {
     lst \<leftarrow> current s;
     (lst, s) \<leftarrow> moveProcessToEnd_loop s element lst;
     let s = upd_task lst (task_next_update (\<lambda>_. Some element)) s;
     Some (upd_task element (task_next_update (\<lambda>_. None)) s) }"

partial_function (option) addProcessToList_loop ::
    "'a kernel_scheme \<Rightarrow> u64 \<Rightarrow> u64 \<Rightarrow> 'a kernel_scheme option" where
  "addProcessToList_loop s newTask currentPtr =
     (case task_next (tasks s currentPtr) of
        None \<Rightarrow> Some (upd_task currentPtr (task_next_update (\<lambda>_. Some newTask)) s)
      | Some n \<Rightarrow> addProcessToList_loop s newTask n)"

definition addProcessToList :: "'a kernel_scheme \<Rightarrow> u64 \<Rightarrow> 'a kernel_scheme option" where
  "addProcessToList s newTask = do {
     cur \<leftarrow> current s;
     if task_next (tasks s cur) = None
     then Some (upd_task cur (task_next_update (\<lambda>_. Some newTask)) s)
     else addProcessToList_loop s newTask cur }"

partial_function (option) getNextWaitingTask_loop ::
    "'a kernel_scheme \<Rightarrow> u64 option \<Rightarrow> (u64 option \<times> 'a kernel_scheme) option" where
  "getNextWaitingTask_loop s nxtTask =
     (case nxtTask of
        None \<Rightarrow> Some (None, s)
      | Some t \<Rightarrow>
          if state (tasks s t) = TASK_WAITING then do {
            s \<leftarrow> moveProcessToEnd s t;
            Some (Some t, s) }
          else getNextWaitingTask_loop s (task_next (tasks s t)))"

definition getNextWaitingTask :: "'a kernel_scheme \<Rightarrow> (u64 option \<times> 'a kernel_scheme) option" where
  "getNextWaitingTask s = do {
     cur \<leftarrow> current s;
     getNextWaitingTask_loop s (task_next (tasks s cur)) }"

partial_function (option) getTaskForPID_loop ::
    "'a kernel_scheme \<Rightarrow> u32 \<Rightarrow> u64 option \<Rightarrow> u64 option option" where
  "getTaskForPID_loop s p cur =
     (case cur of
        None \<Rightarrow> Some None
      | Some t \<Rightarrow> if ucast (pid (tasks s t)) = p then Some (Some t)
                 else getTaskForPID_loop s p (task_next (tasks s t)))"

definition getTaskForPID :: "'a kernel_scheme \<Rightarrow> u32 \<Rightarrow> u64 option option" where
  "getTaskForPID s p = getTaskForPID_loop s p (current s)"

subsection \<open>The context switch\<close>

text \<open>Pushes and pops on the current stack. Nothing here faults: the stacks are kernel memory.\<close>

definition push :: "u64 \<Rightarrow> 'a kernel_scheme \<Rightarrow> 'a kernel_scheme" where
  "push v s = s\<lparr>cpu_state := (cpu_state s)\<lparr>rsp := rsp (cpu_state s) - 8\<rparr>,
                 mem := (mem s)(rsp (cpu_state s) - 8 := v)\<rparr>"

definition pop :: "(u64 \<Rightarrow> cpu \<Rightarrow> cpu) \<Rightarrow> 'a kernel_scheme \<Rightarrow> 'a kernel_scheme" where
  "pop put s = s\<lparr>cpu_state := put (mem s (rsp (cpu_state s)))
                   ((cpu_state s)\<lparr>rsp := rsp (cpu_state s) + 8\<rparr>)\<rparr>"

definition save_regs :: "'a kernel_scheme \<Rightarrow> 'a kernel_scheme" where
  "save_regs s =
     (let c = cpu_state s in
      push (rdi c) (push (rsi c) (push (rdx c) (push (rcx c) (push (rbx c) (push (rax c) s))))))"

definition restore_regs :: "'a kernel_scheme \<Rightarrow> 'a kernel_scheme" where
  "restore_regs s =
     pop (\<lambda>v. rip_update (\<lambda>_. v)) (pop (\<lambda>v. rax_update (\<lambda>_. v)) (pop (\<lambda>v. rbx_update (\<lambda>_. v))
       (pop (\<lambda>v. rcx_update (\<lambda>_. v)) (pop (\<lambda>v. rdx_update (\<lambda>_. v))
         (pop (\<lambda>v. rsi_update (\<lambda>_. v)) (pop (\<lambda>v. rdi_update (\<lambda>_. v)) s))))))"

text \<open>\<open>switchTask\<close>, statement by statement. The registers pushed are those at the pushes; the
  compiled code of the assignments before them is not modelled.\<close>

definition switchTask :: "'a kernel_scheme \<Rightarrow> 'a kernel_scheme option" where
  "switchTask s = do {
     let s = s\<lparr>cpu_state := (cpu_state s)\<lparr>rsp := rsp (cpu_state s) + 8\<rparr>\<rparr>;
     t \<leftarrow> to_task s;
     let s = s\<lparr>currentRunningTask := Some t\<rparr>;
     let s = upd_task t (state_update (\<lambda>_. TASK_RUNNING)) s;
     f \<leftarrow> from_task s;
     let s = (if state (tasks s f) \<noteq> TASK_ENDED then upd_task f (state_update (\<lambda>_. TASK_WAITING)) s
              else s);
     let s = set_CR3 s (task_cr3 (tasks s t));
     let s = save_regs s;
     let s = upd_task f (kernel_rsp_update (\<lambda>_. rsp (cpu_state s))) s;
     let s = s\<lparr>cpu_state := (cpu_state s)\<lparr>rsp := kernel_rsp (tasks s t)\<rparr>\<rparr>;
     Some (restore_regs s) }"

definition yield :: "'a kernel_scheme \<Rightarrow> 'a kernel_scheme option" where
  "yield s = do {
     (nextTask, s) \<leftarrow> getNextWaitingTask s;
     if nextTask \<noteq> None then switchTask (s\<lparr>from_task := current s, to_task := nextTask\<rparr>)
     else Some s }"

subsection \<open>Operations on tasks\<close>

definition getTaskState :: "u64 \<Rightarrow> string" where
  "getTaskState st =
     (if st = 0 then ''TASK_WAITING'' else if st = 1 then ''TASK_RUNNING''
      else if st = 3 then ''ZOMBIE STATE'' else if st = 4 then ''WAITING FOR CHILD''
      else ''Unknown Status'')"

partial_function (option) proc_ps_loop ::
    "'a kernel_scheme \<Rightarrow> u64 option \<Rightarrow> 'a kernel_scheme option" where
  "proc_ps_loop s cur =
     (case cur of
        None \<Rightarrow> Some s
      | Some t \<Rightarrow>
          let k = tasks s t;
              s = (if length (task_name k) \<noteq> 0 \<and> state k \<noteq> TASK_ENDED
                   then emit (Ps_line (pid k) (ppid k) (task_name k) (getTaskState (ucast (state k)))) s
                   else s)
          in proc_ps_loop s (task_next (tasks s t)))"

definition proc_ps :: "'a kernel_scheme \<Rightarrow> 'a kernel_scheme option" where
  "proc_ps s = proc_ps_loop (emit Ps_header s) (current s)"

partial_function (option) find_pid ::
    "'a kernel_scheme \<Rightarrow> u64 \<Rightarrow> u64 option \<Rightarrow> u64 option option" where
  "find_pid s p cur =
     (case cur of
        None \<Rightarrow> Some None
      | Some t \<Rightarrow> if ucast (pid (tasks s t)) = p then Some (Some t)
                 else find_pid s p (task_next (tasks s t)))"

definition killprocess :: "'a kernel_scheme \<Rightarrow> u64 \<Rightarrow> 'a kernel_scheme option" where
  "killprocess s p = do {
     cur \<leftarrow> find_pid s p (current s);
     let s = (case cur of
                None \<Rightarrow> s
              | Some t \<Rightarrow> emit (Killed (pid (tasks s t))) (upd_task t (state_update (\<lambda>_. TASK_ENDED)) s));
     s \<leftarrow> proc_ps s;
     yield s }"

definition syss_exit :: "'a kernel_scheme \<Rightarrow> 'a kernel_scheme option" where
  "syss_exit s = do {
     t \<leftarrow> currentRunningTask s;
     yield (upd_task t (state_update (\<lambda>_. TASK_ZOMBIE)) s) }"

definition SYSS_getcwd :: "'a kernel_scheme \<Rightarrow> string option" where
  "SYSS_getcwd s = map_option (\<lambda>t. cwd (tasks s t)) (currentRunningTask s)"

text \<open>\<open>strcpy\<close> into a field of \<open>cap\<close> bytes: undefined when the string and its terminator do not
  fit.\<close>

definition strcpy_field :: "nat \<Rightarrow> string \<Rightarrow> string option" where
  "strcpy_field cap str = (if length str < cap then Some str else None)"

definition SYSS_changedir :: "'a kernel_scheme \<Rightarrow> string \<Rightarrow> 'a kernel_scheme option" where
  "SYSS_changedir s path = do {
     t \<leftarrow> currentRunningTask s;
     if length path = 0 then do {
       c \<leftarrow> strcpy_field 128 ''''; Some (upd_task t (cwd_update (\<lambda>_. c)) s) }
     else do {
       c \<leftarrow> strcpy_field 128 path; Some (upd_task t (cwd_update (\<lambda>_. c)) s) } }"

text \<open>\<open>SYSS_waitpid\<close> continues after each \<open>yield\<close> when the caller is switched back to;
  \<open>others\<close> is what the other tasks do to the state in between.\<close>

partial_function (option) SYSS_waitpid_loop ::
    "('a kernel_scheme \<Rightarrow> 'a kernel_scheme option) \<Rightarrow> 'a kernel_scheme \<Rightarrow> u32 \<Rightarrow> u64 option
      \<Rightarrow> 'a kernel_scheme option" where
  "SYSS_waitpid_loop others s p cur =
     (case cur of
        None \<Rightarrow> Some s
      | Some c \<Rightarrow> do {
          s \<leftarrow> (if length (task_name (tasks s c)) \<noteq> 0 \<and> (ucast (ppid (tasks s c)) :: u64) = scast p \<and>
                  state (tasks s c) = TASK_RUNNING
               then do {
                 parent \<leftarrow> getTaskForPID s p;
                 q \<leftarrow> parent;
                 s \<leftarrow> yield (upd_task q (state_update (\<lambda>_. TASK_WAITING)) s);
                 others s }
               else Some s);
          SYSS_waitpid_loop others s p (task_next (tasks s c)) })"

definition SYSS_waitpid ::
    "('a kernel_scheme \<Rightarrow> 'a kernel_scheme option) \<Rightarrow> 'a kernel_scheme \<Rightarrow> u32
      \<Rightarrow> 'a kernel_scheme option" where
  "SYSS_waitpid others s p = SYSS_waitpid_loop others s p (current s)"

text \<open>\<open>set_tss_rsp\<close> of \<^verbatim>\<open>sys/gdt.c\<close>.\<close>

definition set_tss_rsp :: "u64 \<Rightarrow> 'a kernel_scheme \<Rightarrow> 'a kernel_scheme" where
  "set_tss_rsp v s = s\<lparr>tss_rsp0 := v\<rparr>"

text \<open>The jump to ring 3: the frame pushed for \<open>iretq\<close> is popped by it at once, into \<open>rip\<close>,
  \<open>cs\<close>, \<open>rflags\<close>, \<open>rsp\<close> and \<open>ss\<close>.\<close>

definition iretq :: "'a kernel_scheme \<Rightarrow> 'a kernel_scheme" where
  "iretq s =
     (let a = rsp (cpu_state s) in
      s\<lparr>cpu_state := (cpu_state s)\<lparr>rip := mem s a, cs := mem s (a + 8), rflags := mem s (a + 16),
                        rsp := mem s (a + 24), ss := mem s (a + 32)\<rparr>\<rparr>)"

definition jump_to_user_mode :: "'a kernel_scheme \<Rightarrow> u64 \<Rightarrow> 'a kernel_scheme option" where
  "jump_to_user_mode s user_process =
     (let s = s\<lparr>currentRunningTask := Some user_process\<rparr>;
          s = upd_task user_process (state_update (\<lambda>_. TASK_RUNNING)) s;
          funcadd = task_rip (tasks s user_process);
          s = set_tss_rsp (kstack_addr user_process 511) s;
          s = s\<lparr>CR3 := task_cr3 (tasks s user_process)\<rparr>;
          s = s\<lparr>cpu_state := (cpu_state s)\<lparr>rax := task_rsp (tasks s user_process)\<rparr>\<rparr>;
          s = push 0x23 s;
          s = push (rax (cpu_state s)) s;
          s = push (rflags (cpu_state s)) s;
          s = push 0x2B s;
          s = push funcadd s
      in Some (iretq s))"

definition create_init_process :: "u64 \<Rightarrow> 'a kernel_scheme \<Rightarrow> 'a kernel_scheme option" where
  "create_init_process otherMain s = do {
     (t, s) \<leftarrow> kmalloc s sizeof_Task;
     name \<leftarrow> strcpy_field 64 ''Init Task'';
     let s = upd_task t (task_name_update (\<lambda>_. name)) s;
     let (n, s) = getProcessID s;
     let s = upd_task t (\<lambda>k. k\<lparr>pid := ucast n, ppid := 0, task_next := None, task_cr3 := get_CR3 s\<rparr>) s;
     let s = upd_task t (kernel_rsp_update (\<lambda>_. mem s (kstack_addr t 511))) s;
     let s = s\<lparr>mem := (mem s)(kstack_addr t (511 - 6) := otherMain)\<rparr>;
     let s = upd_task t (state_update (\<lambda>_. TASK_WAITING)) s;
     Some (s\<lparr>current := Some t\<rparr>) }"

definition createTask ::
    "'a kernel_scheme \<Rightarrow> u64 \<Rightarrow> u64 \<Rightarrow> u64 \<Rightarrow> u64 \<Rightarrow> 'a kernel_scheme option" where
  "createTask s task otherMain flags pagedir = do {
     let s = upd_task task (regs_update (\<lambda>r. r\<lparr>r_rax := 0, r_rbx := 0, r_rcx := 0, r_rdx := 0,
                r_rsi := 0, r_rdi := 0, r_rflags := flags, r_rip := otherMain, r_cr3 := pagedir\<rparr>)) s;
     (a, s) \<leftarrow> page_alloc_addr s;
     let s = upd_task task (regs_update (\<lambda>r. r\<lparr>r_rsp := a + 0xFA0\<rparr>)) s;
     let s = upd_task task (task_next_update (\<lambda>_. None)) s;
     Some (s\<lparr>mem := (mem s)(r_rsp (regs (tasks s task)) + 0x30 := r_rip (regs (tasks s task)))\<rparr>) }"

text \<open>\<open>mainTask\<close> and \<open>otherTask\<close> are the addresses of the two static tasks.\<close>

definition initTasking :: "u64 \<Rightarrow> u64 \<Rightarrow> u64 \<Rightarrow> 'a kernel_scheme \<Rightarrow> 'a kernel_scheme option" where
  "initTasking mainTask otherTask otherMain s = do {
     let s = upd_task mainTask (regs_update (\<lambda>r. r\<lparr>r_cr3 := get_CR3 s\<rparr>)) s;
     let s = upd_task mainTask (regs_update (\<lambda>r. r\<lparr>r_rflags := rflags (cpu_state s)\<rparr>)) s;
     s \<leftarrow> createTask s otherTask otherMain (r_rflags (regs (tasks s mainTask)))
            (r_cr3 (regs (tasks s mainTask)));
     let s = upd_task mainTask (task_next_update (\<lambda>_. Some otherTask)) s;
     let s = upd_task otherTask (task_next_update (\<lambda>_. Some mainTask)) s;
     Some (s\<lparr>runningTask := Some mainTask\<rparr>) }"

subsection \<open>The task list as a queue\<close>

abbreviation nexts :: "'a kernel_scheme \<Rightarrow> u64 \<Rightarrow> u64 option" where
  "nexts s \<equiv> (\<lambda>a. task_next (tasks s a))"

definition tlist :: "'a kernel_scheme \<Rightarrow> u64 list \<Rightarrow> bool" where
  "tlist s xs \<longleftrightarrow> xs \<noteq> [] \<and> chain (nexts s) (current s) xs"

text \<open>Two states that differ at most in the links between tasks.\<close>

definition same_but_links :: "'a kernel_scheme \<Rightarrow> 'a kernel_scheme \<Rightarrow> bool" where
  "same_but_links s s' \<longleftrightarrow> (\<exists>f. s' = s\<lparr>tasks := \<lambda>a. (tasks s a)\<lparr>task_next := f a\<rparr>\<rparr>)"

lemma upd_task_sel [simp]:
  "tasks (upd_task t f s) = (tasks s)(t := f (tasks s t))" "current (upd_task t f s) = current s"
  "mem (upd_task t f s) = mem s" "cpu_state (upd_task t f s) = cpu_state s"
  "CR3 (upd_task t f s) = CR3 s" "currentRunningTask (upd_task t f s) = currentRunningTask s"
  "from_task (upd_task t f s) = from_task s" "to_task (upd_task t f s) = to_task s"
  "tss_rsp0 (upd_task t f s) = tss_rsp0 s" "kout (upd_task t f s) = kout s"
  "processID (upd_task t f s) = processID s"
  by (simp_all add: upd_task_def)

lemma nexts_upd: "nexts (upd_task t (task_next_update (\<lambda>_. v)) s) = (nexts s)(t := v)"
  by (rule ext) simp

lemma same_but_links_upd: "same_but_links s (upd_task t (task_next_update (\<lambda>_. v)) s)"
  unfolding same_but_links_def upd_task_def
  by (rule exI [of _ "\<lambda>a. if a = t then v else task_next (tasks s a)"], rule kernel.equality)
     (auto simp: fun_eq_iff)

lemma same_but_links_refl [simp]: "same_but_links s s"
  using same_but_links_upd [of s undefined "task_next (tasks s undefined)"]
  by (simp add: upd_task_def)

lemma same_but_links_trans:
  "same_but_links s s' \<Longrightarrow> same_but_links s' s'' \<Longrightarrow> same_but_links s s''"
  by (auto simp: same_but_links_def)

lemma same_but_linksD:
  assumes "same_but_links s s'"
  shows "current s' = current s" "state (tasks s' t) = state (tasks s t)"
    "task_cr3 (tasks s' t) = task_cr3 (tasks s t)" "kernel_rsp (tasks s' t) = kernel_rsp (tasks s t)"
    "mem s' = mem s" "cpu_state s' = cpu_state s" "CR3 s' = CR3 s"
    "currentRunningTask s' = currentRunningTask s" "pid (tasks s' t) = pid (tasks s t)"
    "task_name (tasks s' t) = task_name (tasks s t)" "ppid (tasks s' t) = ppid (tasks s t)"
  using assms by (auto simp: same_but_links_def)

lemma move_loop_absent:
  assumes "chain (nexts s) (Some p) (p # ys)" "e \<notin> set ys"
  shows "moveProcessToEnd_loop s e p = Some (last (p # ys), s)"
  using assms
  by (induction ys arbitrary: p) (subst moveProcessToEnd_loop.simps; auto)+

lemma move_loop_present:
  assumes "chain (nexts s) (Some p) (p # us @ e # v # vs)" "e \<notin> set (p # us)"
  shows "moveProcessToEnd_loop s e p =
    Some (last (v # vs), upd_task (last (p # us)) (task_next_update (\<lambda>_. Some v)) s)"
  using assms
proof (induction us arbitrary: p)
  case Nil
  let ?s = "upd_task p (task_next_update (\<lambda>_. Some v)) s"
  from Nil.prems(1) have c: "task_next (tasks s p) = Some e" "task_next (tasks s e) = Some v"
    "chain (nexts s) (Some v) (v # vs)" by simp_all
  have d: "distinct (p # e # v # vs)" using chain_distinct [OF Nil.prems(1)] by simp
  have "chain (nexts ?s) (Some v) (v # vs)"
    using c(3) d chain_upd_notin [of p "v # vs" "nexts s"] unfolding nexts_upd by (auto simp del: chain.simps)
  then have "moveProcessToEnd_loop ?s e v = Some (last (v # vs), ?s)"
    using d by (intro move_loop_absent) auto
  with c(1,2) d show ?case by (subst moveProcessToEnd_loop.simps) (simp add: Let_def)
next
  case (Cons u us)
  then have "moveProcessToEnd_loop s e u =
    Some (last (v # vs), upd_task (last (u # us)) (task_next_update (\<lambda>_. Some v)) s)" by simp
  with Cons.prems show ?case by (subst moveProcessToEnd_loop.simps) (auto simp: Let_def)
qed

lemma move_loop_last:
  assumes "chain (nexts s) (Some p) (p # us @ [e])" "e \<notin> set (p # us)"
  shows "moveProcessToEnd_loop s e p = None"
  using assms
  by (induction us arbitrary: p) (subst moveProcessToEnd_loop.simps; auto simp: Let_def)+

lemma moveProcessToEnd_middle:
  assumes "tlist s (p # us @ e # vs)" "vs \<noteq> []"
  shows "\<exists>s'. moveProcessToEnd s e = Some s' \<and> tlist s' (p # us @ vs @ [e]) \<and> same_but_links s s'"
proof -
  from assms obtain v vs' where vs: "vs = v # vs'" by (cases vs) auto
  have c: "chain (nexts s) (current s) ((p # us) @ e # vs)" and p: "current s = Some p"
    using assms by (auto simp: tlist_def)
  note d = chain_distinct [OF c]
  define s1 where "s1 = upd_task (last (p # us)) (task_next_update (\<lambda>_. Some v)) s"
  define s2 where "s2 = upd_task (last vs) (task_next_update (\<lambda>_. Some e)) s1"
  define s3 where "s3 = upd_task e (task_next_update (\<lambda>_. None)) s2"
  have "moveProcessToEnd_loop s e p = Some (last (v # vs'), s1)"
    unfolding s1_def using c d p vs by (intro move_loop_present) auto
  then have 1: "moveProcessToEnd s e = Some s3"
    unfolding moveProcessToEnd_def s3_def s2_def by (simp add: p vs Let_def)
  have "task_next (tasks s e) = Some v"
    using chain_suffix [OF c] vs by simp
  then have "nexts s3 = (nexts s)(last (p # us) := nexts s e, last vs := Some e, e := None)"
    unfolding s3_def s2_def s1_def nexts_upd by simp
  then have "chain (nexts s3) (current s) ((p # us) @ vs @ [e])"
    using chain_to_end [OF c] assms(2) by simp
  moreover have "current s3 = current s" by (simp add: s3_def s2_def s1_def)
  ultimately have 2: "tlist s3 (p # us @ vs @ [e])" by (simp add: tlist_def)
  have "same_but_links s s3" unfolding s3_def s2_def s1_def
    by (rule same_but_links_trans [OF same_but_links_trans [OF same_but_links_upd same_but_links_upd]
          same_but_links_upd])
  with 1 2 show ?thesis by blast
qed

lemma moveProcessToEnd_last:
  assumes "tlist s (p # us @ [e])"
  shows "moveProcessToEnd s e = None"
proof -
  have c: "chain (nexts s) (Some p) (p # us @ [e])" and p: "current s = Some p"
    using assms by (auto simp: tlist_def)
  have "moveProcessToEnd_loop s e p = None"
    using chain_distinct [OF c] by (intro move_loop_last [OF c]) auto
  with p show ?thesis by (simp add: moveProcessToEnd_def)
qed

lemma add_loop_spec:
  assumes "chain (nexts s) (Some p) (p # ys)"
  shows "addProcessToList_loop s t p =
    Some (upd_task (last (p # ys)) (task_next_update (\<lambda>_. Some t)) s)"
  using assms
  by (induction ys arbitrary: p) (subst addProcessToList_loop.simps; auto)+

lemma addProcessToList_next:
  assumes "tlist s xs" "t \<notin> set xs" "task_next (tasks s t) = None"
  shows "\<exists>s'. addProcessToList s t = Some s' \<and> tlist s' (xs @ [t]) \<and>
    s' = upd_task (last xs) (task_next_update (\<lambda>_. Some t)) s"
proof -
  from assms(1) obtain p ys where xs: "xs = p # ys" and p: "current s = Some p"
    and c: "chain (nexts s) (Some p) (p # ys)" by (cases xs) (auto simp: tlist_def)
  let ?s = "upd_task (last xs) (task_next_update (\<lambda>_. Some t)) s"
  have "addProcessToList s t = Some ?s"
    using add_loop_spec [OF c, of t] c by (cases ys) (auto simp: addProcessToList_def p xs)
  moreover have "chain (nexts ?s) (Some p) (xs @ [t])"
    unfolding nexts_upd using c xs assms(2,3) by (intro chain_snoc) auto
  ultimately show ?thesis using p by (auto simp: tlist_def)
qed

subsection \<open>The queue interface\<close>

text \<open>
  What the scheduler relies on: a new task goes to the end, a task that is not the last one can
  be moved to the end, and moving the last one faults.
\<close>

locale rotating_queue =
  fixes rep :: "'s \<Rightarrow> 'p list \<Rightarrow> bool"
    and fresh :: "'s \<Rightarrow> 'p \<Rightarrow> bool"
    and add :: "'s \<Rightarrow> 'p \<Rightarrow> 's option"
    and to_end :: "'s \<Rightarrow> 'p \<Rightarrow> 's option"
  assumes rep_distinct: "rep s xs \<Longrightarrow> distinct xs"
    and add_last: "rep s xs \<Longrightarrow> t \<notin> set xs \<Longrightarrow> fresh s t \<Longrightarrow>
      \<exists>s'. add s t = Some s' \<and> rep s' (xs @ [t]) \<and> (\<forall>u. u \<notin> set xs \<longrightarrow> fresh s u \<longrightarrow> fresh s' u)"
    and to_end_middle: "rep s (h # us @ e # vs) \<Longrightarrow> vs \<noteq> [] \<Longrightarrow>
      \<exists>s'. to_end s e = Some s' \<and> rep s' (h # us @ vs @ [e])"
    and to_end_last: "rep s (h # us @ [e]) \<Longrightarrow> to_end s e = None"
begin

lemma add_all:
  assumes "rep s xs" "distinct (xs @ ts)" "\<And>t. t \<in> set ts \<Longrightarrow> fresh s t"
  shows "\<exists>s'. for_each (\<lambda>t s. add s t) ts s = Some s' \<and> rep s' (xs @ ts)"
  using assms
proof (induction ts arbitrary: s xs)
  case (Cons t ts)
  then obtain s1 where 1: "add s t = Some s1" "rep s1 (xs @ [t])"
    "\<And>u. u \<notin> set xs \<Longrightarrow> fresh s u \<Longrightarrow> fresh s1 u"
    using add_last [of s xs t] by auto
  have "fresh s1 u" if "u \<in> set ts" for u
    using 1(3) [of u] Cons.prems(2,3) that by auto
  with Cons.IH [OF 1(2)] Cons.prems(2)
  obtain s' where "for_each (\<lambda>t s. add s t) ts s1 = Some s'" "rep s' (xs @ t # ts)" by auto
  with 1(1) show ?case by simp
qed simp

text \<open>Moving the tasks of a prefix to the end, in order, rotates the queue.\<close>

lemma rotate_prefix:
  assumes "rep s (h # xs @ ys)" "length (xs @ ys) \<noteq> 1"
  shows "\<exists>s'. for_each (\<lambda>t s. to_end s t) xs s = Some s' \<and> rep s' (h # ys @ xs)"
  using assms
proof (induction xs arbitrary: s ys)
  case (Cons x xs)
  then have "xs @ ys \<noteq> []" by auto
  then obtain s1 where 1: "to_end s x = Some s1" "rep s1 (h # xs @ ys @ [x])"
    using to_end_middle [of s h "[]" x "xs @ ys"] Cons.prems by auto
  with Cons.IH [of s1 "ys @ [x]"] Cons.prems(2) show ?case by auto
qed simp

lemma rotate_circle:
  assumes "rep s (h # xs)" "length xs \<noteq> 1"
  shows "\<exists>s'. for_each (\<lambda>t s. to_end s t) xs s = Some s' \<and> rep s' (h # xs)"
  using rotate_prefix [of s h xs "[]"] assms by simp

lemma rotate_faults_iff:
  assumes "rep s (h # us @ e # vs)"
  shows "to_end s e = None \<longleftrightarrow> vs = []"
  using to_end_middle [OF assms] to_end_last [of s h us e] assms by (cases vs) auto

end

interpretation tq: rotating_queue tlist "\<lambda>s t. task_next (tasks s t) = None" addProcessToList moveProcessToEnd
proof
  fix s :: "'a kernel_scheme" and xs t
  assume a: "tlist s xs" "t \<notin> set xs" "task_next (tasks s t) = None"
  then have "last xs \<in> set xs" by (simp add: tlist_def)
  with addProcessToList_next [OF a] show "\<exists>s'. addProcessToList s t = Some s' \<and> tlist s' (xs @ [t]) \<and>
    (\<forall>u. u \<notin> set xs \<longrightarrow> task_next (tasks s u) = None \<longrightarrow> task_next (tasks s' u) = None)"
    by fastforce
qed (use moveProcessToEnd_middle moveProcessToEnd_last chain_distinct in
     \<open>(fastforce simp: tlist_def)+\<close>)

subsection \<open>Choosing the next task\<close>

text \<open>The abstract choice on the tasks behind the head of the list: the first waiting task goes
  to the end; a waiting task that is already last is a fault.\<close>

definition pick_next :: "('p \<Rightarrow> bool) \<Rightarrow> 'p list \<Rightarrow> ('p option \<times> 'p list) option" where
  "pick_next waiting ys =
     (case dropWhile (\<lambda>y. \<not> waiting y) ys of
        [] \<Rightarrow> Some (None, ys)
      | e # vs \<Rightarrow> if vs = [] then None
                 else Some (Some e, takeWhile (\<lambda>y. \<not> waiting y) ys @ vs @ [e]))"

abbreviation waiting :: "'a kernel_scheme \<Rightarrow> u64 \<Rightarrow> bool" where
  "waiting s t \<equiv> state (tasks s t) = TASK_WAITING"

lemma next_waiting_loop_skip:
  assumes "seg (nexts s) q us r" "\<forall>u \<in> set us. \<not> waiting s u"
  shows "getNextWaitingTask_loop s q = getNextWaitingTask_loop s r"
  using assms
  by (induction us arbitrary: q) (simp, subst getNextWaitingTask_loop.simps, auto)

lemma getNextWaitingTask_none:
  assumes "tlist s (p # ys)" "\<forall>y \<in> set ys. \<not> waiting s y"
  shows "getNextWaitingTask s = Some (None, s)"
proof -
  have "getNextWaitingTask_loop s (nexts s p) = getNextWaitingTask_loop s None"
    using assms by (intro next_waiting_loop_skip [of _ _ ys]) (auto simp: tlist_def chain_seg)
  moreover have "getNextWaitingTask_loop s None = Some (None, s)"
    by (subst getNextWaitingTask_loop.simps) simp
  ultimately show ?thesis using assms(1) by (simp add: getNextWaitingTask_def tlist_def)
qed

lemma getNextWaitingTask_found:
  assumes "tlist s (p # us @ e # vs)" "\<forall>u \<in> set us. \<not> waiting s u" "waiting s e"
  shows "getNextWaitingTask s = map_option (Pair (Some e)) (moveProcessToEnd s e)"
proof -
  have "getNextWaitingTask_loop s (nexts s p) = getNextWaitingTask_loop s (Some e)"
    using assms by (intro next_waiting_loop_skip [of _ _ us]) (auto simp: tlist_def chain_seg seg_append)
  moreover have "getNextWaitingTask_loop s (Some e) = map_option (Pair (Some e)) (moveProcessToEnd s e)"
    by (subst getNextWaitingTask_loop.simps) (simp add: assms(3) map_conv_bind_option comp_def)
  ultimately show ?thesis using assms(1) by (simp add: getNextWaitingTask_def tlist_def)
qed

lemma getNextWaitingTask_refines:
  assumes "tlist s (p # ys)"
  shows "case pick_next (waiting s) ys of
      None \<Rightarrow> getNextWaitingTask s = None
    | Some (r, ys') \<Rightarrow> \<exists>s'. getNextWaitingTask s = Some (r, s') \<and> tlist s' (p # ys') \<and> same_but_links s s'"
proof (cases "dropWhile (\<lambda>y. \<not> waiting s y) ys")
  case Nil
  then have "\<forall>y \<in> set ys. \<not> waiting s y" by (simp add: dropWhile_eq_Nil_conv)
  with getNextWaitingTask_none [OF assms] assms show ?thesis unfolding pick_next_def Nil by simp
next
  case (Cons e vs)
  define us where "us = takeWhile (\<lambda>y. \<not> waiting s y) ys"
  have ys: "ys = us @ e # vs" using takeWhile_dropWhile_id [of "\<lambda>y. \<not> waiting s y" ys] Cons by (simp add: us_def)
  have us: "\<forall>u \<in> set us. \<not> waiting s u" by (auto simp: us_def dest: set_takeWhileD)
  have e: "waiting s e" using hd_dropWhile [of "\<lambda>y. \<not> waiting s y" ys] Cons by simp
  note found = getNextWaitingTask_found [OF assms [unfolded ys] us e]
  show ?thesis
  proof (cases "vs = []")
    case True
    then show ?thesis using found tq.to_end_last [of s p us e] assms Cons
      by (simp add: pick_next_def ys)
  next
    case False
    then show ?thesis using found moveProcessToEnd_middle [of s p us e vs] assms [unfolded ys] Cons
      by (auto simp: pick_next_def us_def [symmetric])
  qed
qed

subsection \<open>The switch\<close>

lemma push_sel [simp]:
  "tasks (push v s) = tasks s" "current (push v s) = current s" "CR3 (push v s) = CR3 s"
  "currentRunningTask (push v s) = currentRunningTask s" "tss_rsp0 (push v s) = tss_rsp0 s"
  "rsp (cpu_state (push v s)) = rsp (cpu_state s) - 8"
  "mem (push v s) = (mem s)(rsp (cpu_state s) - 8 := v)"
  by (simp_all add: push_def)

lemma pop_sel [simp]:
  "tasks (pop put s) = tasks s" "current (pop put s) = current s" "CR3 (pop put s) = CR3 s"
  "currentRunningTask (pop put s) = currentRunningTask s" "mem (pop put s) = mem s" "tss_rsp0 (pop put s) = tss_rsp0 s"
  "cpu_state (pop put s) = put (mem s (rsp (cpu_state s))) ((cpu_state s)\<lparr>rsp := rsp (cpu_state s) + 8\<rparr>)"
  by (simp_all add: pop_def)

lemma save_regs_sel [simp]:
  "tasks (save_regs s) = tasks s" "current (save_regs s) = current s" "CR3 (save_regs s) = CR3 s"
  "currentRunningTask (save_regs s) = currentRunningTask s" "tss_rsp0 (save_regs s) = tss_rsp0 s"
  "rsp (cpu_state (save_regs s)) = rsp (cpu_state s) - 48"
  by (simp_all add: save_regs_def Let_def)

lemma restore_regs_sel [simp]:
  "tasks (restore_regs s) = tasks s" "current (restore_regs s) = current s" "CR3 (restore_regs s) = CR3 s"
  "currentRunningTask (restore_regs s) = currentRunningTask s" "mem (restore_regs s) = mem s"
  "tss_rsp0 (restore_regs s) = tss_rsp0 s"
  by (simp_all add: restore_regs_def)

text \<open>What the switch does to the tasks, and to the machine.\<close>

lemma switchTask_tasks:
  assumes "to_task s = Some t" "from_task s = Some f" "f \<noteq> t"
  shows "\<exists>s'. switchTask s = Some s' \<and> current s' = current s \<and> currentRunningTask s' = Some t \<and>
    CR3 s' = task_cr3 (tasks s t) \<and>
    tasks s' = (tasks s)(t := (tasks s t)\<lparr>state := TASK_RUNNING\<rparr>,
      f := (tasks s f)\<lparr>state := (if state (tasks s f) = TASK_ENDED then TASK_ENDED else TASK_WAITING),
                       kernel_rsp := rsp (cpu_state s) - 40\<rparr>)"
  using assms by (simp add: switchTask_def set_CR3_def Let_def fun_upd_twist) (auto simp: fun_eq_iff)

lemma tlist_cong:
  assumes "tlist s xs" "current s' = current s" "\<And>t. task_next (tasks s' t) = task_next (tasks s t)"
  shows "tlist s' xs"
  using assms by (simp add: tlist_def)

lemma yield_spec:
  assumes "tlist s (p # us @ e # vs)" "\<forall>u \<in> set us. \<not> waiting s u" "waiting s e" "vs \<noteq> []"
  shows "\<exists>s'. yield s = Some s' \<and> tlist s' (p # us @ vs @ [e]) \<and>
    currentRunningTask s' = Some e \<and> CR3 s' = task_cr3 (tasks s e) \<and>
    state (tasks s' e) = TASK_RUNNING \<and>
    state (tasks s' p) = (if state (tasks s p) = TASK_ENDED then TASK_ENDED else TASK_WAITING) \<and>
    kernel_rsp (tasks s' p) = rsp (cpu_state s) - 40 \<and>
    (\<forall>t. t \<noteq> p \<longrightarrow> kernel_rsp (tasks s' t) = kernel_rsp (tasks s t)) \<and>
    (\<forall>t. t \<noteq> p \<longrightarrow> t \<noteq> e \<longrightarrow> state (tasks s' t) = state (tasks s t))"
proof -
  obtain s1 where 1: "moveProcessToEnd s e = Some s1" "tlist s1 (p # us @ vs @ [e])" "same_but_links s s1"
    using moveProcessToEnd_middle [OF assms(1,4)] by blast
  note l = same_but_linksD [OF 1(3)]
  have p: "current s1 = Some p" "p \<noteq> e"
    using 1(2) tq.rep_distinct [OF 1(2)] by (auto simp: tlist_def)
  let ?s = "s1\<lparr>from_task := current s1, to_task := Some e\<rparr>"
  obtain s' where 2: "switchTask ?s = Some s'" "current s' = current s1" "currentRunningTask s' = Some e"
    "CR3 s' = task_cr3 (tasks s1 e)"
    "tasks s' = (tasks s1)(e := (tasks s1 e)\<lparr>state := TASK_RUNNING\<rparr>,
      p := (tasks s1 p)\<lparr>state := (if state (tasks s1 p) = TASK_ENDED then TASK_ENDED else TASK_WAITING),
                       kernel_rsp := rsp (cpu_state s1) - 40\<rparr>)"
    using switchTask_tasks [of ?s e p] p by auto
  have "yield s = Some s'"
    using getNextWaitingTask_found [OF assms(1-3)] 1(1) 2(1) by (simp add: yield_def)
  moreover have "tlist s' (p # us @ vs @ [e])"
    by (rule tlist_cong [OF 1(2) 2(2)]) (simp add: 2(5))
  ultimately show ?thesis using 2(3-5) p l by auto
qed

text \<open>The two ways \<open>yield\<close> returns.\<close>

lemma yield_split:
  assumes "tlist s (p # ys)" "yield s = Some s'"
  obtains "s' = s" | us e vs where "ys = us @ e # vs" "waiting s e" "vs \<noteq> []"
    "tlist s' (p # us @ vs @ [e])" "currentRunningTask s' = Some e" "state (tasks s' e) = TASK_RUNNING"
    "\<And>t. t \<noteq> p \<Longrightarrow> t \<noteq> e \<Longrightarrow> state (tasks s' t) = state (tasks s t)"
proof (cases "\<exists>y \<in> set ys. waiting s y")
  case False
  then have "yield s = Some s" using getNextWaitingTask_none [OF assms(1)] by (simp add: yield_def)
  with assms(2) that(1) show thesis by simp
next
  case True
  then obtain us e vs where ys: "ys = us @ e # vs" "waiting s e" "\<forall>u \<in> set us. \<not> waiting s u"
    using split_list_first_prop [of ys "waiting s"] by blast
  have "vs \<noteq> []"
    using assms(2) getNextWaitingTask_found [OF assms(1)[unfolded ys(1)] ys(3,2)]
      tq.to_end_last [of s p us e] assms(1) ys(1) by (auto simp: yield_def)
  with yield_spec [OF assms(1)[unfolded ys(1)] ys(3,2) this] assms(2) ys(1,2) show thesis
    by (intro that(2) [of us e vs]) auto
qed

lemma yield_keeps_state:
  assumes "tlist s (p # ys)" "yield s = Some s'" "t \<noteq> p" "currentRunningTask s' \<noteq> Some t"
  shows "state (tasks s' t) = state (tasks s t)"
  by (rule yield_split [OF assms(1,2)]) (use assms(3,4) in auto)

text \<open>\<open>yield\<close> in all cases, for the invariants.\<close>

lemma yield_cases:
  assumes "tlist s (p # ys)" "yield s = Some s'"
  shows "\<exists>ys'. tlist s' (p # ys') \<and> set ys' = set ys \<and>
    (currentRunningTask s' = currentRunningTask s \<or>
     (\<exists>e \<in> set ys. currentRunningTask s' = Some e \<and> state (tasks s' e) = TASK_RUNNING))"
proof (rule yield_split [OF assms])
  fix us e vs
  assume "ys = us @ e # vs" "tlist s' (p # us @ vs @ [e])" "currentRunningTask s' = Some e"
    "state (tasks s' e) = TASK_RUNNING"
  then show ?thesis by (intro exI [of _ "us @ vs @ [e]"]) auto
qed (use assms in auto)

subsection \<open>Saving and restoring\<close>

text \<open>The six register slots below a stack top, and the slot of the return address above them.\<close>

definition save_slots :: "u64 \<Rightarrow> u64 list" where
  "save_slots r = [r - 48, r - 40, r - 32, r - 24, r - 16, r - 8]"

lemma save_regs_mem:
  assumes "r = rsp (cpu_state s)"
  shows "map (mem (save_regs s)) (save_slots r) =
     (let c = cpu_state s in [rdi c, rsi c, rdx c, rcx c, rbx c, rax c])"
    and "a \<notin> set (save_slots r) \<Longrightarrow> mem (save_regs s) a = mem s a"
  using assms by (simp_all add: save_regs_def save_slots_def Let_def)

lemma restore_regs_cpu:
  assumes "rsp (cpu_state s) = r - 48"
    and "map (mem s) (save_slots r @ [r]) = [v1, v2, v3, v4, v5, v6, v7]"
  shows "cpu_state (restore_regs s) = (cpu_state s)\<lparr>rdi := v1, rsi := v2, rdx := v3, rcx := v4,
    rbx := v5, rax := v6, rip := v7, rsp := r + 8\<rparr>"
  using assms by (cases "cpu_state s") (simp add: restore_regs_def save_slots_def pop_def del: pop_sel)

lemma switchTask_mem:
  assumes "switchTask s = Some s'" "from_task s = Some f" "to_task s = Some t" "f \<noteq> t"
  defines "r \<equiv> rsp (cpu_state s) + 8" and "c \<equiv> cpu_state s"
  shows "map (mem s') (save_slots r) = [rdi c, rsi c, rdx c, rcx c, rbx c, rax c]"
    and "a \<notin> set (save_slots r) \<Longrightarrow> mem s' a = mem s a"
    and "map (mem s') (save_slots q @ [q]) = [v1, v2, v3, v4, v5, v6, v7] \<Longrightarrow>
      kernel_rsp (tasks s t) = q - 48 \<Longrightarrow>
      cpu_state s' = c\<lparr>rdi := v1, rsi := v2, rdx := v3, rcx := v4, rbx := v5, rax := v6, rip := v7,
        rsp := q + 8\<rparr>"
proof -
  define s0 where "s0 = set_CR3 ((\<lambda>s. if state (tasks s f) \<noteq> TASK_ENDED
      then upd_task f (state_update (\<lambda>_. TASK_WAITING)) s else s)
    (upd_task t (state_update (\<lambda>_. TASK_RUNNING))
      (s\<lparr>cpu_state := c\<lparr>rsp := r\<rparr>, currentRunningTask := Some t\<rparr>))) (task_cr3 (tasks s t))"
  define s1 where "s1 = upd_task f (kernel_rsp_update (\<lambda>_. r - 48)) (save_regs s0)"
  define s2 where "s2 = s1\<lparr>cpu_state := (cpu_state s1)\<lparr>rsp := kernel_rsp (tasks s t)\<rparr>\<rparr>"
  have k: "kernel_rsp (tasks s1 t) = kernel_rsp (tasks s t)"
    using assms(4) by (simp add: s1_def s0_def set_CR3_def)
  have s': "s' = restore_regs s2"
    using assms(1-4) k unfolding s2_def s1_def s0_def switchTask_def
    by (cases "state (tasks s f) = TASK_ENDED") (simp_all add: set_CR3_def Let_def r_def c_def)
  have c0: "cpu_state s0 = c\<lparr>rsp := r\<rparr>" "mem s0 = mem s" by (simp_all add: s0_def set_CR3_def)
  have m: "mem s' = mem (save_regs s0)" by (simp add: s' s2_def s1_def)
  show "map (mem s') (save_slots r) = [rdi c, rsi c, rdx c, rcx c, rbx c, rax c]"
    using save_regs_mem(1) [of r s0] c0 by (simp add: m)
  show "mem s' a = mem s a" if "a \<notin> set (save_slots r)"
    using save_regs_mem(2) [of r s0 a] c0 that by (simp add: m)
  assume q: "map (mem s') (save_slots q @ [q]) = [v1, v2, v3, v4, v5, v6, v7]"
    "kernel_rsp (tasks s t) = q - 48"
  have "cpu_state (save_regs s0) = c\<lparr>rsp := r - 48\<rparr>"
    by (simp add: save_regs_def push_def Let_def c0)
  then have "cpu_state s2 = c\<lparr>rsp := q - 48\<rparr>" by (simp add: s2_def s1_def q(2))
  moreover have "map (mem s2) (save_slots q @ [q]) = [v1, v2, v3, v4, v5, v6, v7]"
    using q(1) by (simp add: m s2_def s1_def)
  ultimately show "cpu_state s' = c\<lparr>rdi := v1, rsi := v2, rdx := v3, rcx := v4, rbx := v5, rax := v6,
      rip := v7, rsp := q + 8\<rparr>"
    unfolding s' by (subst restore_regs_cpu [of s2 q]) simp_all
qed

subsection \<open>Process numbers\<close>

lemma getProcessID_loop_spec:
  assumes "\<And>j. a \<le> j \<Longrightarrow> j < i \<Longrightarrow> processID s j \<noteq> 0" "a \<le> i" "i \<le> b"
    and "i < b \<Longrightarrow> processID s i = 0"
  shows "getProcessID_loop s [a..<b] =
    (if i < b then (of_nat i, s\<lparr>processID := (processID s)(i := 1)\<rparr>) else (- 1, s))"
  using assms
proof (induction "i - a" arbitrary: a)
  case 0
  then show ?case by (cases "i < b") (simp_all add: upt_conv_Cons)
next
  case (Suc d)
  from Suc.hyps(2) have "a < i" by simp
  with Suc.hyps(1) [of "Suc a"] Suc.hyps(2) Suc.prems show ?case by (simp add: upt_conv_Cons)
qed

lemma init_process_map_spec:
  "processID (init_process_map s) i = (if 1 \<le> i \<and> i < 100 then 0 else processID s i)"
proof -
  have "processID (fold (\<lambda>i s. s\<lparr>processID := (processID s)(i := 0)\<rparr>) xs s) i =
    (if i \<in> set xs then 0 else processID s i)" for xs
    by (induction xs arbitrary: s) auto
  then show ?thesis by (simp add: init_process_map_def)
qed

text \<open>The \<open>k\<close>-th call after the table was cleared.\<close>

primrec nth_pid :: "'a kernel_scheme \<Rightarrow> nat \<Rightarrow> u32 \<times> 'a kernel_scheme" where
  "nth_pid s 0 = (0, init_process_map s)"
| "nth_pid s (Suc k) = getProcessID (snd (nth_pid s k))"

lemma getProcessID_table:
  assumes "\<And>i. 1 \<le> i \<Longrightarrow> i < 100 \<Longrightarrow> processID s i = 0 \<longleftrightarrow> k < i"
  shows "getProcessID s = (if Suc k < 100 then (of_nat (Suc k), s\<lparr>processID := (processID s)(Suc k := 1)\<rparr>)
    else (- 1, s))"
proof -
  have "getProcessID_loop s [1..<100] = (if min (Suc k) 100 < 100
      then (of_nat (min (Suc k) 100), s\<lparr>processID := (processID s)(min (Suc k) 100 := 1)\<rparr>) else (- 1, s))"
    by (rule getProcessID_loop_spec) (auto simp: assms)
  then show ?thesis by (simp add: getProcessID_def min_def)
qed

lemma nth_pid_table:
  "1 \<le> i \<Longrightarrow> i < 100 \<Longrightarrow> processID (snd (nth_pid s k)) i = 0 \<longleftrightarrow> k < i"
proof (induction k arbitrary: i)
  case (Suc k)
  then show ?case using getProcessID_table [of "snd (nth_pid s k)" k] by auto
qed (simp add: init_process_map_spec)

subsection \<open>Listing and finding tasks\<close>

definition ps_shown :: "'a kernel_scheme \<Rightarrow> u64 \<Rightarrow> bool" where
  "ps_shown s t \<longleftrightarrow> task_name (tasks s t) \<noteq> [] \<and> state (tasks s t) \<noteq> TASK_ENDED"

definition ps_line :: "'a kernel_scheme \<Rightarrow> u64 \<Rightarrow> event" where
  "ps_line s t = Ps_line (pid (tasks s t)) (ppid (tasks s t)) (task_name (tasks s t))
     (getTaskState (ucast (state (tasks s t))))"

lemma proc_ps_loop_spec:
  "chain (nexts s) q xs \<Longrightarrow>
    proc_ps_loop s q = Some (s\<lparr>kout := kout s @ map (ps_line s) (filter (ps_shown s) xs)\<rparr>)"
proof (induction xs arbitrary: q s)
  case Nil
  then show ?case by (subst proc_ps_loop.simps) simp
next
  case (Cons x xs)
  let ?s = "if ps_shown s x then emit (ps_line s x) s else s"
  have eq: "nexts ?s = nexts s" "ps_shown ?s = ps_shown s" "ps_line ?s = ps_line s" "tasks ?s = tasks s"
    by (auto simp: emit_def ps_shown_def ps_line_def fun_eq_iff)
  have "proc_ps_loop s q = proc_ps_loop ?s (task_next (tasks s x))"
    using Cons.prems by (subst proc_ps_loop.simps) (auto simp: ps_shown_def ps_line_def emit_def Let_def)
  also have "\<dots> = Some (?s\<lparr>kout := kout ?s @ map (ps_line s) (filter (ps_shown s) xs)\<rparr>)"
    using Cons.IH [of ?s] Cons.prems eq by simp
  also have "\<dots> = Some (s\<lparr>kout := kout s @ map (ps_line s) (filter (ps_shown s) (x # xs))\<rparr>)"
    by (simp add: emit_def)
  finally show ?case .
qed

lemma proc_ps_spec:
  assumes "tlist s xs"
  shows "proc_ps s = Some (s\<lparr>kout := kout s @ Ps_header # map (ps_line s) (filter (ps_shown s) xs)\<rparr>)"
proof -
  have "ps_shown (emit Ps_header s) = ps_shown s" "ps_line (emit Ps_header s) = ps_line s"
    by (auto simp: emit_def ps_shown_def ps_line_def fun_eq_iff)
  then show ?thesis
    using proc_ps_loop_spec [of "emit Ps_header s" "current s" xs] assms
    by (simp add: proc_ps_def tlist_def emit_def)
qed

lemma find_pid_spec:
  "chain (nexts s) q xs \<Longrightarrow> find_pid s p q = Some (List.find (\<lambda>t. ucast (pid (tasks s t)) = p) xs)"
  by (induction xs arbitrary: q) (subst find_pid.simps; auto)+

lemma getTaskForPID_spec:
  assumes "tlist s xs"
  shows "getTaskForPID s p = Some (List.find (\<lambda>t. ucast (pid (tasks s t)) = p) xs)"
proof -
  have "chain (nexts s) q xs \<Longrightarrow>
    getTaskForPID_loop s p q = Some (List.find (\<lambda>t. ucast (pid (tasks s t)) = p) xs)" for q
    by (induction xs arbitrary: q) (subst getTaskForPID_loop.simps; auto)+
  then show ?thesis using assms by (simp add: getTaskForPID_def tlist_def)
qed

text \<open>Waiting looks at the parents of the tasks: with no running child of \<open>p\<close> on the list nothing happens.\<close>

lemma SYSS_waitpid_idle:
  assumes "tlist s xs"
    and "\<forall>t \<in> set xs. task_name (tasks s t) \<noteq> [] \<longrightarrow> (ucast (ppid (tasks s t)) :: u64) = scast p \<longrightarrow> state (tasks s t) \<noteq> TASK_RUNNING"
  shows "SYSS_waitpid oth s p = Some s"
proof -
  have "SYSS_waitpid_loop oth s p q = Some s"
    if "chain (nexts s) q ys" "set ys \<subseteq> set xs" for q ys
    using that
  proof (induction ys arbitrary: q)
    case (Cons y ys)
    then show ?case using assms(2) by (subst SYSS_waitpid_loop.simps) auto
  qed (simp add: SYSS_waitpid_loop.simps)
  from this [of "current s" xs] show ?thesis using assms(1) by (simp add: SYSS_waitpid_def tlist_def)
qed

subsection \<open>The scheduler as a transition system\<close>

text \<open>The operations that act on the task list, in any order. A task that is added is new: it is
  not on the list and its link is null, as \<open>create_process\<close>, \<open>copyParentToChild\<close> and
  \<open>sanexecve\<close> leave it.\<close>

inductive sched_step :: "'a kernel_scheme \<Rightarrow> 'a kernel_scheme \<Rightarrow> bool" where
  add: "addProcessToList s t = Some s' \<Longrightarrow> task_next (tasks s t) = None \<Longrightarrow> tlist s xs \<Longrightarrow>
    t \<notin> set xs \<Longrightarrow> sched_step s s'"
| give_up: "yield s = Some s' \<Longrightarrow> sched_step s s'"
| leave: "syss_exit s = Some s' \<Longrightarrow> sched_step s s'"
| kill: "killprocess s p = Some s' \<Longrightarrow> sched_step s s'"
| chdir: "SYSS_changedir s path = Some s' \<Longrightarrow> sched_step s s'"

abbreviation dead :: "'a kernel_scheme \<Rightarrow> u64 \<Rightarrow> bool" where
  "dead s t \<equiv> state (tasks s t) = TASK_ENDED \<or> state (tasks s t) = TASK_ZOMBIE"

text \<open>What every step keeps: the list stays a list with the same head, no task leaves it, the
  running task is on it; and a task behind the head that is dead and not running stays so.\<close>

definition keeps :: "'a kernel_scheme \<Rightarrow> 'a kernel_scheme \<Rightarrow> bool" where
  "keeps s s' \<longleftrightarrow> (\<forall>p ys. tlist s (p # ys) \<longrightarrow>
     (\<exists>ys'. tlist s' (p # ys') \<and> set ys \<subseteq> set ys' \<and>
       ((\<forall>t. currentRunningTask s = Some t \<longrightarrow> t \<in> set (p # ys)) \<longrightarrow>
        (\<forall>t. currentRunningTask s' = Some t \<longrightarrow> t \<in> set (p # ys')))) \<and>
     (\<forall>t. t \<noteq> p \<longrightarrow> dead s t \<longrightarrow> currentRunningTask s \<noteq> Some t \<longrightarrow>
        dead s' t \<and> currentRunningTask s' \<noteq> Some t))"

lemma keeps_trans:
  assumes "keeps s s'" "keeps s' s''"
  shows "keeps s s''"
  unfolding keeps_def
proof (intro allI impI conjI)
  fix p ys assume l: "tlist s (p # ys)"
  with assms(1) obtain ys' where 1: "tlist s' (p # ys')" "set ys \<subseteq> set ys'"
    "(\<forall>t. currentRunningTask s = Some t \<longrightarrow> t \<in> set (p # ys)) \<longrightarrow>
        (\<forall>t. currentRunningTask s' = Some t \<longrightarrow> t \<in> set (p # ys'))"
    unfolding keeps_def by blast
  with assms(2) obtain ys'' where 2: "tlist s'' (p # ys'')" "set ys' \<subseteq> set ys''"
    "(\<forall>t. currentRunningTask s' = Some t \<longrightarrow> t \<in> set (p # ys')) \<longrightarrow>
        (\<forall>t. currentRunningTask s'' = Some t \<longrightarrow> t \<in> set (p # ys''))"
    unfolding keeps_def by blast
  show "\<exists>ys'. tlist s'' (p # ys') \<and> set ys \<subseteq> set ys' \<and>
       ((\<forall>t. currentRunningTask s = Some t \<longrightarrow> t \<in> set (p # ys)) \<longrightarrow>
        (\<forall>t. currentRunningTask s'' = Some t \<longrightarrow> t \<in> set (p # ys')))"
    using 1(2,3) 2 by (intro exI [of _ ys'']) blast
  fix t assume t: "t \<noteq> p" "dead s t" "currentRunningTask s \<noteq> Some t"
  have "dead s' t \<and> currentRunningTask s' \<noteq> Some t"
    using assms(1) l t unfolding keeps_def by blast
  then have "dead s'' t \<and> currentRunningTask s'' \<noteq> Some t"
    using assms(2) 1(1) t(1) unfolding keeps_def by blast
  then show "dead s'' t" "currentRunningTask s'' \<noteq> Some t" by blast+
qed

text \<open>A change that leaves links and running task alone and kills at most.\<close>

lemma keeps_local:
  assumes "current s' = current s" "\<And>t. task_next (tasks s' t) = task_next (tasks s t)"
    "currentRunningTask s' = currentRunningTask s" "\<And>t. dead s t \<Longrightarrow> dead s' t"
  shows "keeps s s'"
  unfolding keeps_def using tlist_cong [OF _ assms(1,2)] assms(3,4) by (metis order_refl)

lemma yield_dead:
  assumes "tlist s (p # ys)" "yield s = Some s'" "t \<noteq> p" "dead s t" "currentRunningTask s \<noteq> Some t"
  shows "dead s' t \<and> currentRunningTask s' \<noteq> Some t"
proof (rule yield_split [OF assms(1,2)])
  fix us e vs
  assume e: "waiting s e" "currentRunningTask s' = Some e"
    "\<And>t. t \<noteq> p \<Longrightarrow> t \<noteq> e \<Longrightarrow> state (tasks s' t) = state (tasks s t)"
  have "t \<noteq> e" using e(1) assms(4) by auto
  with e assms(3,4) show ?thesis by simp
qed (use assms in simp)

lemma keeps_yield:
  assumes "yield s = Some s'"
  shows "keeps s s'"
  unfolding keeps_def
proof (intro allI impI conjI)
  fix p ys assume l: "tlist s (p # ys)"
  from yield_cases [OF this assms] obtain ys' where "tlist s' (p # ys')" "set ys' = set ys"
    "currentRunningTask s' = currentRunningTask s \<or> (\<exists>e \<in> set ys. currentRunningTask s' = Some e)" by blast
  then show "\<exists>ys'. tlist s' (p # ys') \<and> set ys \<subseteq> set ys' \<and>
       ((\<forall>t. currentRunningTask s = Some t \<longrightarrow> t \<in> set (p # ys)) \<longrightarrow>
        (\<forall>t. currentRunningTask s' = Some t \<longrightarrow> t \<in> set (p # ys')))"
    by (intro exI [of _ ys']) auto
  fix t assume "t \<noteq> p" "dead s t" "currentRunningTask s \<noteq> Some t"
  from yield_dead [OF l assms this]
  show "dead s' t" "currentRunningTask s' \<noteq> Some t" by blast+
qed

lemma keeps_add:
  assumes "addProcessToList s t = Some s'" "task_next (tasks s t) = None" "tlist s xs" "t \<notin> set xs"
  shows "keeps s s'"
proof -
  have s': "s' = upd_task (last xs) (task_next_update (\<lambda>_. Some t)) s" "tlist s' (xs @ [t])"
    using addProcessToList_next [OF assms(3,4,2)] assms(1) by auto
  have "xs = p # ys" if "tlist s (p # ys)" for p ys
    using assms(3) that chain_unique [of "nexts s" "current s" xs "p # ys"] by (simp add: tlist_def)
  then show ?thesis using s' by (fastforce simp: keeps_def)
qed

lemma keeps_exit:
  assumes "syss_exit s = Some s'"
  shows "keeps s s'"
proof -
  from assms obtain t where t: "currentRunningTask s = Some t"
    "yield (upd_task t (state_update (\<lambda>_. TASK_ZOMBIE)) s) = Some s'"
    by (auto simp: syss_exit_def split: bind_splits)
  have "keeps s (upd_task t (state_update (\<lambda>_. TASK_ZOMBIE)) s)"
    by (rule keeps_local) auto
  then show ?thesis by (rule keeps_trans) (rule keeps_yield, rule t(2))
qed

lemma proc_ps_loop_sel:
  assumes "proc_ps_loop s q = Some s'"
  shows "tasks s' = tasks s \<and> current s' = current s \<and> currentRunningTask s' = currentRunningTask s"
proof (rule proc_ps_loop.raw_induct [OF _ assms])
  fix loop s q s'
  assume "\<And>s q s'. loop s q = Some s' \<Longrightarrow>
      tasks s' = tasks s \<and> current s' = current s \<and> currentRunningTask s' = currentRunningTask s"
    and "(case q of None \<Rightarrow> Some s
      | Some t \<Rightarrow> let k = tasks s t;
          s = (if length (task_name k) \<noteq> 0 \<and> state k \<noteq> TASK_ENDED
               then emit (Ps_line (pid k) (ppid k) (task_name k) (getTaskState (ucast (state k)))) s
               else s)
          in loop s (task_next (tasks s t))) = Some s'"
  then show "tasks s' = tasks s \<and> current s' = current s \<and> currentRunningTask s' = currentRunningTask s"
    by (fastforce simp: emit_def Let_def split: option.splits if_splits)
qed

lemma keeps_kill:
  assumes "killprocess s p = Some s'"
  shows "keeps s s'"
proof -
  from assms obtain c s1 where
    c: "proc_ps (case c of None \<Rightarrow> s
      | Some t \<Rightarrow> emit (Killed (pid (tasks s t))) (upd_task t (state_update (\<lambda>_. TASK_ENDED)) s)) = Some s1"
    "yield s1 = Some s'"
    by (auto simp: killprocess_def Let_def split: bind_splits)
  note ps = c(1) [unfolded proc_ps_def, THEN proc_ps_loop_sel]
  have "keeps s s1"
    by (rule keeps_local) (use ps in \<open>auto simp: emit_def split: option.splits\<close>)
  then show ?thesis using keeps_yield [OF c(2)] by (rule keeps_trans)
qed

lemma keeps_chdir: "SYSS_changedir s path = Some s' \<Longrightarrow> keeps s s'"
  by (rule keeps_local) (auto simp: SYSS_changedir_def strcpy_field_def split: bind_splits if_splits)

lemma sched_step_keeps: "sched_step s s' \<Longrightarrow> keeps s s'"
  by (erule sched_step.cases)
     (blast intro: keeps_add keeps_yield keeps_exit keeps_kill keeps_chdir)+

lemma sched_steps_keep: "sched_step\<^sup>*\<^sup>* s s' \<Longrightarrow> keeps s s'"
  by (induction rule: rtranclp_induct)
     (auto intro: keeps_local keeps_trans sched_step_keeps)

subsection \<open>Properties\<close>

text \<open>C8. The scheduler's choice refines the abstract one: the first waiting task behind the head
  of the list is taken and moved to the end, nothing else of any task changes, no task is lost;
  when none waits nothing happens; and when the first waiting task is the last of the list the
  code faults (\<open>moveProcessToEnd\<close> runs off the end).\<close>

theorem getNextWaitingTask_refines_pick:
  assumes "tlist s (p # ys)"
  shows "case pick_next (waiting s) ys of
      None \<Rightarrow> getNextWaitingTask s = None
    | Some (r, ys') \<Rightarrow> \<exists>s'. getNextWaitingTask s = Some (r, s') \<and> tlist s' (p # ys') \<and>
        same_but_links s s' \<and> set ys' = set ys"
proof -
  have "set ys' = set ys" if "pick_next (waiting s) ys = Some (r, ys')" for r ys'
  proof (cases "dropWhile (\<lambda>y. \<not> waiting s y) ys")
    case (Cons e vs)
    with that have "set ys' = set (takeWhile (\<lambda>y. \<not> waiting s y) ys @ dropWhile (\<lambda>y. \<not> waiting s y) ys)"
      by (auto simp: pick_next_def split: if_splits)
    then show ?thesis by simp
  qed (use that in \<open>simp add: pick_next_def del: dropWhile_eq_Nil_conv\<close>)
  with getNextWaitingTask_refines [OF assms] show ?thesis
    by (auto split: option.splits prod.splits)
qed

text \<open>\<open>addProcessToList\<close> keeps order: tasks added one after another stand at the end of the
  list in the order of the calls.\<close>

theorem addProcessToList_in_order:
  assumes "tlist s xs" "distinct (xs @ ts)" "\<And>t. t \<in> set ts \<Longrightarrow> task_next (tasks s t) = None"
  shows "\<exists>s'. for_each (\<lambda>t s. addProcessToList s t) ts s = Some s' \<and> tlist s' (xs @ ts)"
  using assms by (rule tq.add_all)

text \<open>Moving every task behind the head to the end, in list order, brings the list back to
  where it was, for any number of tasks but one; a task that is last cannot be moved: the code
  faults.\<close>

lemma moveProcessToEnd_circle:
  assumes "tlist s (p # xs)"
  shows "(length xs \<noteq> 1 \<longrightarrow> (\<exists>s'. for_each (\<lambda>t s. moveProcessToEnd s t) xs s = Some s' \<and> tlist s' (p # xs))) \<and>
    (xs \<noteq> [] \<longrightarrow> moveProcessToEnd s (last xs) = None)"
  using tq.rotate_circle [OF assms] tq.to_end_last [of s p "butlast xs" "last xs"] assms by auto

text \<open>C18. A context switch is undone by the switch back: a task suspended by \<open>switchTask\<close> and
  later resumed by it finds its six saved registers, its stack pointer and its return address,
  provided its stack was left alone, also by the registers saved for the resuming switch.\<close>

theorem switchTask_restores:
  assumes "switchTask s = Some s'" "from_task s = Some f" "to_task s = Some t" "f \<noteq> t"
    and "switchTask u = Some u'" "from_task u = Some g" "to_task u = Some f" "g \<noteq> f"
    and "kernel_rsp (tasks u f) = kernel_rsp (tasks s' f)"
    and "\<forall>a \<in> set (save_slots (rsp (cpu_state s) + 8)) \<union> {rsp (cpu_state s) + 8}.
      mem u a = mem s' a \<and> a \<notin> set (save_slots (rsp (cpu_state u) + 8))"
  shows "rdi (cpu_state u') = rdi (cpu_state s) \<and> rsi (cpu_state u') = rsi (cpu_state s) \<and>
    rdx (cpu_state u') = rdx (cpu_state s) \<and> rcx (cpu_state u') = rcx (cpu_state s) \<and>
    rbx (cpu_state u') = rbx (cpu_state s) \<and> rax (cpu_state u') = rax (cpu_state s) \<and>
    rsp (cpu_state u') = rsp (cpu_state s) + 16 \<and> rip (cpu_state u') = mem s (rsp (cpu_state s) + 8)"
proof -
  define r c where "r = rsp (cpu_state s) + 8" and "c = cpu_state s"
  note m = switchTask_mem [OF assms(1-4), folded r_def c_def]
  note m' = switchTask_mem [OF assms(5-8)]
  have "mem u' a = mem s' a" if "a \<in> set (save_slots r @ [r])" for a
    using m'(2) [of a] assms(10) that by (auto simp: r_def)
  then have "map (mem u') (save_slots r @ [r]) = map (mem s') (save_slots r @ [r])" by (intro map_cong) auto
  also have "\<dots> = [rdi c, rsi c, rdx c, rcx c, rbx c, rax c, mem s r]"
    using m(1) m(2) [of r] by (simp add: save_slots_def)
  finally have v: "map (mem u') (save_slots r @ [r]) = \<dots>" .
  have "kernel_rsp (tasks u f) = r - 48"
    using assms(9) switchTask_tasks [OF assms(3,2,4)] assms(1) by (auto simp: r_def)
  from m'(3) [OF v this] show ?thesis by (simp add: c_def r_def)
qed

text \<open>C36. \<open>yield\<close> hands the processor to the first waiting task that is not last: it runs, in its
  address space, and goes to the end of the list. The task that was running keeps its state
  and its saved stack pointer: the state and the stack pointer are put into the head of the list,
  whoever was running.\<close>

theorem yield_switches:
  assumes "tlist s (p # us @ e # vs)" "\<forall>u \<in> set us. \<not> waiting s u" "waiting s e" "vs \<noteq> []"
    and "currentRunningTask s = Some r" "r \<noteq> p" "r \<noteq> e"
  shows "\<exists>s'. yield s = Some s' \<and> tlist s' (p # us @ vs @ [e]) \<and>
    currentRunningTask s' = Some e \<and> state (tasks s' e) = TASK_RUNNING \<and> CR3 s' = task_cr3 (tasks s e) \<and>
    state (tasks s' r) = state (tasks s r) \<and> kernel_rsp (tasks s' r) = kernel_rsp (tasks s r) \<and>
    kernel_rsp (tasks s' p) = rsp (cpu_state s) - 40"
  using yield_spec [OF assms(1-4)] assms(6,7) by blast



text \<open>Process numbers: after \<open>init_process_map\<close> the first 99 calls of \<open>getProcessID\<close> return
  1, 2, ..., 99 in turn, so no number is given twice, and every later call returns -1.\<close>

theorem getProcessID_sequence:
  "fst (nth_pid s (Suc k)) = (if k < 99 then of_nat (Suc k) else - 1)"
  using getProcessID_table [of "snd (nth_pid s k)" k] nth_pid_table [of _ s k] by auto

text \<open>\<open>proc_ps\<close> ends and prints, after the header, one line per task of the list, in list order,
  leaving out tasks without a name and ended ones; it changes nothing else.\<close>

theorem proc_ps_prints:
  assumes "tlist s xs"
  shows "proc_ps s = Some (s\<lparr>kout := kout s @ Ps_header # map (ps_line s) (filter (ps_shown s) xs)\<rparr>)"
  using assms by (rule proc_ps_spec)

text \<open>C13. Whatever sequence of additions, yields, exits, kills and directory changes runs, the task
  list stays a well-formed list with the same head, no task ever leaves it (nothing reaps
  a zombie), and the running task is on it.\<close>

theorem sched_invariant:
  assumes "sched_step\<^sup>*\<^sup>* s s'" "tlist s (p # ys)" "currentRunningTask s = Some r" "r \<in> set (p # ys)"
  shows "\<exists>ys'. tlist s' (p # ys') \<and> set ys \<subseteq> set ys' \<and>
    (\<forall>t. currentRunningTask s' = Some t \<longrightarrow> t \<in> set (p # ys'))"
proof -
  from assms(3,4) have "\<forall>t. currentRunningTask s = Some t \<longrightarrow> t \<in> set (p # ys)" by simp
  with sched_steps_keep [OF assms(1)] assms(2) show ?thesis unfolding keeps_def by blast
qed


subsection \<open>Witnesses\<close>

definition demo_task :: "u64 option \<Rightarrow> u16 \<Rightarrow> u64 \<Rightarrow> Task" where
  "demo_task nx st k =
     \<lparr>regs = \<lparr>r_rax = 0, r_rbx = 0, r_rcx = 0, r_rdx = 0, r_rsi = 0, r_rdi = 0, r_rsp = 0, r_rbp = 0,
        r_rip = 0, r_rflags = 0, r_cr3 = 0\<rparr>,
      task_name = ''sh'', pid = 1, ppid = 0, state = st, pml4e_addr = 0, cwd = '''', task_next = nx,
      vma = None, ustack = 0, task_rsp = 0, task_cr3 = 0x1000, task_rip = 0x400000, entry_pt = 0,
      kernel_rsp = k\<rparr>"

definition demo_cpu :: cpu where
  "demo_cpu = \<lparr>rax = 1, rbx = 2, rcx = 3, rdx = 4, rsi = 5, rdi = 6, rbp = 7, r8 = 8, r9 = 9,
     rsp = 0x8000, rip = 0x10, cs = 8, rflags = 0, ss = 16\<rparr>"

text \<open>An idle task at the head, a running task and two waiting ones.\<close>

definition demo_kernel :: kernel where
  "demo_kernel = vm.extend demo_vm
     (kernel.fields
       ((\<lambda>_. demo_task None TASK_WAITING 0)
          (0x5000 := demo_task (Some 0x6000) TASK_WAITING 0xA000,
           0x6000 := demo_task (Some 0x7000) TASK_RUNNING 0x9000,
           0x7000 := demo_task (Some 0x8000) TASK_WAITING 0xB000,
           0x8000 := demo_task None TASK_WAITING 0xC000))
       (\<lambda>_. \<lparr>vma_start = 0, vma_end = 0, vma_next = None, vma_flags = 0, vma_type = 0, vm_memsz = 0,
             vm_offset = 0, vm_file = 0\<rparr>)
       (\<lambda>_. 0) (Some 0x5000) (Some 0x6000) None None None 0 demo_cpu [])"

lemma demo_kernel_sel [simp]:
  "current demo_kernel = Some 0x5000" "currentRunningTask demo_kernel = Some 0x6000"
  "tasks demo_kernel 0x5000 = demo_task (Some 0x6000) TASK_WAITING 0xA000"
  "tasks demo_kernel 0x6000 = demo_task (Some 0x7000) TASK_RUNNING 0x9000"
  "tasks demo_kernel 0x7000 = demo_task (Some 0x8000) TASK_WAITING 0xB000"
  "tasks demo_kernel 0x8000 = demo_task None TASK_WAITING 0xC000"
  "tasks demo_kernel 0xD000 = demo_task None TASK_WAITING 0"
  "cpu_state demo_kernel = demo_cpu"
  by (simp_all add: demo_kernel_def vm.defs kernel.defs)

lemma demo_task_sel [simp]:
  "task_next (demo_task nx st k) = nx" "state (demo_task nx st k) = st"
  "kernel_rsp (demo_task nx st k) = k" "task_cr3 (demo_task nx st k) = 0x1000"
  by (simp_all add: demo_task_def)

lemma demo_tlist: "tlist demo_kernel [0x5000, 0x6000, 0x7000, 0x8000]"
  by (simp add: tlist_def)

theorem getNextWaitingTask_refines_pick_witness:
  "\<exists>s'. getNextWaitingTask demo_kernel = Some (Some 0x7000, s') \<and>
     tlist s' [0x5000, 0x6000, 0x8000, 0x7000]"
  using getNextWaitingTask_refines_pick [OF demo_tlist] by (auto simp: pick_next_def)

theorem addProcessToList_in_order_witness:
  "\<exists>s'. for_each (\<lambda>t s. addProcessToList s t) [0xD000] demo_kernel = Some s' \<and>
     tlist s' [0x5000, 0x6000, 0x7000, 0x8000, 0xD000]"
  using addProcessToList_in_order [OF demo_tlist, of "[0xD000]"] by simp

theorem switchTask_restores_witness:
  "\<exists>s' u'. switchTask (demo_kernel\<lparr>from_task := Some 0x5000, to_task := Some 0x6000\<rparr>) = Some s' \<and>
     switchTask (s'\<lparr>from_task := Some 0x6000, to_task := Some 0x5000\<rparr>) = Some u' \<and>
     rax (cpu_state u') = 1 \<and> rsp (cpu_state u') = 0x8010"
proof -
  let ?s = "demo_kernel\<lparr>from_task := Some 0x5000, to_task := Some 0x6000\<rparr>"
  obtain s' where s': "switchTask ?s = Some s'"
    using switchTask_tasks [of ?s "0x6000" "0x5000"] by auto
  let ?u = "s'\<lparr>from_task := Some 0x6000, to_task := Some 0x5000\<rparr>"
  obtain u' where u': "switchTask ?u = Some u'"
    using switchTask_tasks [of ?u "0x5000" "0x6000"] by auto
  have r: "rsp (cpu_state s') = 0x9038"
    using switchTask_mem(3) [OF s', of "0x5000" "0x6000" "0x9030"]
    by (simp add: save_slots_def)
  show ?thesis
    using switchTask_restores [OF s' _ _ _ u'] s' u' r by (simp add: save_slots_def demo_cpu_def)
qed

theorem yield_switches_witness:
  "\<exists>s'. yield demo_kernel = Some s' \<and> currentRunningTask s' = Some 0x7000 \<and>
     state (tasks s' 0x6000) = TASK_RUNNING \<and> kernel_rsp (tasks s' 0x5000) = 0x7FD8"
  using yield_switches [of demo_kernel "0x5000" "[0x6000]" "0x7000" "[0x8000]" "0x6000"] demo_tlist
  by (auto simp: demo_cpu_def)

theorem proc_ps_prints_witness:
  "\<exists>s'. proc_ps demo_kernel = Some s' \<and> length (kout s') = length (kout demo_kernel) + 5"
  using proc_ps_prints [OF demo_tlist] by (simp add: ps_shown_def demo_task_def)

theorem sched_invariant_witness:
  "\<exists>s'. yield demo_kernel = Some s' \<and> (\<exists>ys'. tlist s' (0x5000 # ys') \<and> {0x6000, 0x7000, 0x8000} \<subseteq> set ys')"
proof -
  obtain s' where s': "yield demo_kernel = Some s'"
    using yield_spec [of demo_kernel "0x5000" "[0x6000]" "0x7000" "[0x8000]"] demo_tlist by auto
  then have "sched_step\<^sup>*\<^sup>* demo_kernel s'" by (simp add: r_into_rtranclp sched_step.give_up)
  from sched_invariant [OF this demo_tlist] s' show ?thesis by auto
qed


end
