(* ===== verification/CString.thy ===== *)
theory CString
  imports Prelude
begin

unbundle bit_operations_syntax

text \<open>
  The string and memory routines of \<^verbatim>\<open>libc/string.c\<close>, \<^verbatim>\<open>sys/string1.c\<close> and the copies in
  \<^verbatim>\<open>sys/keyboard.c\<close>, \<^verbatim>\<open>sys/elf.c\<close>, \<^verbatim>\<open>sys/main.c\<close> and \<^verbatim>\<open>sys/tarfs.c\<close>, on a flat memory of
  bytes. A \<open>char\<close> is signed, an \<open>int\<close> is 32 bits wide. The loops follow the code and have no
  value when they do not end, so every result below includes that they end.
\<close>

type_synonym bytes = "u64 \<Rightarrow> u8"

abbreviation char_int :: "u8 \<Rightarrow> u32" where "char_int c \<equiv> scast c"

subsection \<open>Copying strings\<close>

partial_function (option) strcpy_loop :: "bytes \<Rightarrow> u64 \<Rightarrow> u64 \<Rightarrow> bytes option" where
  "strcpy_loop m dest src =
     (if m src \<noteq> 0 then strcpy_loop (m(dest := m src)) (dest + 1) (src + 1)
      else Some (m(dest := 0)))"

definition strcpy :: "bytes \<Rightarrow> u64 \<Rightarrow> u64 \<Rightarrow> (u64 \<times> bytes) option" where
  "strcpy m dest src = do { m \<leftarrow> strcpy_loop m dest src; Some (dest, m) }"

text \<open>The copies of this routine in other files.\<close>

definition keyboard_strcpy :: "bytes \<Rightarrow> u64 \<Rightarrow> u64 \<Rightarrow> (u64 \<times> bytes) option" where
  "keyboard_strcpy = strcpy"

definition sastrcpy :: "bytes \<Rightarrow> u64 \<Rightarrow> u64 \<Rightarrow> (u64 \<times> bytes) option" where
  "sastrcpy = strcpy"

definition asstrcpy :: "bytes \<Rightarrow> u64 \<Rightarrow> u64 \<Rightarrow> (u64 \<times> bytes) option" where
  "asstrcpy = strcpy"

text \<open>\<open>sstrcpy\<close> tests the byte after it is stored.\<close>

partial_function (option) sstrcpy_loop :: "bytes \<Rightarrow> u64 \<Rightarrow> u64 \<Rightarrow> bytes option" where
  "sstrcpy_loop m dst src =
     (let c = m src; m = m(dst := c)
      in if c \<noteq> 0 then sstrcpy_loop m (dst + 1) (src + 1) else Some m)"

definition sstrcpy :: "bytes \<Rightarrow> u64 \<Rightarrow> u64 \<Rightarrow> (u64 \<times> bytes) option" where
  "sstrcpy m dst src = do { m \<leftarrow> sstrcpy_loop m dst src; Some (dst, m) }"

partial_function (option) strncpy_loop :: "bytes \<Rightarrow> u64 \<Rightarrow> u64 \<Rightarrow> u32 \<Rightarrow> bytes option" where
  "strncpy_loop m dest src count =
     (if count \<noteq> 0 \<and> m src \<noteq> 0
      then strncpy_loop (m(dest := m src)) (dest + 1) (src + 1) (count - 1)
      else Some (m(dest := 0)))"

definition strncpy :: "bytes \<Rightarrow> u64 \<Rightarrow> u64 \<Rightarrow> u32 \<Rightarrow> (u64 \<times> bytes) option" where
  "strncpy m dest src count = do { m \<leftarrow> strncpy_loop m dest src count; Some (dest, m) }"

subsection \<open>Comparing and searching\<close>

partial_function (option) strcmp :: "bytes \<Rightarrow> u64 \<Rightarrow> u64 \<Rightarrow> u32 option" where
  "strcmp m str1 str2 =
     (if m str1 \<noteq> 0 \<and> m str2 \<noteq> 0 \<and> m str1 = m str2 then strcmp m (str1 + 1) (str2 + 1)
      else Some (char_int (m str1) - char_int (m str2)))"

text \<open>The kernel's version subtracts unsigned characters.\<close>

partial_function (option) strcmp_k :: "bytes \<Rightarrow> u64 \<Rightarrow> u64 \<Rightarrow> u32 option" where
  "strcmp_k m str1 str2 =
     (if m str1 \<noteq> 0 \<and> m str2 \<noteq> 0 \<and> m str1 = m str2 then strcmp_k m (str1 + 1) (str2 + 1)
      else Some (ucast (m str1) - ucast (m str2)))"

partial_function (option) sstrcmp :: "bytes \<Rightarrow> u64 \<Rightarrow> u64 \<Rightarrow> u32 option" where
  "sstrcmp m p q =
     (if m p \<noteq> 0 \<or> m q \<noteq> 0 then if m p \<noteq> m q then Some (- 1) else sstrcmp m (p + 1) (q + 1)
      else Some 0)"

partial_function (option) strncmp :: "bytes \<Rightarrow> u64 \<Rightarrow> u64 \<Rightarrow> u32 \<Rightarrow> u32 option" where
  "strncmp m str1 str2 count =
     (if count \<noteq> 0 then
        if m str1 \<noteq> 0 \<and> m str2 \<noteq> 0 \<and> m str1 = m str2
        then strncmp m (str1 + 1) (str2 + 1) (count - 1)
        else Some (char_int (m str1) - char_int (m str2))
      else Some 0)"

definition sstrncmp :: "bytes \<Rightarrow> u64 \<Rightarrow> u64 \<Rightarrow> u32 \<Rightarrow> u32 option" where
  "sstrncmp = strncmp"

partial_function (option) strlen_loop :: "bytes \<Rightarrow> u64 \<Rightarrow> u32 \<Rightarrow> u32 option" where
  "strlen_loop m str len = (if m str \<noteq> 0 then strlen_loop m (str + 1) (len + 1) else Some len)"

definition strlen :: "bytes \<Rightarrow> u64 \<Rightarrow> u32 option" where
  "strlen m str = strlen_loop m str 0"

partial_function (option) strlen_k_loop :: "bytes \<Rightarrow> u64 \<Rightarrow> u64 \<Rightarrow> u64 option" where
  "strlen_k_loop m str len = (if m str \<noteq> 0 then strlen_k_loop m (str + 1) (len + 1) else Some len)"

definition strlen_k :: "bytes \<Rightarrow> u64 \<Rightarrow> u64 option" where
  "strlen_k m str = strlen_k_loop m str 0"

partial_function (option) index :: "bytes \<Rightarrow> u64 \<Rightarrow> u8 \<Rightarrow> u64 option option" where
  "index m str chr =
     (if m str \<noteq> 0 then if m str = chr then Some (Some str) else index m (str + 1) chr
      else Some None)"

text \<open>The inner loop of \<open>strstr\<close> returns where it stopped in the pattern.\<close>

partial_function (option) strstr_match :: "bytes \<Rightarrow> u64 \<Rightarrow> u64 \<Rightarrow> u64 option" where
  "strstr_match m str pattern =
     (if m str \<noteq> 0 \<and> m pattern \<noteq> 0 \<and> m str = m pattern
      then strstr_match m (str + 1) (pattern + 1) else Some pattern)"

partial_function (option) strstr :: "bytes \<Rightarrow> u64 \<Rightarrow> u64 \<Rightarrow> u64 option option" where
  "strstr m str substr =
     (if m str \<noteq> 0 then do {
        pattern \<leftarrow> strstr_match m str substr;
        if m pattern = 0 then Some (Some str) else strstr m (str + 1) substr }
      else Some None)"

subsection \<open>Appending\<close>

partial_function (option) find_end :: "bytes \<Rightarrow> u64 \<Rightarrow> u64 option" where
  "find_end m p = (if m p \<noteq> 0 then find_end m (p + 1) else Some p)"

partial_function (option) strcat_copy :: "bytes \<Rightarrow> u64 \<Rightarrow> u64 \<Rightarrow> bytes option" where
  "strcat_copy m new orig =
     (let m = m(new := m orig); new = new + 1; orig = orig + 1
      in if m orig \<noteq> 0 then strcat_copy m new orig else Some m)"

definition strcat :: "bytes \<Rightarrow> u64 \<Rightarrow> u64 \<Rightarrow> bytes option" where
  "strcat m new orig = do { new \<leftarrow> find_end m new; strcat_copy m new orig }"

partial_function (option) strcat_k_copy :: "bytes \<Rightarrow> u64 \<Rightarrow> u64 \<Rightarrow> bytes option" where
  "strcat_k_copy m str1 str2 =
     (if m str2 \<noteq> 0 then strcat_k_copy (m(str1 := m str2)) (str1 + 1) (str2 + 1) else Some m)"

definition strcat_k :: "bytes \<Rightarrow> u64 \<Rightarrow> u64 \<Rightarrow> (u64 \<times> bytes) option" where
  "strcat_k m str1 str2 = do {
     e \<leftarrow> find_end m str1;
     m \<leftarrow> strcat_k_copy m e str2;
     Some (str1, m) }"

partial_function (option) strncat_copy :: "bytes \<Rightarrow> u64 \<Rightarrow> u64 \<Rightarrow> u32 \<Rightarrow> bytes option" where
  "strncat_copy m new orig count =
     (if count \<noteq> 0 \<and> m orig \<noteq> 0
      then strncat_copy (m(new := m orig)) (new + 1) (orig + 1) (count - 1)
      else Some (m(new := 0)))"

definition strncat :: "bytes \<Rightarrow> u64 \<Rightarrow> u64 \<Rightarrow> u32 \<Rightarrow> bytes option" where
  "strncat m new orig count =
     (if count \<noteq> 0 then do { e \<leftarrow> find_end m (new + 1); strncat_copy m e orig count }
      else Some m)"

subsection \<open>Tokens\<close>

text \<open>\<open>token\<close> is the static variable of \<open>strtok\<close> (0 is \<open>NULL\<close>).\<close>

partial_function (option) delim_loop :: "bytes \<Rightarrow> u64 \<Rightarrow> u32 \<Rightarrow> u8 \<Rightarrow> u32 \<Rightarrow> u32 option" where
  "delim_loop m delims str_len c idx =
     (if sint idx < sint str_len then
        if c = m (delims + scast idx) then Some idx else delim_loop m delims str_len c (idx + 1)
      else Some idx)"

partial_function (option) strtok_skip :: "bytes \<Rightarrow> u64 \<Rightarrow> u32 \<Rightarrow> u64 \<Rightarrow> u64 option" where
  "strtok_skip m delims str_len str_ptr = do {
     idx \<leftarrow> delim_loop m delims str_len (m str_ptr) 0;
     let str_ptr = (if sint idx < sint str_len then str_ptr + 1 else str_ptr);
     if idx = str_len then Some str_ptr else strtok_skip m delims str_len str_ptr }"

partial_function (option) strtok_scan :: "bytes \<Rightarrow> u64 \<Rightarrow> u32 \<Rightarrow> u64 \<Rightarrow> (u64 \<times> bytes) option" where
  "strtok_scan m delims str_len token =
     (if m token \<noteq> 0 then do {
        idx \<leftarrow> delim_loop m delims str_len (m token) 0;
        let m = (if sint idx < sint str_len then m(token := 0) else m);
        let token = token + 1;
        if sint idx < sint str_len then Some (token, m) else strtok_scan m delims str_len token }
      else Some (token, m))"

definition strtok :: "bytes \<Rightarrow> u64 \<Rightarrow> u64 \<Rightarrow> u64 \<Rightarrow> (u64 \<times> u64 \<times> bytes) option" where
  "strtok m token parse_str delims = do {
     str_len \<leftarrow> strlen m delims;
     if parse_str = 0 \<and> token = 0 then Some (0, token, m)
     else do {
       let token = (if parse_str \<noteq> 0 \<and> token = 0 then parse_str else token);
       str_ptr \<leftarrow> strtok_skip m delims str_len token;
       let token = str_ptr;
       if m token = 0 then Some (0, 0, m)
       else do {
         (token, m) \<leftarrow> strtok_scan m delims str_len token;
         Some (str_ptr, token, m) } } }"

subsection \<open>Numbers\<close>

text \<open>\<open>str_to_int\<close> works on a local buffer of ten bytes that starts as zeros: a longer string
  overruns it.\<close>

partial_function (option) get_str :: "bytes \<Rightarrow> u64 \<Rightarrow> u8 list option" where
  "get_str m p = (if m p \<noteq> 0 then do { xs \<leftarrow> get_str m (p + 1); Some (m p # xs) } else Some [])"

fun str_to_int_loop :: "u8 list \<Rightarrow> nat \<Rightarrow> u32 \<Rightarrow> u32 \<Rightarrow> u32" where
  "str_to_int_loop buffer 0 val io = val"
| "str_to_int_loop buffer (Suc pos) val io =
     str_to_int_loop buffer pos (val + char_int (buffer ! pos - 48) * io) (io * 10)"

definition str_to_int :: "bytes \<Rightarrow> u64 \<Rightarrow> u32 option" where
  "str_to_int m str = do {
     xs \<leftarrow> get_str m str;
     if length xs < 10 then
       let pos = length (takeWhile (\<lambda>c. c \<noteq> 0 \<and> c \<noteq> 10) xs)
       in Some (str_to_int_loop (xs @ replicate (10 - length xs) 0) pos 0 1)
     else None }"

definition atoi :: "bytes \<Rightarrow> u64 \<Rightarrow> u32 option" where
  "atoi m str = str_to_int m str"

subsection \<open>Blocks of memory\<close>

partial_function (option) bzero :: "bytes \<Rightarrow> u64 \<Rightarrow> u32 \<Rightarrow> bytes option" where
  "bzero m res n = (if n \<noteq> 0 then bzero (m(res := 0)) (res + 1) (n - 1) else Some m)"

partial_function (option) memset_loop :: "bytes \<Rightarrow> u64 \<Rightarrow> u32 \<Rightarrow> u64 \<Rightarrow> u32 \<Rightarrow> bytes option" where
  "memset_loop m ptr v num i =
     (if scast i < num then memset_loop (m(ptr + scast i := ucast v)) ptr v num (i + 1) else Some m)"

definition memset :: "bytes \<Rightarrow> u64 \<Rightarrow> u32 \<Rightarrow> u64 \<Rightarrow> bytes option" where
  "memset m ptr v num = memset_loop m ptr v num 0"

partial_function (option) memcpy_down :: "bytes \<Rightarrow> u64 \<Rightarrow> u64 \<Rightarrow> u64 \<Rightarrow> bytes option" where
  "memcpy_down m pd ps n =
     (if n \<noteq> 0 then memcpy_down (m(pd - 1 := m (ps - 1))) (pd - 1) (ps - 1) (n - 1) else Some m)"

partial_function (option) memcpy_up :: "bytes \<Rightarrow> u64 \<Rightarrow> u64 \<Rightarrow> u64 \<Rightarrow> bytes option" where
  "memcpy_up m pd ps n =
     (if n \<noteq> 0 then memcpy_up (m(pd := m ps)) (pd + 1) (ps + 1) (n - 1) else Some m)"

definition memcpy :: "bytes \<Rightarrow> u64 \<Rightarrow> u64 \<Rightarrow> u64 \<Rightarrow> (u64 \<times> bytes) option" where
  "memcpy m dest src n = do {
     m \<leftarrow> (if src < dest then memcpy_down m (dest + n) (src + n) n else memcpy_up m dest src n);
     Some (dest, m) }"

text \<open>The kernel has these two routines as well, word for word.\<close>

definition memset_k :: "bytes \<Rightarrow> u64 \<Rightarrow> u32 \<Rightarrow> u64 \<Rightarrow> bytes option" where
  "memset_k m ptr v num = memset_loop m ptr v num 0"

definition memcpy_k :: "bytes \<Rightarrow> u64 \<Rightarrow> u64 \<Rightarrow> u64 \<Rightarrow> (u64 \<times> bytes) option" where
  "memcpy_k m dest src n = do {
     m \<leftarrow> (if src < dest then memcpy_down m (dest + n) (src + n) n else memcpy_up m dest src n);
     Some (dest, m) }"

subsection \<open>Regions and their contents\<close>

definition region :: "u64 \<Rightarrow> nat \<Rightarrow> u64 set" where
  "region p n = {a. unat (a - p) < n}"

definition blit :: "bytes \<Rightarrow> u64 \<Rightarrow> u8 list \<Rightarrow> bytes" where
  "blit m p xs a = (if unat (a - p) < length xs then xs ! unat (a - p) else m a)"

primrec arr :: "bytes \<Rightarrow> u64 \<Rightarrow> u8 list \<Rightarrow> bool" where
  "arr m p [] = True"
| "arr m p (x # xs) = (m p = x \<and> arr m (p + 1) xs)"

definition cstr :: "bytes \<Rightarrow> u64 \<Rightarrow> u8 list \<Rightarrow> bool" where
  "cstr m p xs \<longleftrightarrow> arr m p (xs @ [0]) \<and> 0 \<notin> set xs"

lemma unat_lt_64: "unat (w :: u64) < 2 ^ 64"
  using unsigned_less [of w, where 'a = nat] by simp

lemma unat_pred: "w \<noteq> 0 \<Longrightarrow> unat (w - 1 :: u64) = unat w - 1"
  by (simp add: unat_minus_one)

lemma unat_pred_diff: "a \<noteq> p \<Longrightarrow> unat (a - (p + 1) :: u64) = unat (a - p) - 1"
  using unat_pred [of "a - p"] by (simp add: algebra_simps)

lemma unat_diff_pos: "a \<noteq> p \<Longrightarrow> 0 < unat (a - p :: u64)"
  by (simp add: unat_gt_0)

lemma unat_diff_self: "unat (p - (p + 1) :: u64) = 2 ^ 64 - 1"
  by (simp add: unsigned_minus_1_eq_mask mask_eq_exp_minus_1)

lemma region_Suc:
  assumes "n < 2 ^ 64"
  shows "region p (Suc n) = insert p (region (p + 1) n)"
proof (rule set_eqI)
  fix a
  show "a \<in> region p (Suc n) \<longleftrightarrow> a \<in> insert p (region (p + 1) n)"
  proof (cases "a = p")
    case False
    then show ?thesis using unat_pred_diff [OF False] unat_diff_pos [OF False]
      by (auto simp: region_def)
  qed (simp add: region_def)
qed

lemma notin_region_Suc: "n < 2 ^ 64 \<Longrightarrow> p \<notin> region (p + 1) n"
  using unat_diff_self [of p] by (simp add: region_def)

lemma region_mono: "n \<le> k \<Longrightarrow> region p n \<subseteq> region p k"
  by (auto simp: region_def)

lemma blit_Nil [simp]: "blit m p [] = m"
  by (simp add: blit_def fun_eq_iff)

lemma blit_Cons:
  assumes "length xs < 2 ^ 64"
  shows "blit m p (x # xs) = blit (m(p := x)) (p + 1) xs"
proof
  fix a
  show "blit m p (x # xs) a = blit (m(p := x)) (p + 1) xs a"
  proof (cases "a = p")
    case True
    with assms unat_diff_self [of p] show ?thesis by (simp add: blit_def)
  next
    case False
    then show ?thesis using unat_pred_diff [OF False] unat_diff_pos [OF False]
      by (auto simp: blit_def nth_Cons')
  qed
qed

lemma blit_outside: "a \<notin> region p (length xs) \<Longrightarrow> blit m p xs a = m a"
  by (simp add: blit_def region_def)

lemma arr_cong:
  assumes "length xs \<le> 2 ^ 64" "\<And>a. a \<in> region p (length xs) \<Longrightarrow> m a = m' a"
  shows "arr m p xs = arr m' p xs"
  using assms by (induction xs arbitrary: p) (simp_all add: region_Suc)

lemma arr_upd: "length xs \<le> 2 ^ 64 \<Longrightarrow> a \<notin> region p (length xs) \<Longrightarrow> arr (m(a := v)) p xs = arr m p xs"
  by (rule arr_cong) auto

lemma arr_blit: "length xs \<le> 2 ^ 64 \<Longrightarrow> arr (blit m p xs) p xs"
proof (induction xs arbitrary: m p)
  case (Cons x xs)
  then have l: "length xs < 2 ^ 64" by simp
  have "blit (m(p := x)) (p + 1) xs p = x"
    using notin_region_Suc [OF l] by (simp add: blit_outside)
  then show ?case unfolding blit_Cons [OF l] arr.simps using Cons.IH Cons.prems by auto
qed simp

lemma arr_append: "arr m p (xs @ ys) \<longleftrightarrow> arr m p xs \<and> arr m (p + of_nat (length xs)) ys"
  by (induction xs arbitrary: p) (simp_all add: add.assoc)

lemma arr_nthD: "arr m p xs \<Longrightarrow> i < length xs \<Longrightarrow> m (p + of_nat i) = xs ! i"
proof (induction xs arbitrary: p i)
  case (Cons x xs)
  then show ?case by (cases i) (auto simp: add.assoc [symmetric])
qed simp

lemma arr_shift:
  "arr m p xs \<Longrightarrow> (\<And>i. i < length xs \<Longrightarrow> m' (p' + of_nat i) = m (p + of_nat i)) \<Longrightarrow> arr m' p' xs"
proof (induction xs arbitrary: p p')
  case (Cons x xs)
  have "m' (p' + 1 + of_nat i) = m (p + 1 + of_nat i)" if "i < length xs" for i
    using Cons.prems(2) [of "Suc i"] that by (simp add: add.assoc)
  with Cons.IH [of "p + 1" "p' + 1"] Cons.prems(1) Cons.prems(2) [of 0] show ?case by simp
qed simp

lemma arr_map_upt: "arr m p (map (\<lambda>i. m (p + of_nat i)) [0..<n])"
  by (induction n) (simp_all add: arr_append)


lemma cstr_Nil: "cstr m p [] \<longleftrightarrow> m p = 0"
  by (simp add: cstr_def)

lemma cstr_Cons: "cstr m p (x # xs) \<longleftrightarrow> m p = x \<and> x \<noteq> 0 \<and> cstr m (p + 1) xs"
  by (auto simp: cstr_def)

lemmas cstr_simps = cstr_Nil cstr_Cons

lemma cstr_unique: "cstr m p xs \<Longrightarrow> cstr m p ys \<Longrightarrow> xs = ys"
proof (induction xs arbitrary: p ys)
  case Nil
  then show ?case by (cases ys) (auto simp: cstr_simps)
next
  case (Cons x xs)
  then show ?case by (cases ys) (auto simp: cstr_simps)
qed

text \<open>A terminated string cannot wrap around the address space.\<close>

lemma cstr_length:
  assumes "cstr m p xs"
  shows "length xs < 2 ^ 64"
proof (rule ccontr)
  assume c: "\<not> length xs < 2 ^ 64"
  then obtain i where i: "length xs = i + 2 ^ 64" by (metis add.commute le_Suc_ex linorder_not_less)
  have "p + of_nat (length xs) = p + (of_nat i :: u64)" by (simp add: i)
  moreover have "m (p + of_nat (length xs)) = 0" "m (p + of_nat i) = xs ! i"
    using assms i by (auto simp: cstr_def arr_append arr_nthD)
  moreover have "xs ! i \<in> set xs" using i by simp
  ultimately show False using assms by (auto simp: cstr_def)
qed

subsection \<open>What the routines compute\<close>

lemma strlen_loop_spec: "cstr m p xs \<Longrightarrow> strlen_loop m p n = Some (n + of_nat (length xs))"
proof (induction xs arbitrary: p n)
  case (Cons x xs)
  then show ?case by (subst strlen_loop.simps) (simp add: cstr_simps add.commute add.left_commute)
qed (subst strlen_loop.simps, simp add: cstr_simps)

lemma strlen_k_loop_spec: "cstr m p xs \<Longrightarrow> strlen_k_loop m p n = Some (n + of_nat (length xs))"
proof (induction xs arbitrary: p n)
  case (Cons x xs)
  then show ?case by (subst strlen_k_loop.simps) (simp add: cstr_simps add.commute add.left_commute)
qed (subst strlen_k_loop.simps, simp add: cstr_simps)

lemma strlen_spec: "cstr m p xs \<Longrightarrow> strlen m p = Some (of_nat (length xs))"
  by (simp add: strlen_def strlen_loop_spec)

lemma strlen_k_spec: "cstr m p xs \<Longrightarrow> strlen_k m p = Some (of_nat (length xs))"
  by (simp add: strlen_k_def strlen_k_loop_spec)

lemma find_end_spec: "cstr m p xs \<Longrightarrow> find_end m p = Some (p + of_nat (length xs))"
proof (induction xs arbitrary: p)
  case (Cons x xs)
  then show ?case by (subst find_end.simps) (simp add: cstr_simps add.assoc [symmetric])
qed (subst find_end.simps, simp add: cstr_simps)

lemma get_str_spec: "cstr m p xs \<Longrightarrow> get_str m p = Some xs"
proof (induction xs arbitrary: p)
  case (Cons x xs)
  then show ?case by (subst get_str.simps) (simp add: cstr_simps)
qed (subst get_str.simps, simp add: cstr_simps)

text \<open>A write below or beside a string leaves it alone.\<close>

lemma cstr_upd:
  assumes "cstr m p xs" "a \<notin> region p (Suc (length xs))"
  shows "cstr (m(a := v)) p xs"
  using assms cstr_length [OF assms(1)] by (simp add: cstr_def arr_upd del: fun_upd_apply)

lemma region_tail: "n < 2 ^ 64 \<Longrightarrow> region (p + 1) n \<subseteq> region p (Suc n)"
  by (auto simp: region_Suc)

text \<open>The shape shared by the copying loops: source and destination apart, the step writes the
  first byte and goes on with the rest.\<close>

lemma copy_step:
  assumes "cstr m src (x # xs)" "region dest (Suc (Suc (length xs))) \<inter> region src (Suc (Suc (length xs))) = {}"
  shows "cstr (m(dest := x)) (src + 1) xs"
    "region (dest + 1) (Suc (length xs)) \<inter> region (src + 1) (Suc (length xs)) = {}"
proof -
  note l = cstr_length [OF assms(1)]
  then have r: "region (src + 1) (Suc (length xs)) \<subseteq> region src (Suc (Suc (length xs)))"
    "region (dest + 1) (Suc (length xs)) \<subseteq> region dest (Suc (Suc (length xs)))"
    by (intro region_tail; simp)+
  have "dest \<in> region dest (Suc (Suc (length xs)))" by (simp add: region_def)
  with assms r show "cstr (m(dest := x)) (src + 1) xs"
    by (intro cstr_upd) (auto simp: cstr_simps)
  show "region (dest + 1) (Suc (length xs)) \<inter> region (src + 1) (Suc (length xs)) = {}"
    using assms(2) r by blast
qed

lemma strcpy_loop_spec:
  assumes "cstr m src xs" "region dest (Suc (length xs)) \<inter> region src (Suc (length xs)) = {}"
  shows "strcpy_loop m dest src = Some (blit m dest (xs @ [0]))"
  using assms
proof (induction xs arbitrary: m dest src)
  case Nil
  then show ?case by (subst strcpy_loop.simps) (simp add: cstr_simps blit_Cons)
next
  case (Cons x xs)
  have "strcpy_loop (m(dest := x)) (dest + 1) (src + 1) = Some (blit (m(dest := x)) (dest + 1) (xs @ [0]))"
    by (rule Cons.IH [OF copy_step]) (use Cons.prems in simp_all)
  then show ?case
    using Cons.prems(1) cstr_length [OF Cons.prems(1)]
    by (subst strcpy_loop.simps) (simp add: cstr_simps blit_Cons del: fun_upd_apply)
qed

lemma sstrcpy_loop_spec:
  assumes "cstr m src xs" "region dest (Suc (length xs)) \<inter> region src (Suc (length xs)) = {}"
  shows "sstrcpy_loop m dest src = Some (blit m dest (xs @ [0]))"
  using assms
proof (induction xs arbitrary: m dest src)
  case Nil
  then show ?case by (subst sstrcpy_loop.simps) (simp add: cstr_simps blit_Cons Let_def)
next
  case (Cons x xs)
  have "sstrcpy_loop (m(dest := x)) (dest + 1) (src + 1) = Some (blit (m(dest := x)) (dest + 1) (xs @ [0]))"
    by (rule Cons.IH [OF copy_step]) (use Cons.prems in simp_all)
  then show ?case
    using Cons.prems(1) cstr_length [OF Cons.prems(1)]
    by (subst sstrcpy_loop.simps) (simp add: cstr_simps blit_Cons Let_def del: fun_upd_apply)
qed

lemma cstr_blit:
  assumes "0 \<notin> set xs" "length xs < 2 ^ 64"
  shows "cstr (blit m p (xs @ [0])) p xs"
  using assms arr_blit [of "xs @ [0]" m p] by (simp add: cstr_def)

text \<open>Comparison walks along the common prefix.\<close>

fun first_diff :: "u8 list \<Rightarrow> u8 list \<Rightarrow> u8 \<times> u8" where
  "first_diff (x # xs) (y # ys) = (if x = y then first_diff xs ys else (x, y))"
| "first_diff [] (y # ys) = (0, y)"
| "first_diff (x # xs) [] = (x, 0)"
| "first_diff [] [] = (0, 0)"

lemma strcmp_spec:
  assumes "cstr m p xs" "cstr m q ys"
  shows "strcmp m p q = Some (let (x, y) = first_diff xs ys in char_int x - char_int y)"
    and "strcmp_k m p q = Some (let (x, y) = first_diff xs ys in ucast x - ucast y)"
    and "sstrcmp m p q = Some (if xs = ys then 0 else - 1)"
  using assms
  by (induction xs ys arbitrary: p q rule: first_diff.induct)
     (subst strcmp.simps strcmp_k.simps sstrcmp.simps; auto simp: cstr_simps)+

lemma first_diff_eq:
  "0 \<notin> set xs \<Longrightarrow> 0 \<notin> set ys \<Longrightarrow> fst (first_diff xs ys) = snd (first_diff xs ys) \<longleftrightarrow> xs = ys"
  by (induction xs ys rule: first_diff.induct) auto

subsection \<open>Appending\<close>

lemma arr_prefix: "arr m p (xs @ ys) \<Longrightarrow> arr m p xs"
  by (simp add: arr_append)

lemma strcat_k_copy_spec:
  assumes "cstr m src xs" "region dest (Suc (length xs)) \<inter> region src (Suc (length xs)) = {}"
  shows "strcat_k_copy m dest src = Some (blit m dest xs)"
  using assms
proof (induction xs arbitrary: m dest src)
  case Nil
  then show ?case by (subst strcat_k_copy.simps) (simp add: cstr_simps)
next
  case (Cons x xs)
  have "strcat_k_copy (m(dest := x)) (dest + 1) (src + 1) = Some (blit (m(dest := x)) (dest + 1) xs)"
    by (rule Cons.IH [OF copy_step]) (use Cons.prems in simp_all)
  then show ?case
    using Cons.prems(1) cstr_length [OF Cons.prems(1)]
    by (subst strcat_k_copy.simps) (simp add: cstr_simps blit_Cons del: fun_upd_apply)
qed

lemma strcat_copy_spec:
  assumes "cstr m src (x # xs)"
    "region dest (Suc (Suc (length xs))) \<inter> region src (Suc (Suc (length xs))) = {}"
  shows "strcat_copy m dest src = Some (blit m dest (x # xs))"
  using assms
proof (induction xs arbitrary: m dest src x)
  case Nil
  have "cstr (m(dest := x)) (src + 1) []" by (rule copy_step) (use Nil in simp_all)
  then show ?case using Nil(1)
    by (subst strcat_copy.simps) (simp add: cstr_simps Let_def blit_Cons)
next
  case (Cons y xs)
  have c: "cstr (m(dest := x)) (src + 1) (y # xs)" by (rule copy_step) (use Cons.prems in simp_all)
  have "strcat_copy (m(dest := x)) (dest + 1) (src + 1) = Some (blit (m(dest := x)) (dest + 1) (y # xs))"
    by (rule Cons.IH [OF c]) (use copy_step(2) [OF Cons.prems(1)] Cons.prems(2) in simp)
  moreover have "(m(dest := x)) (src + 1) \<noteq> 0" using c by (simp add: cstr_simps)
  moreover have "blit m dest (x # y # xs) = blit (m(dest := x)) (dest + 1) (y # xs)"
    using cstr_length [OF Cons.prems(1)] by (intro blit_Cons) simp
  ultimately show ?case
    using Cons.prems(1)
    by (subst strcat_copy.simps) (simp add: cstr_simps Let_def del: fun_upd_apply)
qed

subsection \<open>Blocks\<close>

lemma offset_nat:
  assumes "a \<noteq> p"
  shows "q + 1 + (a - (p + 1)) = (q + (a - p) :: u64)"
  by (simp add: algebra_simps)

lemma unat_Suc: "unat p + 1 < 2 ^ 64 \<Longrightarrow> unat (p + 1 :: u64) = unat p + 1"
  by (simp add: unat_word_ariths)

lemma unat_Suc_le: "unat (p + 1 :: u64) \<le> unat p + 1"
  by (simp add: unat_word_ariths)

lemma unat_add_small: "unat p + unat q < 2 ^ 64 \<Longrightarrow> unat (p + q :: u64) = unat p + unat q"
  by (simp add: unat_word_ariths)

text \<open>Copying upwards is right when the source does not start below the destination.\<close>

lemma memcpy_up_spec:
  assumes "n \<noteq> 0 \<Longrightarrow> unat pd \<le> unat ps" "unat ps + unat n \<le> 2 ^ 64"
  shows "memcpy_up m pd ps n = Some (\<lambda>a. if a \<in> region pd (unat n) then m (ps + (a - pd)) else m a)"
  using assms
proof (induction "unat n" arbitrary: m pd ps n)
  case 0
  then have "n = 0" by (simp add: unat_eq_zero)
  then show ?case by (subst memcpy_up.simps) (simp add: region_def)
next
  case (Suc k)
  then have n: "n \<noteq> 0" by auto
  with Suc.hyps(2) have k: "unat (n - 1) = k" by (simp add: unat_pred)
  have kn: "unat n = Suc k" using Suc.hyps(2) by simp
  have lt: "k < 2 ^ 64" using unat_lt_64 [of n] kn by simp
  have "memcpy_up (m(pd := m ps)) (pd + 1) (ps + 1) (n - 1) =
    Some (\<lambda>a. if a \<in> region (pd + 1) k then (m(pd := m ps)) (ps + 1 + (a - (pd + 1)))
             else (m(pd := m ps)) a)"
    unfolding k [symmetric]
  proof (rule Suc.hyps(1))
    show "k = unat (n - 1)" using k by simp
    show "unat (ps + 1) + unat (n - 1) \<le> 2 ^ 64"
      using Suc.prems(2) k kn unat_Suc_le [of ps] by simp
    assume "n - 1 \<noteq> 0"
    then have "unat (n - 1) \<noteq> 0" by (simp only: unsigned_eq_0_iff not_False_eq_True)
    then have "k \<noteq> 0" using k by simp
    then have "unat ps + 1 < 2 ^ 64" "unat pd + 1 < 2 ^ 64" using Suc.prems kn n by auto
    then show "unat (pd + 1) \<le> unat (ps + 1)" using Suc.prems(1) n by (simp add: unat_Suc)
  qed
  moreover have "(if a \<in> region (pd + 1) k then (m(pd := m ps)) (ps + 1 + (a - (pd + 1)))
      else (m(pd := m ps)) a) = (if a \<in> region pd (unat n) then m (ps + (a - pd)) else m a)" for a
  proof (cases "a = pd")
    case True
    then show ?thesis using notin_region_Suc [OF lt, of pd] kn by (simp add: region_Suc [OF lt])
  next
    case False
    have "ps + (a - pd) \<noteq> pd" if "a \<in> region (pd + 1) k"
    proof
      assume e: "ps + (a - pd) = pd"
      have "unat (a - pd) < unat n" "0 < unat (a - pd)"
        using that False kn region_tail [OF lt, of pd] by (auto simp: region_def unat_gt_0)
      then have "unat (ps + (a - pd)) > unat pd"
        using Suc.prems n by (subst unat_add_small) auto
      then show False by (simp only: e less_irrefl)
    qed
    with False show ?thesis
      by (simp add: offset_nat [OF False] kn region_Suc [OF lt])
  qed
  ultimately show ?case using n by (subst memcpy_up.simps) (simp del: fun_upd_apply)
qed


text \<open>Copying downwards, from the ends \<open>pd\<close> and \<open>ps\<close>, is right when the source lies below. The
  pointers are written as starts plus count.\<close>

lemma region_snoc:
  assumes "unat n = Suc k"
  shows "region d (Suc k) = insert (d + (n - 1)) (region d k)"
proof -
  have n: "unat (n - 1) = k" using assms unat_pred [of n] by fastforce
  have "unat (a - d) = k \<longleftrightarrow> a = d + (n - 1)" for a
    unfolding n [symmetric] word_unat_eq_iff [symmetric] by (auto simp: algebra_simps)
  then show ?thesis by (auto simp: region_def less_Suc_eq)
qed

lemma memcpy_down_spec:
  assumes "unat s < unat d" "unat d + unat n \<le> 2 ^ 64"
  shows "memcpy_down m (d + n) (s + n) n =
    Some (\<lambda>a. if a \<in> region d (unat n) then m (s + (a - d)) else m a)"
  using assms(2)
proof (induction "unat n" arbitrary: m n)
  case 0
  then have "n = 0" by (simp add: unat_eq_zero)
  then show ?case by (subst memcpy_down.simps) (simp add: region_def)
next
  case (Suc k)
  then have n: "n \<noteq> 0" by auto
  with Suc.hyps(2) have k: "unat (n - 1) = k" by (simp add: unat_pred)
  have kn: "unat n = Suc k" using Suc.hyps(2) by simp
  let ?m = "m(d + (n - 1) := m (s + (n - 1)))"
  have "memcpy_down ?m (d + (n - 1)) (s + (n - 1)) (n - 1) =
    Some (\<lambda>a. if a \<in> region d k then ?m (s + (a - d)) else ?m a)"
    unfolding k [symmetric] by (rule Suc.hyps(1)) (use k Suc.prems kn in simp_all)
  moreover have "(if a \<in> region d k then ?m (s + (a - d)) else ?m a) =
      (if a \<in> region d (unat n) then m (s + (a - d)) else m a)" for a
  proof (cases "a \<in> region d k")
    case True
    then have a: "unat (a - d) < k" by (simp add: region_def)
    have "s + (a - d) \<noteq> d + (n - 1)"
    proof
      assume e: "s + (a - d) = d + (n - 1)"
      have "unat (s + (a - d)) < unat (d + (n - 1))"
        using a assms(1) Suc.prems k kn by (subst (1 2) unat_add_small) auto
      then show False by (simp only: e less_irrefl)
    qed
    with True show ?thesis by (simp add: kn region_snoc [OF kn])
  next
    case False
    then show ?thesis by (simp add: kn region_snoc [OF kn])
  qed
  ultimately show ?case using n
    by (subst memcpy_down.simps) (simp add: add_diff_eq [symmetric] del: fun_upd_apply)
qed

lemma kernel_copies [simp]: "memset_k = memset" "memcpy_k = memcpy"
  by (simp_all add: fun_eq_iff memset_k_def memset_def memcpy_k_def memcpy_def)

lemma memcpy_spec:
  assumes "unat src + unat n \<le> 2 ^ 64" "unat dest + unat n \<le> 2 ^ 64"
  shows "memcpy m dest src n =
    Some (dest, \<lambda>a. if a \<in> region dest (unat n) then m (src + (a - dest)) else m a)"
  using memcpy_up_spec [of n dest src m] memcpy_down_spec [of src dest n m] assms
  by (simp add: memcpy_def word_less_nat_alt)

text \<open>\<open>memset\<close> counts in an \<open>int\<close>: the loop ends, and covers the block, for counts that fit one.\<close>

lemma scast_small:
  assumes "i < 2 ^ 31"
  shows "(scast (of_nat i :: u32) :: u64) = of_nat i"
proof -
  have "unat (of_nat i :: u32) = i" using assms by (simp add: unat_of_nat)
  then have "sint (of_nat i :: u32) = int i" using sint_small [of "of_nat i"] assms by simp
  then show ?thesis by (simp add: scast_eq)
qed

lemma memset_loop_spec:
  assumes "i \<le> n" "n < 2 ^ 31"
  shows "memset_loop m p v (of_nat n) (of_nat i) =
    Some (\<lambda>a. if i \<le> unat (a - p) \<and> unat (a - p) < n then ucast v else m a)"
  using assms(1)
proof (induction "n - i" arbitrary: i m)
  case 0
  then have "i = n" by simp
  with assms(2) show ?case by (subst memset_loop.simps) (auto simp: scast_small fun_eq_iff)
next
  case (Suc d)
  then have i: "i < n" by simp
  with assms(2) have lt: "(scast (of_nat i :: u32) :: u64) < of_nat n"
    by (simp add: scast_small word_less_nat_alt unat_of_nat)
  have a: "unat (a - p) = i \<longleftrightarrow> a = p + of_nat i" for a
  proof -
    have "unat (of_nat i :: u64) = i" using i assms(2) by (simp add: unat_of_nat)
    then show ?thesis by (metis add_diff_cancel_left' diff_add_cancel add.commute word_unat_eq_iff)
  qed
  have "memset_loop (m(p + of_nat i := ucast v)) p v (of_nat n) (of_nat (Suc i)) =
    Some (\<lambda>a. if Suc i \<le> unat (a - p) \<and> unat (a - p) < n then ucast v else (m(p + of_nat i := ucast v)) a)"
    using Suc by (intro Suc.hyps(1)) auto
  also have "(\<lambda>a. if Suc i \<le> unat (a - p) \<and> unat (a - p) < n then ucast v else (m(p + of_nat i := ucast v)) a) =
    (\<lambda>a. if i \<le> unat (a - p) \<and> unat (a - p) < n then ucast v else m a)"
    unfolding fun_upd_apply a [symmetric] using i by (intro ext) auto
  finally show ?case using lt i assms(2)
    by (subst memset_loop.simps) (simp add: scast_small add.commute del: fun_upd_apply)
qed

lemma region_offset:
  assumes "k + n \<le> 2 ^ 64"
  shows "a \<in> region (t + of_nat k) n \<longleftrightarrow> k \<le> unat (a - t) \<and> unat (a - t) < k + n" (is "?l \<longleftrightarrow> ?r")
proof (cases "n = 0")
  case False
  define d where "d = a - t"
  have k: "unat (of_nat k :: u64) = k" using assms False by (simp add: unat_of_nat)
  have a: "a - (t + of_nat k) = d - of_nat k" by (simp add: d_def algebra_simps)
  show ?thesis
  proof (cases "k \<le> unat d")
    case True
    then have "unat (d - of_nat k) = unat d - k" by (simp add: unat_sub word_le_nat_alt k)
    with True show ?thesis unfolding region_def mem_Collect_eq a d_def [symmetric] by auto
  next
    case False
    then have "d < of_nat k" by (simp add: word_less_nat_alt k)
    then have "unat (d - of_nat k) = unat d + 2 ^ 64 - k"
      by (simp add: unat_sub_if' k word_le_nat_alt word_less_nat_alt)
    with False assms show ?thesis unfolding region_def mem_Collect_eq a d_def [symmetric] by auto
  qed
qed (auto simp: region_def)

lemma cstr_cong:
  assumes "cstr m p xs" "\<And>a. a \<in> region p (Suc (length xs)) \<Longrightarrow> m' a = m a"
  shows "cstr m' p xs"
  using arr_cong [of "xs @ [0]" p m' m] cstr_length [OF assms(1)] assms by (simp add: cstr_def)

lemma blit_snoc:
  assumes "length xs < 2 ^ 64"
  shows "blit m p (xs @ [x]) = (blit m p xs)(p + of_nat (length xs) := x)"
proof
  fix a
  have "unat (of_nat (length xs) :: u64) = length xs" using assms by (simp add: unat_of_nat)
  then have "unat (a - p) = length xs \<longleftrightarrow> a = p + of_nat (length xs)"
    by (metis add_diff_cancel_left' diff_add_cancel add.commute word_unat_eq_iff)
  then show "blit m p (xs @ [x]) a = ((blit m p xs)(p + of_nat (length xs) := x)) a"
    by (auto simp: blit_def nth_append less_Suc_eq)
qed

lemma region_sub: "k + n \<le> l \<Longrightarrow> l \<le> 2 ^ 64 \<Longrightarrow> region (t + of_nat k) n \<subseteq> region t l"
  by (auto simp: region_offset region_def [of t l])

lemma cstr_drop: "cstr m p xs \<Longrightarrow> i \<le> length xs \<Longrightarrow> cstr m (p + of_nat i) (drop i xs)"
proof (induction xs arbitrary: p i)
  case (Cons x xs)
  then show ?case by (cases i) (auto simp: cstr_Cons add.assoc [symmetric])
qed simp

lemma memset_spec:
  assumes "n < 2 ^ 31"
  shows "memset m p v (of_nat n) = Some (\<lambda>a. if a \<in> region p n then ucast v else m a)"
  using memset_loop_spec [of 0 n m p v] assms by (simp add: memset_def region_def)

subsection \<open>Decimal numbers\<close>

definition dec :: "nat list \<Rightarrow> nat" where
  "dec ds = foldl (\<lambda>a d. 10 * a + d) 0 ds"

lemma dec_snoc [simp]: "dec (ds @ [d]) = 10 * dec ds + d"
  by (simp add: dec_def)

abbreviation digit :: "nat \<Rightarrow> u8" where "digit d \<equiv> 48 + of_nat d"

lemma digit_int:
  assumes "d < 10"
  shows "(scast (digit d - 48 :: u8) :: u32) = of_nat d"
proof -
  have "d \<in> {0, 1, 2, 3, 4, 5, 6, 7, 8, 9}" using assms by auto
  then show ?thesis by auto
qed

lemma str_to_int_loop_spec:
  "\<forall>d \<in> set ds. d < 10 \<Longrightarrow>
    str_to_int_loop (map digit ds @ zs) (length ds) val io = val + io * of_nat (dec ds)"
proof (induction ds arbitrary: zs val io rule: rev_induct)
  case (snoc d ds)
  have "str_to_int_loop (map digit (ds @ [d]) @ zs) (length (ds @ [d])) val io =
    str_to_int_loop (map digit ds @ digit d # zs) (length ds) (val + of_nat d * io) (io * 10)"
    using snoc.prems digit_int [of d] by (simp add: nth_append)
  also have "\<dots> = val + of_nat d * io + io * 10 * of_nat (dec ds)"
    using snoc by simp
  finally show ?case by (simp add: algebra_simps)
qed (simp add: dec_def)

lemma digit_ne:
  assumes "d < 10"
  shows "digit d \<noteq> 0" "digit d \<noteq> 10"
proof -
  have "d \<in> {0, 1, 2, 3, 4, 5, 6, 7, 8, 9}" using assms by auto
  then show "digit d \<noteq> 0" "digit d \<noteq> 10" by auto
qed

lemma str_to_int_spec:
  assumes "cstr m p (map digit ds @ nl)" "\<forall>d \<in> set ds. d < 10" "length ds + length nl < 10"
    "nl = [] \<or> nl = [10]"
  shows "str_to_int m p = Some (of_nat (dec ds))"
proof -
  have "takeWhile (\<lambda>c. c \<noteq> 0 \<and> c \<noteq> 10) (map digit ds @ nl) = map digit ds"
    using assms(2,4) digit_ne by (subst takeWhile_append2) auto
  then show ?thesis
    using str_to_int_loop_spec [OF assms(2)] assms(3) get_str_spec [OF assms(1)]
    by (simp add: str_to_int_def)
qed

lemma char_int_inj: "char_int x = char_int y \<longleftrightarrow> x = y"
proof
  assume "char_int x = char_int y"
  then have "(scast (char_int x) :: u8) = scast (char_int y)" by simp
  then show "x = y" by (simp add: scast_up_scast_id is_up)
qed simp

lemma ucast_u32_inj: "(ucast (x :: u8) :: u32) = ucast y \<longleftrightarrow> x = y"
proof
  assume "(ucast x :: u32) = ucast y"
  then have "(ucast (ucast x :: u32) :: u8) = ucast (ucast y :: u32)" by simp
  then show "x = y" by (simp add: ucast_up_ucast_id is_up)
qed simp

lemma strcmp_k_iff:
  assumes "cstr m p xs" "cstr m q ys"
  shows "\<exists>c. strcmp_k m p q = Some c \<and> (c = 0 \<longleftrightarrow> xs = ys)"
  using strcmp_spec(2) [OF assms] first_diff_eq [of xs ys] assms
  by (auto simp: cstr_def case_prod_beta ucast_u32_inj)


lemma char_int_ascii:
  assumes "x < 128"
  shows "char_int x = ucast x"
proof -
  have "uint x < 2 ^ 7" using assms by (simp add: word_less_def)
  moreover have "- (2 ^ 7) \<le> uint x" by (rule order_trans [OF _ uint_ge_0]) simp
  ultimately have "sint x = uint x" by (simp add: sint_uint signed_take_bit_int_eq_self)
  then show ?thesis by (simp only: scast_eq ucast_eq)
qed

lemma first_diff_in:
  "fst (first_diff xs ys) \<in> insert 0 (set xs) \<and> snd (first_diff xs ys) \<in> insert 0 (set ys)"
  by (induction xs ys rule: first_diff.induct) auto

lemma region_adjacent:
  assumes "n + k < 2 ^ 64"
  shows "region p n \<inter> region (p + of_nat n) k = {}"
proof -
  have False if "unat (a - p) < n" "unat (a - (p + of_nat n)) < k" for a
  proof -
    have n: "unat (of_nat n :: u64) = n" using assms by (simp add: unat_of_nat)
    have "unat ((a - (p + of_nat n)) + of_nat n) = unat (a - (p + of_nat n)) + unat (of_nat n :: u64)"
      by (rule unat_add_small) (use that assms n in linarith)
    moreover have "(a - (p + of_nat n)) + of_nat n = a - p" by simp
    ultimately have "unat (a - p) = unat (a - (p + of_nat n)) + n" using n by (simp only:)
    then show False using that(1) by linarith
  qed
  then show ?thesis by (auto simp: region_def)
qed

lemma blit_adjacent:
  assumes "arr m p xs" "length xs + length ys < 2 ^ 64"
  shows "arr (blit m (p + of_nat (length xs)) ys) p (xs @ ys)"
proof -
  let ?e = "p + of_nat (length xs)"
  have "arr (blit m ?e ys) p xs = arr m p xs"
    using assms(2) region_adjacent [OF assms(2), of p] by (intro arr_cong) (auto intro!: blit_outside)
  moreover have "arr (blit m ?e ys) ?e ys" using assms(2) by (intro arr_blit) simp
  ultimately show ?thesis using assms(1) by (simp only: arr_append)
qed

subsection \<open>Properties\<close>

text \<open>\<open>strcpy\<close> (and its copies in the kernel) ends and copies: when the two regions are apart,
  the destination holds the source string, the source is unchanged and so is every byte outside
  the destination.\<close>

theorem strcpy_copies:
  assumes "cstr m src xs" "region dest (Suc (length xs)) \<inter> region src (Suc (length xs)) = {}"
  shows "\<exists>m'. strcpy m dest src = Some (dest, m') \<and> sstrcpy m dest src = Some (dest, m') \<and>
    cstr m' dest xs \<and> cstr m' src xs \<and> (\<forall>a. a \<notin> region dest (Suc (length xs)) \<longrightarrow> m' a = m a)"
proof -
  let ?m = "blit m dest (xs @ [0])"
  have z: "0 \<notin> set xs" and l: "length xs < 2 ^ 64" using assms(1) cstr_length by (auto simp: cstr_def)
  have out: "?m a = m a" if "a \<notin> region dest (Suc (length xs))" for a
    using that by (simp add: blit_outside)
  have "arr ?m src (xs @ [0]) = arr m src (xs @ [0])"
    using l assms(2) by (intro arr_cong) (auto intro: out)
  with assms(1) have "cstr ?m src xs" by (simp add: cstr_def)
  with cstr_blit [OF z l, of m dest] out strcpy_loop_spec [OF assms] sstrcpy_loop_spec [OF assms]
  show ?thesis by (simp add: strcpy_def sstrcpy_def)
qed

text \<open>C37. The three comparison routines end on terminated strings and return 0 exactly for equal
  strings; on 7-bit text the signed comparison of the C library and the unsigned one of the
  kernel return the same number.\<close>

theorem strcmp_zero_iff_equal:
  assumes "cstr m p xs" "cstr m q ys"
  shows "\<exists>a b c. strcmp m p q = Some a \<and> strcmp_k m p q = Some b \<and> sstrcmp m p q = Some c \<and>
    (a = 0 \<longleftrightarrow> xs = ys) \<and> (b = 0 \<longleftrightarrow> xs = ys) \<and> (c = 0 \<longleftrightarrow> xs = ys) \<and>
    ((\<forall>x \<in> set xs \<union> set ys. x < 128) \<longrightarrow> a = b)"
proof -
  obtain x y where d: "first_diff xs ys = (x, y)" by fastforce
  have e: "x = y \<longleftrightarrow> xs = ys"
    using first_diff_eq [of xs ys] assms d by (simp add: cstr_def)
  have "x < 128 \<and> y < 128" if "\<forall>x \<in> set xs \<union> set ys. x < 128"
    using first_diff_in [of xs ys] d that by auto
  then show ?thesis
    using strcmp_spec [OF assms] d e by (simp add: char_int_inj ucast_u32_inj) (auto simp: char_int_ascii)
qed

text \<open>C25. \<open>memcpy\<close> is overlap-safe: for blocks that do not wrap around, however they overlap, the
  destination receives the bytes the source held before, and nothing else changes.\<close>

theorem memcpy_overlap_safe:
  assumes "unat src + unat n \<le> 2 ^ 64" "unat dest + unat n \<le> 2 ^ 64"
  shows "\<exists>m'. memcpy m dest src n = Some (dest, m') \<and> memcpy_k m dest src n = Some (dest, m') \<and>
    (\<forall>i. i < unat n \<longrightarrow> m' (dest + of_nat i) = m (src + of_nat i)) \<and>
    (\<forall>a. a \<notin> region dest (unat n) \<longrightarrow> m' a = m a)"
proof -
  have "dest + of_nat i \<in> region dest (unat n)" if "i < unat n" for i
    using that unat_lt_64 [of n] by (simp add: region_def unat_of_nat)
  then show ?thesis using memcpy_spec [OF assms] by simp
qed

text \<open>C38. The C library's \<open>strcat\<close> writes no terminator: it ends, and the result is the
  concatenation exactly when the byte behind it happened to be 0 already.\<close>

theorem strcat_terminated_iff:
  assumes "cstr m new xs" "cstr m orig ys" "ys \<noteq> []" "length xs + length ys < 2 ^ 64"
    and "region (new + of_nat (length xs)) (Suc (length ys)) \<inter> region orig (Suc (length ys)) = {}"
  shows "\<exists>m'. strcat m new orig = Some m' \<and>
    (cstr m' new (xs @ ys) \<longleftrightarrow> m (new + of_nat (length xs + length ys)) = 0)"
proof -
  let ?e = "new + of_nat (length xs)"
  let ?m = "blit m ?e ys"
  obtain y ys' where ys: "ys = y # ys'" using assms(3) by (cases ys) auto
  have 1: "strcat m new orig = Some ?m"
    using find_end_spec [OF assms(1)] strcat_copy_spec [of m orig y ys' ?e] assms(2,5)
    by (simp add: strcat_def ys)
  have x: "arr m new xs" "0 \<notin> set (xs @ ys)"
    using assms(1,2) by (auto simp: cstr_def arr_append)
  have "?m (?e + of_nat (length ys)) = m (?e + of_nat (length ys))"
    using assms(4) by (intro blit_outside) (simp add: region_def unat_of_nat)
  then have "?m (new + of_nat (length (xs @ ys))) = m (new + of_nat (length xs + length ys))"
    by (simp add: add.assoc)
  moreover have "cstr ?m new (xs @ ys) \<longleftrightarrow> ?m (new + of_nat (length (xs @ ys))) = 0"
    unfolding cstr_def using blit_adjacent [OF x(1) assms(4)] x(2) by (simp only: arr_append) simp
  ultimately have "cstr ?m new (xs @ ys) \<longleftrightarrow> m (new + of_nat (length xs + length ys)) = 0"
    by (simp only:)
  with 1 show ?thesis by blast
qed

text \<open>\<open>atoi\<close> reads decimal numbers: for at most nine digits, with or without a newline after
  them, it ends with the number.\<close>

lemma atoi_decimal:
  assumes "cstr m p (map digit ds @ nl)" "\<forall>d \<in> set ds. d < 10" "length ds + length nl < 10"
    "nl = [] \<or> nl = [10]"
  shows "atoi m p = Some (of_nat (dec ds))"
  using str_to_int_spec [OF assms] by (simp add: atoi_def)

subsection \<open>Witnesses\<close>

lemma region_disjoint:
  assumes "unat p + n \<le> unat q" "unat q + k \<le> 2 ^ 64"
  shows "region q k \<inter> region p n = {}"
proof -
  have False if "unat (a - p) < n" "unat (a - q) < k" for a
  proof -
    have "unat (p + (a - p)) = unat p + unat (a - p)" "unat (q + (a - q)) = unat q + unat (a - q)"
      using that assms unat_lt_64 [of q] by (intro unat_add_small; linarith)+
    then show False using that assms(1) by simp
  qed
  then show ?thesis by (auto simp: region_def)
qed

definition demo_bytes :: bytes where
  "demo_bytes = (\<lambda>_. 0)(0x1000 := 49, 0x1001 := 55, 0x2000 := 49, 0x2001 := 56, 0x2004 := 9)"

lemma demo_cstr: "cstr demo_bytes 0x1000 [49, 55]" "cstr demo_bytes 0x2000 [49, 56]"
  by (simp_all add: cstr_def demo_bytes_def)

theorem strcpy_copies_witness:
  "\<exists>m'. strcpy demo_bytes 0x3000 0x1000 = Some (0x3000, m') \<and> cstr m' 0x3000 [49, 55]"
  using strcpy_copies [OF demo_cstr(1), of "0x3000"] region_disjoint [of "0x1000" "Suc (Suc (Suc 0))" "0x3000" "Suc (Suc (Suc 0))"] by auto

theorem strcmp_zero_iff_equal_witness:
  "\<exists>a b. strcmp demo_bytes 0x1000 0x2000 = Some a \<and> strcmp_k demo_bytes 0x1000 0x2000 = Some b \<and>
     a \<noteq> 0 \<and> a = b"
  using strcmp_zero_iff_equal [OF demo_cstr] by auto

theorem memcpy_overlap_safe_witness:
  "\<exists>m'. memcpy demo_bytes 0x1001 0x1000 2 = Some (0x1001, m') \<and> m' 0x1001 = 49 \<and> m' 0x1002 = 55"
proof -
  obtain m' where m': "memcpy demo_bytes 0x1001 0x1000 2 = Some (0x1001, m')"
    "\<And>i. i < 2 \<Longrightarrow> m' (0x1001 + of_nat i) = demo_bytes (0x1000 + of_nat i)"
    using memcpy_overlap_safe [of "0x1000" 2 "0x1001" demo_bytes] by auto
  then show ?thesis using m'(2) [of 0] m'(2) [of 1] by (simp add: demo_bytes_def)
qed

theorem strcat_terminated_iff_witness:
  "\<exists>m'. strcat demo_bytes 0x2000 0x1000 = Some m' \<and> \<not> cstr m' 0x2000 [49, 56, 49, 55]"
proof -
  have "\<exists>m'. strcat demo_bytes 0x2000 0x1000 = Some m' \<and>
    (cstr m' 0x2000 ([49, 56] @ [49, 55]) \<longleftrightarrow> demo_bytes 0x2004 = 0)"
    using strcat_terminated_iff [OF demo_cstr(2,1)] region_disjoint [of "0x1000" "Suc (Suc (Suc 0))" "0x2002" "Suc (Suc (Suc 0))"] by simp
  then show ?thesis by (auto simp: demo_bytes_def)
qed

end
