(* ===== verification/Tarfs.thy ===== *)
theory Tarfs
  imports CString
begin

unbundle bit_operations_syntax

text \<open>
  The read-only file system of \<^verbatim>\<open>sys/tarfs.c\<close>: a tar image linked into the kernel between
  \<^verbatim>\<open>_binary_tarfs_start\<close> and \<^verbatim>\<open>_binary_tarfs_end\<close>, here the byte memory \<open>m\<close> and the two
  addresses. \<open>tarfs_init\<close> builds the table \<open>tarfs_fs\<close> of at most 100 entries. A name kept in
  the table is the string in its array; that the comparison routines return 0 exactly on equal
  strings is shown in \<open>CString\<close>, so here they compare strings.
\<close>

record tarfs_entry =
  e_name :: "u8 list"
  e_size :: u32
  e_typeflag :: u32
  addr_hdr :: u64
  par_ind :: u32

record tarfs =
  tarfs_fs :: "nat \<Rightarrow> tarfs_entry"
  num_files :: u32
  tarfs_cwd :: "u8 list"

abbreviation DIRECTORY :: u32 where "DIRECTORY \<equiv> 5"
abbreviation FILE_TYPE :: u32 where "FILE_TYPE \<equiv> 0"

text \<open>Offsets in \<^verbatim>\<open>struct posix_header_ustar\<close>, which is 512 bytes long.\<close>

abbreviation hdr_size :: "u64 \<Rightarrow> u64" where "hdr_size a \<equiv> a + 124"
abbreviation hdr_typeflag :: "u64 \<Rightarrow> u64" where "hdr_typeflag a \<equiv> a + 156"

subsection \<open>Numbers in headers\<close>

primrec getSize_loop :: "bytes \<Rightarrow> u64 \<Rightarrow> nat \<Rightarrow> u32 \<Rightarrow> u32 \<Rightarrow> u32" where
  "getSize_loop m inp 0 sz cnt = sz"
| "getSize_loop m inp (Suc k) sz cnt =
     getSize_loop m inp k (sz + (char_int (m (inp + of_nat k)) - 48) * cnt) (cnt * 8)"

definition getSize :: "bytes \<Rightarrow> u64 \<Rightarrow> u32" where
  "getSize m inp = getSize_loop m inp 11 0 1"

partial_function (option) stoi_loop :: "bytes \<Rightarrow> u64 \<Rightarrow> u64 \<Rightarrow> u64 option" where
  "stoi_loop m s i =
     (if 48 \<le> sint (m s) \<and> sint (m s) \<le> 57
      then stoi_loop m (s + 1) (i * 10 + scast (char_int (m s) - 48)) else Some i)"

definition stoi :: "bytes \<Rightarrow> u64 \<Rightarrow> u64 option" where
  "stoi m s = stoi_loop m s 0"

text \<open>The remainder \<^verbatim>\<open>(int)n % 10\<close>: the low 32 bits as a signed number, the remainder with the
  sign of the dividend.\<close>

definition int_rem10 :: "u64 \<Rightarrow> u64" where
  "int_rem10 n = (let k = sint (ucast n :: u32) in word_of_int (sgn k * (\<bar>k\<bar> mod 10)))"

function octal_loop :: "u64 \<Rightarrow> u64 \<Rightarrow> u64 \<Rightarrow> u64 \<Rightarrow> u64" where
  "octal_loop n i pow_oct decimal_equiv =
     (if n \<noteq> 0 then
        let rem = int_rem10 n;
            n = n div 10;
            pow_oct = (if i > 0 then pow_oct * 8 else pow_oct)
        in octal_loop n (i + 1) pow_oct (decimal_equiv + rem * pow_oct)
      else decimal_equiv)"
  by pat_completeness auto
termination
proof (relation "measure (\<lambda>(n, _). unat n)", simp)
  fix n i pow_oct decimal_equiv rem x xa :: u64
  assume "n \<noteq> 0" "x = n div 10"
  then show "((x, i + 1, xa, decimal_equiv + rem * xa), n, i, pow_oct, decimal_equiv)
      \<in> measure (\<lambda>(n, _). unat n)"
    by (simp add: unat_div unat_gt_0)
qed

definition octalToDecimal :: "u64 \<Rightarrow> u64" where
  "octalToDecimal n = octal_loop n 0 1 0"

subsection \<open>The parent of an entry\<close>

text \<open>The backward search for a slash. The index is a signed \<open>int\<close> into a buffer; reading
  outside the string and its terminator has no defined result. \<open>Some None\<close> is the early return of 999.\<close>

partial_function (option) slash_loop :: "u8 list \<Rightarrow> int \<Rightarrow> int option option" where
  "slash_loop name len =
     (if len < 0 \<or> int (length name) \<le> len then None
      else if name ! nat len = 47 then Some (Some len)
      else if len - 1 = 0 then Some None
      else slash_loop name (len - 1))"

partial_function (option) find_name :: "(nat \<Rightarrow> tarfs_entry) \<Rightarrow> u8 list \<Rightarrow> nat \<Rightarrow> nat option" where
  "find_name fs name i =
     (if 100 \<le> i then None
      else if name \<noteq> e_name (fs i) then find_name fs name (i + 1)
      else Some i)"

definition per_ind_from :: "(nat \<Rightarrow> tarfs_entry) \<Rightarrow> u8 list \<Rightarrow> int \<Rightarrow> u32 option" where
  "per_ind_from fs dir len =
     (if 100 \<le> length dir then None
      else do {
        r \<leftarrow> slash_loop (dir @ [0]) len;
        case r of
          None \<Rightarrow> Some 999
        | Some k \<Rightarrow> do {
            i \<leftarrow> find_name fs (take (nat (k + 1)) dir) 0;
            Some (of_nat i) } })"

definition get_per_ind :: "(nat \<Rightarrow> tarfs_entry) \<Rightarrow> u8 list \<Rightarrow> u32 option" where
  "get_per_ind fs dir = per_ind_from fs dir (int (length dir) - 2)"

definition get_per_ind_file :: "(nat \<Rightarrow> tarfs_entry) \<Rightarrow> u8 list \<Rightarrow> u32 option" where
  "get_per_ind_file fs dir = per_ind_from fs dir (int (length dir) - 1)"

subsection \<open>Reading the image\<close>

definition set_parent :: "(nat \<Rightarrow> tarfs_entry) \<Rightarrow> tarfs_entry \<Rightarrow> tarfs_entry option" where
  "set_parent fs e =
     (if e_typeflag e = FILE_TYPE then do {
        p \<leftarrow> get_per_ind_file fs (e_name e);
        Some (e\<lparr>par_ind := p\<rparr>) }
      else if e_typeflag e = DIRECTORY then do {
        p \<leftarrow> get_per_ind fs (e_name e);
        Some (e\<lparr>par_ind := p\<rparr>) }
      else Some e)"

definition next_header :: "u32 \<Rightarrow> u64 \<Rightarrow> u32" where
  "next_header temp sz =
     (if sz = 0 then temp + 512
      else temp + ucast (if sz mod 512 = 0 then sz + 512 else sz + (512 - sz mod 512) + 512))"

text \<open>The entry \<open>e\<close> is the local variable, which keeps its last parent index when an entry is
  neither a file nor a directory.\<close>

partial_function (option) tarfs_init_loop ::
    "bytes \<Rightarrow> u64 \<Rightarrow> tarfs \<Rightarrow> tarfs_entry \<Rightarrow> nat \<Rightarrow> u32 \<Rightarrow> tarfs option" where
  "tarfs_init_loop m start s e i temp = do {
     let hdr = start + scast temp;
     name \<leftarrow> get_str m hdr;
     if length name = 0 then Some s
     else if 100 \<le> length name \<or> 100 \<le> i then None
     else do {
       n \<leftarrow> stoi m (hdr_size hdr);
       let sz = octalToDecimal n;
       ty \<leftarrow> stoi m (hdr_typeflag hdr);
       e \<leftarrow> set_parent (tarfs_fs s)
             (e\<lparr>e_name := name, e_size := ucast sz, addr_hdr := hdr, e_typeflag := ucast ty\<rparr>);
       let s = s\<lparr>num_files := num_files s + 1, tarfs_fs := (tarfs_fs s)(i := e)\<rparr>;
       tarfs_init_loop m start s e (i + 1) (next_header temp sz) } }"

definition tarfs_init :: "bytes \<Rightarrow> u64 \<Rightarrow> tarfs_entry \<Rightarrow> tarfs \<Rightarrow> tarfs option" where
  "tarfs_init m start e s =
     tarfs_init_loop m start (s\<lparr>tarfs_cwd := [98, 105, 110, 47], num_files := 0\<rparr>) e 0 0"

partial_function (option) getElfHeader_loop ::
    "bytes \<Rightarrow> u64 \<Rightarrow> u64 \<Rightarrow> u64 \<Rightarrow> u64 option" where
  "getElfHeader_loop m fileName tend address =
     (if address < tend then do {
        let sz = getSize m (hdr_size address);
        c \<leftarrow> strcmp_k m address fileName;
        if c = 0 then Some (address + 512)
        else do {
          let address = address + ucast ((sz div 512 + 1) * 512);
          let address = (if sz mod 512 \<noteq> 0 then address + 512 else address);
          getElfHeader_loop m fileName tend address } }
      else Some 0)"

definition getElfHeader :: "bytes \<Rightarrow> u64 \<Rightarrow> u64 \<Rightarrow> u64 \<Rightarrow> u64 option" where
  "getElfHeader m tstart tend fileName = getElfHeader_loop m fileName tend tstart"

subsection \<open>Files and directories\<close>

text \<open>Searching the table; the table is over at an entry with an empty name. \<open>ty\<close> is the type
  asked for.\<close>

partial_function (option) open_loop :: "(nat \<Rightarrow> tarfs_entry) \<Rightarrow> u8 list \<Rightarrow> u32 \<Rightarrow> nat \<Rightarrow> u64 option" where
  "open_loop fs name ty i =
     (if 100 \<le> i then None
      else let e = fs i; i = i + 1
        in if length (e_name e) = 0 then Some 0
           else if e_name e = name \<and> e_typeflag e = ty then Some (addr_hdr e)
           else open_loop fs name ty i)"

definition opendirect :: "tarfs \<Rightarrow> u8 list \<Rightarrow> u64 option" where
  "opendirect s directory = open_loop (tarfs_fs s) directory DIRECTORY 0"

definition openfile :: "tarfs \<Rightarrow> u8 list \<Rightarrow> u64 option" where
  "openfile s file = open_loop (tarfs_fs s) file FILE_TYPE 0"

fun strncmp_zero :: "u8 list \<Rightarrow> u8 list \<Rightarrow> nat \<Rightarrow> bool" where
  "strncmp_zero _ _ 0 = True"
| "strncmp_zero (x # xs) (y # ys) (Suc n) = (x = y \<and> strncmp_zero xs ys n)"
| "strncmp_zero [] [] (Suc n) = True"
| "strncmp_zero _ _ (Suc n) = False"

text \<open>\<open>readdirect\<close> prints; the result is the list of what it prints.\<close>

partial_function (option) readdirect_loop ::
    "(nat \<Rightarrow> tarfs_entry) \<Rightarrow> u8 list \<Rightarrow> nat \<Rightarrow> u32 \<Rightarrow> u8 list list \<Rightarrow> u8 list list option" where
  "readdirect_loop fs direct i parent out =
     (if 100 \<le> i then None
      else let e = fs i
        in if length (e_name e) = 0 then Some out
           else if e_name e = direct then readdirect_loop fs direct (i + 1) (of_nat i) out
           else if strncmp_zero (e_name e) direct (length direct) \<and> par_ind e = parent
           then readdirect_loop fs direct (i + 1) parent (out @ [drop (length direct) (e_name e)])
           else readdirect_loop fs direct (i + 1) parent out)"

definition root_listing :: "u8 list list" where
  "root_listing = [[98, 105, 110, 47], [101, 116, 99, 47], [98, 111, 111, 116, 47],
     [108, 105, 98, 47], [117, 115, 114, 47]]"

definition readdirect :: "tarfs \<Rightarrow> u8 list \<Rightarrow> u8 list list option" where
  "readdirect s direct =
     (if length direct = 0 then Some root_listing
      else readdirect_loop (tarfs_fs s) direct 0 (- 1) [])"

text \<open>The copying loop of \<open>readfile\<close>: \<^verbatim>\<open>while (size-- > 0)\<close> decrements also on the way out.\<close>

partial_function (option) readfile_loop ::
    "bytes \<Rightarrow> u64 \<Rightarrow> u64 \<Rightarrow> u32 \<Rightarrow> u32 \<Rightarrow> (u32 \<times> u32 \<times> bytes) option" where
  "readfile_loop m tmp src sz i =
     (if 0 < sint sz then readfile_loop (m(tmp + scast i := m src)) tmp (src + 1) (sz - 1) (i + 1)
      else Some (sz - 1, i, m))"

definition readfile :: "bytes \<Rightarrow> u64 \<Rightarrow> u32 \<Rightarrow> u64 \<Rightarrow> (u32 \<times> bytes) option" where
  "readfile m file_addr sz buf = do {
     n \<leftarrow> stoi m (hdr_size file_addr);
     let file_size = (ucast (octalToDecimal n) :: u32);
     let sz = (if sint file_size < sint sz then file_size else sz);
     (sz, i, m) \<leftarrow> readfile_loop m buf (file_addr + 512) sz 0;
     Some (sz, m(buf + scast i := 0)) }"

text \<open>Closing zeroes the first eight bytes of the header.\<close>

definition closefile :: "bytes \<Rightarrow> u64 \<Rightarrow> bytes" where
  "closefile m file_addr = blit m file_addr (replicate 8 0)"

definition closedirect :: "bytes \<Rightarrow> u64 \<Rightarrow> bytes" where
  "closedirect m dir_addr = blit m dir_addr (replicate 8 0)"

subsection \<open>Size fields\<close>

declare octal_loop.simps [simp del]

definition oct :: "nat list \<Rightarrow> nat" where
  "oct ds = foldl (\<lambda>a d. 8 * a + d) 0 ds"

lemma oct_snoc [simp]: "oct (ds @ [d]) = 8 * oct ds + d"
  by (simp add: oct_def)

lemma digit_minus_48:
  assumes "d < 10"
  shows "char_int (digit d) - 48 = of_nat d"
proof -
  have "d \<in> {0, 1, 2, 3, 4, 5, 6, 7, 8, 9}" using assms by auto
  then show ?thesis by auto
qed

lemma digit_sint:
  assumes "d < 10"
  shows "sint (digit d) = 48 + int d"
proof -
  have "d \<in> {0, 1, 2, 3, 4, 5, 6, 7, 8, 9}" using assms by auto
  then show ?thesis by auto
qed

lemma getSize_loop_spec:
  "arr m p (map digit ds) \<Longrightarrow> \<forall>d \<in> set ds. d < 10 \<Longrightarrow>
    getSize_loop m p (length ds) sz cnt = sz + cnt * of_nat (oct ds)"
proof (induction ds arbitrary: sz cnt rule: rev_induct)
  case (snoc d ds)
  have "m (p + of_nat (length ds)) = digit d" using snoc.prems(1) by (simp add: arr_append)
  then show ?case
    using snoc digit_minus_48 [of d] by (simp add: arr_append algebra_simps)
qed (simp add: oct_def)

definition is_digit :: "u8 \<Rightarrow> bool" where
  "is_digit c \<longleftrightarrow> 48 \<le> sint c \<and> sint c \<le> 57"

lemma stoi_loop_spec:
  "arr m p (map digit ds) \<Longrightarrow> \<forall>d \<in> set ds. d < 10 \<Longrightarrow> \<not> is_digit (m (p + of_nat (length ds))) \<Longrightarrow>
    stoi_loop m p i = Some (foldl (\<lambda>a d. 10 * a + of_nat d) i ds)"
proof (induction ds arbitrary: p i)
  case Nil
  then show ?case by (subst stoi_loop.simps) (auto simp: is_digit_def)
next
  case (Cons d ds)
  have d: "sint (m p) = 48 + int d" "char_int (m p) - 48 = of_nat d"
    using Cons.prems(1,2) digit_sint [of d] digit_minus_48 [of d] by simp_all
  have s: "(scast (of_nat d :: u32) :: u64) = of_nat d" using Cons.prems(2) by (simp add: scast_small)
  have "stoi_loop m (p + 1) (10 * i + of_nat d) = Some (foldl (\<lambda>a d. 10 * a + of_nat d) (10 * i + of_nat d) ds)"
    using Cons.prems by (intro Cons.IH) (auto simp: add.assoc)
  then show ?case using Cons.prems(2) d s
    by (subst stoi_loop.simps) (simp add: mult.commute)
qed

lemma foldl_of_nat:
  "foldl (\<lambda>a d. 10 * a + of_nat d) (of_nat i :: u64) ds = of_nat (foldl (\<lambda>a d. 10 * a + d) i ds)"
proof (induction ds arbitrary: i)
  case (Cons d ds)
  show ?case using Cons [of "10 * i + d"] by simp
qed simp

lemma stoi_spec:
  assumes "arr m p (map digit ds)" "\<forall>d \<in> set ds. d < 10" "\<not> is_digit (m (p + of_nat (length ds)))"
  shows "stoi m p = Some (of_nat (dec ds))"
  using stoi_loop_spec [OF assms, of 0] foldl_of_nat [of 0 ds] by (simp add: stoi_def dec_def)

fun octval :: "nat \<Rightarrow> nat" where
  "octval n = (if n = 0 then 0 else n mod 10 + 8 * octval (n div 10))"

declare octval.simps [simp del]

lemma octval_dec: "\<forall>d \<in> set ds. d < 10 \<Longrightarrow> octval (dec ds) = oct ds"
proof (induction ds rule: rev_induct)
  case (snoc d ds)
  have "octval (10 * dec ds + d) = d + 8 * octval (dec ds)"
    using snoc.prems by (subst octval.simps) (auto simp: octval.simps [of 0])
  with snoc show ?case by simp
qed (simp add: octval.simps dec_def oct_def)

lemma oct_le_dec: "oct ds \<le> dec ds"
  by (induction ds rule: rev_induct) (simp_all add: oct_def dec_def)

lemma int_rem10_small:
  assumes "n < 2 ^ 31"
  shows "int_rem10 (of_nat n) = of_nat (n mod 10)"
proof -
  have "unat (of_nat n :: u32) = n" using assms by (simp add: unat_of_nat)
  moreover have "(ucast (of_nat n :: u64) :: u32) = of_nat n"
    using assms by (simp add: unsigned_ucast_eq word_unat_eq_iff unat_of_nat take_bit_eq_mod)
  ultimately have k: "sint (ucast (of_nat n :: u64) :: u32) = int n"
    using sint_small [of "of_nat n :: u32"] assms by simp
  have "sgn (int n) * (int n mod 10) = int (n mod 10)"
    by (cases "n = 0") (simp_all add: zmod_int)
  then show ?thesis by (simp only: int_rem10_def k Let_def abs_of_nat of_int_of_nat_eq)
qed

lemma div10_of_nat: "n < 2 ^ 64 \<Longrightarrow> (of_nat n :: u64) div 10 = of_nat (n div 10)"
  by (simp add: word_unat_eq_iff unat_div unat_of_nat)

lemma octal_loop_spec:
  assumes "n < 2 ^ 31" "unat i + n < 2 ^ 64"
  shows "octal_loop (of_nat n) i pw acc = acc + (if i > 0 then pw * 8 else pw) * of_nat (octval n)"
  using assms
proof (induction n arbitrary: i pw acc rule: octval.induct)
  case (1 n)
  show ?case
  proof (cases "n = 0")
    case True
    then show ?thesis by (simp add: octal_loop.simps octval.simps)
  next
    case False
    let ?pw = "if i > 0 then pw * 8 else pw"
    have "unat (of_nat n :: u64) = n" using 1(2) by (simp add: unat_of_nat)
    then have n0: "(of_nat n :: u64) \<noteq> 0" using False by (metis unat_0)
    have lt: "n div 10 < n" using False by simp
    then have b: "unat (i + 1) + n div 10 < 2 ^ 64" "unat i + 1 < 2 ^ 64" using 1(3) unat_Suc_le [of i] by auto
    then have i1: "i + 1 > 0" using unat_Suc [of i] by (simp add: word_gt_0 word_unat_eq_iff)
    have "octal_loop (of_nat n) i pw acc =
      octal_loop (of_nat (n div 10)) (i + 1) ?pw (acc + of_nat (n mod 10) * ?pw)"
      using n0 1(2) by (subst octal_loop.simps) (simp add: Let_def int_rem10_small div10_of_nat)
    also have "\<dots> = acc + of_nat (n mod 10) * ?pw + ?pw * 8 * of_nat (octval (n div 10))"
      using 1(1) [OF False, of "i + 1"] 1(2) lt b(1) i1 by simp
    also have "\<dots> = acc + ?pw * of_nat (octval n)"
      unfolding octval.simps [of n] using False by (simp add: algebra_simps)
    finally show ?thesis .
  qed
qed

lemma octalToDecimal_dec:
  assumes "\<forall>d \<in> set ds. d < 10" "dec ds < 2 ^ 31"
  shows "octalToDecimal (of_nat (dec ds)) = of_nat (oct ds)"
  using octal_loop_spec [of "dec ds" 0 1 0] assms octval_dec by (simp add: octalToDecimal_def)

subsection \<open>Archives\<close>

text \<open>What an image holds: named entries with a size and a type, one after another, each with its
  header block and its contents rounded up to whole blocks of 512 bytes.\<close>

record tfile =
  f_name :: "u8 list"
  f_size :: nat
  f_type :: nat

definition size_field :: "bytes \<Rightarrow> u64 \<Rightarrow> nat \<Rightarrow> bool" where
  "size_field m a n \<longleftrightarrow> (\<exists>ds. length ds = 11 \<and> (\<forall>d \<in> set ds. d < 8) \<and> arr m (hdr_size a) (map digit ds) \<and>
     \<not> is_digit (m (a + 135)) \<and> n = oct ds \<and> dec ds < 2 ^ 31)"

definition header_ok :: "bytes \<Rightarrow> u64 \<Rightarrow> tfile \<Rightarrow> bool" where
  "header_ok m a f \<longleftrightarrow> cstr m a (f_name f) \<and> f_name f \<noteq> [] \<and> length (f_name f) < 100 \<and>
     size_field m a (f_size f) \<and> f_type f < 10 \<and> m (hdr_typeflag a) = digit (f_type f) \<and>
     \<not> is_digit (m (a + 157))"

definition extent :: "tfile \<Rightarrow> nat" where
  "extent f = 512 + 512 * ((f_size f + 511) div 512)"

text \<open>After the last entry the image has a block of zeros.\<close>

primrec archive :: "bytes \<Rightarrow> u64 \<Rightarrow> tfile list \<Rightarrow> bool" where
  "archive m a [] = arr m a (replicate 512 0)"
| "archive m a (f # fs) = (header_ok m a f \<and> archive m (a + of_nat (extent f)) fs)"

lemma size_field_reads:
  assumes "size_field m a n"
  shows "getSize m (hdr_size a) = of_nat n" "\<exists>k. stoi m (hdr_size a) = Some k \<and> octalToDecimal k = of_nat n"
    "n < 2 ^ 31"
proof -
  from assms obtain ds where ds: "length ds = 11" "\<forall>d \<in> set ds. d < 8" "arr m (hdr_size a) (map digit ds)"
    "\<not> is_digit (m (a + 135))" "n = oct ds" "dec ds < 2 ^ 31"
    unfolding size_field_def by blast
  have d10: "\<forall>d \<in> set ds. d < 10" using ds(2) by auto
  show "getSize m (hdr_size a) = of_nat n"
    using getSize_loop_spec [OF ds(3) d10, of 0 1] ds(1,5) by (simp add: getSize_def)
  have "stoi m (hdr_size a) = Some (of_nat (dec ds))"
    using ds(1,4) by (intro stoi_spec [OF ds(3) d10]) (simp add: add.assoc)
  then show "\<exists>k. stoi m (hdr_size a) = Some k \<and> octalToDecimal k = of_nat n"
    using octalToDecimal_dec [OF d10 ds(6)] ds(5) by simp
  show "n < 2 ^ 31" using oct_le_dec [of ds] ds(5,6) by simp
qed

text \<open>The two ways the code rounds a size up to blocks agree.\<close>

lemma ceil512: "(n + 511) div 512 = n div 512 + (if n mod 512 = 0 then 0 else 1 :: nat)"
proof -
  have "(512 * q + r + 511) div 512 = q + (if r = 0 then 0 else 1 :: nat)" if "r < 512" for q r
    using that by (auto intro!: div_nat_eqI)
  from this [of "n mod 512" "n div 512"] show ?thesis by simp
qed

lemma elf_step:
  assumes "n < 2 ^ 31"
  shows "(let address = address + (ucast (((of_nat n :: u32) div 512 + 1) * 512) :: u64)
     in if (of_nat n :: u32) mod 512 \<noteq> 0 then address + 512 else address) =
    address + of_nat (512 + 512 * ((n + 511) div 512))"
proof -
  have u: "unat (of_nat n :: u32) = n" using assms by (simp add: unat_of_nat)
  have "n div 512 < 2 ^ 22" using assms by simp
  then have "unat (((of_nat n :: u32) div 512 + 1) * 512) = (n div 512 + 1) * 512"
    by (simp add: unat_word_ariths unat_div u)
  then have "(ucast (((of_nat n :: u32) div 512 + 1) * 512) :: u64) = of_nat ((n div 512 + 1) * 512)"
    by (metis of_nat_unat)
  moreover have "(of_nat n :: u32) mod 512 \<noteq> 0 \<longleftrightarrow> n mod 512 \<noteq> 0"
    by (simp add: word_unat_eq_iff unat_mod u)
  ultimately show ?thesis by (simp add: ceil512 algebra_simps)
qed

subsection \<open>Looking a program up in the image\<close>

fun entry_addr :: "u64 \<Rightarrow> tfile list \<Rightarrow> u8 list \<Rightarrow> u64 option" where
  "entry_addr a [] name = None"
| "entry_addr a (f # fs) name =
     (if f_name f = name then Some a else entry_addr (a + of_nat (extent f)) fs name)"

definition total :: "tfile list \<Rightarrow> nat" where
  "total fs = sum_list (map extent fs)"

lemma total_simps [simp]: "total [] = 0" "total (f # fs) = extent f + total fs"
  by (simp_all add: total_def)

text \<open>The size a block of zeros is read as: the characters are 0, not the digit 0. The jump it
  causes ends the search only because it is far larger than any image.\<close>

lemma eleven: "11 = Suc (Suc (Suc (Suc (Suc (Suc (Suc (Suc (Suc (Suc (Suc 0))))))))))"
  by simp

lemma getSize_zeros:
  assumes "arr m p (replicate 11 0)"
  shows "getSize m p = 1227133520"
proof -
  have *: "m (p + of_nat k) = 0" if "k < 11" for k
    using arr_nthD [OF assms, of k] that by simp
  show ?thesis
    using * [of 0] * [of 1] * [of 2] * [of 3] * [of 4] * [of 5] * [of 6] * [of 7] * [of 8] * [of 9] * [of 10]
    unfolding getSize_def by (subst eleven) simp
qed

lemma zero_block:
  assumes "arr m a (replicate 512 0)"
  shows "cstr m a []" "getSize m (hdr_size a) = 1227133520"
proof -
  have *: "m (a + of_nat k) = 0" if "k < 512" for k using arr_nthD [OF assms, of k] that by simp
  show "cstr m a []" using * [of 0] by (simp add: cstr_simps)
  have "arr m (a + of_nat 124) (replicate n 0)" if "n \<le> 388" for n
    using assms that arr_append [of m a "replicate 124 0" "replicate n 0"]
      arr_prefix [of m a "replicate (124 + n) 0" "replicate (388 - n) 0"]
    by (simp flip: replicate_add)
  from this [of 11] show "getSize m (hdr_size a) = 1227133520" by (intro getSize_zeros) simp
qed

lemma extent_ge: "512 \<le> extent f"
  by (simp add: extent_def)

lemma getElfHeader_loop_spec:
  assumes "archive m a fs" "cstr m fileName name" "name \<noteq> []"
    and "unat a + total fs < unat tend" "unat tend \<le> unat a + total fs + 1227134464"
    and "unat a + total fs + 1227134464 < 2 ^ 64"
  shows "getElfHeader_loop m fileName tend a =
    Some (case entry_addr a fs name of Some h \<Rightarrow> h + 512 | None \<Rightarrow> 0)"
  using assms
proof (induction fs arbitrary: a)
  case Nil
  have lt: "a < tend" using Nil.prems(4) by (simp add: word_less_nat_alt)
  obtain c where c: "strcmp_k m a fileName = Some c" "c \<noteq> 0"
    using strcmp_k_iff [OF zero_block(1) Nil.prems(2)] Nil.prems(1,3) by auto
  have "unat (a + 1227134464) = unat a + 1227134464"
    using Nil.prems(6) unat_add_small [of a 1227134464] by simp
  then have "\<not> a + 1227134464 < tend" using Nil.prems(5) by (simp add: word_less_nat_alt)
  then have "getElfHeader_loop m fileName tend (a + 1227134464) = Some 0"
    by (subst getElfHeader_loop.simps) simp
  then show ?case using lt c zero_block(2) [of m a] Nil.prems(1)
    by (subst getElfHeader_loop.simps) (simp add: add.assoc)
next
  case (Cons f fs)
  have h: "header_ok m a f" and rest: "archive m (a + of_nat (extent f)) fs" using Cons.prems(1) by simp_all
  have lt: "a < tend" using Cons.prems(4) by (simp add: word_less_nat_alt)
  have "extent f < 2 ^ 64" using Cons.prems(6) by simp
  then have u: "unat (a + of_nat (extent f)) = unat a + extent f"
    using Cons.prems(6) unat_add_small [of a "of_nat (extent f)"] by (simp add: unat_of_nat)
  obtain c where c: "strcmp_k m a fileName = Some c" "c = 0 \<longleftrightarrow> f_name f = name"
    using strcmp_k_iff [OF _ Cons.prems(2)] h by (auto simp: header_ok_def)
  have sz: "getSize m (hdr_size a) = of_nat (f_size f)" "f_size f < 2 ^ 31"
    using size_field_reads(1,3) h by (auto simp: header_ok_def)
  show ?case
  proof (cases "f_name f = name")
    case True
    then show ?thesis using lt c by (subst getElfHeader_loop.simps) simp
  next
    case False
    have "getElfHeader_loop m fileName tend a = getElfHeader_loop m fileName tend (a + of_nat (extent f))"
      using False lt c sz(1) elf_step [OF sz(2), of a]
      by (subst getElfHeader_loop.simps) (simp add: Let_def extent_def)
    also have "\<dots> = Some (case entry_addr (a + of_nat (extent f)) fs name of Some h \<Rightarrow> h + 512 | None \<Rightarrow> 0)"
      using Cons.prems u by (intro Cons.IH rest) auto
    finally show ?thesis using False by simp
  qed
qed

subsection \<open>Building the table\<close>

fun index_of :: "'a \<Rightarrow> 'a list \<Rightarrow> nat" where
  "index_of x [] = 0"
| "index_of x (y # ys) = (if x = y then 0 else Suc (index_of x ys))"

lemma index_of_spec:
  "x \<in> set ys \<Longrightarrow> index_of x ys < length ys \<and> ys ! index_of x ys = x \<and> (\<forall>k < index_of x ys. ys ! k \<noteq> x)"
  by (induction ys) (auto simp: nth_Cons split: nat.splits)

lemma find_name_spec:
  assumes "i \<le> j" "j < 100" "e_name (fs j) = name" "\<And>k. k < j \<Longrightarrow> e_name (fs k) \<noteq> name"
  shows "find_name fs name i = Some j"
  using assms(1)
proof (induction "j - i" arbitrary: i)
  case 0
  then show ?case using assms by (subst find_name.simps) auto
next
  case (Suc d)
  then have "i < j" "find_name fs name (i + 1) = Some j" by auto
  with assms(2,4) show ?case by (subst find_name.simps) auto
qed

text \<open>Where the search for the slash starts, whether the parent is known, and its index.\<close>

definition slash_from :: "tfile \<Rightarrow> int" where
  "slash_from f = int (length (f_name f)) - (if f_type f = 5 then 2 else 1)"

definition parent_ok :: "u8 list list \<Rightarrow> tfile \<Rightarrow> bool" where
  "parent_ok prev f = (case slash_loop (f_name f @ [0]) (slash_from f) of
     None \<Rightarrow> False | Some None \<Rightarrow> True | Some (Some k) \<Rightarrow> take (nat (k + 1)) (f_name f) \<in> set prev)"

definition parent_val :: "u8 list list \<Rightarrow> tfile \<Rightarrow> u32" where
  "parent_val prev f = (case slash_loop (f_name f @ [0]) (slash_from f) of
     Some (Some k) \<Rightarrow> of_nat (index_of (take (nat (k + 1)) (f_name f)) prev) | _ \<Rightarrow> 999)"

definition entry_for :: "u8 list list \<Rightarrow> u64 \<Rightarrow> tfile \<Rightarrow> tarfs_entry \<Rightarrow> bool" where
  "entry_for prev a f e \<longleftrightarrow> e_name e = f_name f \<and> e_size e = of_nat (f_size f) \<and> addr_hdr e = a \<and>
     e_typeflag e = of_nat (f_type f) \<and> ((f_type f = 0 \<or> f_type f = 5) \<longrightarrow> par_ind e = parent_val prev f)"

definition table_for :: "u64 \<Rightarrow> tfile list \<Rightarrow> (nat \<Rightarrow> tarfs_entry) \<Rightarrow> bool" where
  "table_for start fs tb \<longleftrightarrow> (\<forall>k < length fs.
     entry_for (map f_name (take k fs)) (start + of_nat (total (take k fs))) (fs ! k) (tb k))"

definition tree_ok :: "tfile list \<Rightarrow> bool" where
  "tree_ok fs \<longleftrightarrow> (\<forall>k < length fs. f_type (fs ! k) = 0 \<or> f_type (fs ! k) = 5 \<longrightarrow>
     parent_ok (map f_name (take k fs)) (fs ! k))"

lemma per_ind_from_spec:
  assumes "table_for start pre tb" "length pre < 100" "length (f_name f) < 100"
    "parent_ok (map f_name pre) f"
  shows "per_ind_from tb (f_name f) (slash_from f) = Some (parent_val (map f_name pre) f)"
proof -
  have names: "e_name (tb k) = map f_name pre ! k" if "k < length pre" for k
    using assms(1) that by (simp add: table_for_def entry_for_def)
  have "find_name tb x 0 = Some (index_of x (map f_name pre))" if "x \<in> set (map f_name pre)" for x
    using index_of_spec [OF that] assms(2) names by (intro find_name_spec) auto
  with assms(3,4) show ?thesis
    by (auto simp: per_ind_from_def parent_ok_def parent_val_def split: option.splits)
qed

lemma ceil512_ge: "n \<le> 512 * ((n + 511) div 512 :: nat)"
proof -
  have "512 * q + r = n \<Longrightarrow> r < 512 \<Longrightarrow> n \<le> 512 * (q + (if r = 0 then 0 else 1 :: nat))" for q r
    by auto
  from this [OF mult_div_mod_eq mod_less_divisor] show ?thesis unfolding ceil512 by simp
qed

lemma pad512: "512 * q + r = n \<Longrightarrow> r < 512 \<Longrightarrow> n + (512 - r) + 512 = 512 + 512 * (q + 1 :: nat)"
  by arith

lemma init_step:
  assumes "n < 2 ^ 31" "t + 512 + n + 512 < 2 ^ 32"
  shows "next_header (of_nat t) (of_nat n) = of_nat (t + (512 + 512 * ((n + 511) div 512)))"
proof -
  have u: "unat (of_nat n :: u64) = n" using assms(1) by (simp add: unat_of_nat)
  have z: "(of_nat n :: u64) = 0 \<longleftrightarrow> n = 0" by (simp add: word_unat_eq_iff u)
  have md: "(of_nat n :: u64) mod 512 = of_nat (n mod 512)"
    using assms(1) by (simp add: word_unat_eq_iff unat_mod u unat_of_nat)
  have mz: "(of_nat n :: u64) mod 512 = 0 \<longleftrightarrow> n mod 512 = 0"
    by (simp add: word_unat_eq_iff unat_mod u)
  have uc: "(ucast (of_nat k :: u64) :: u32) = of_nat k" if "k < 2 ^ 64" for k
    using that by (simp add: word_unat_eq_iff unsigned_ucast_eq unat_of_nat take_bit_eq_mod)
  have lt: "n mod 512 < 512" by simp
  have 1: "(of_nat n :: u64) + (512 - of_nat n mod 512) + 512 = of_nat (n + (512 - n mod 512) + 512)"
    using lt by (simp add: md of_nat_diff)
  have 2: "n + (512 - n mod 512) + 512 = 512 + 512 * ((n + 511) div 512)" if "n mod 512 \<noteq> 0"
    unfolding ceil512 if_not_P [OF that] using pad512 [OF mult_div_mod_eq lt] .
  have 3: "n + 512 = 512 + 512 * ((n + 511) div 512)" if "n mod 512 = 0"
    using that mult_div_mod_eq [of 512 n] by (simp add: ceil512)
  have 4: "(of_nat n :: u64) + 512 = of_nat (n + 512)" by simp
  define w where "w = 512 + 512 * ((n + 511) div 512)"
  have "w \<le> n + 1024" unfolding w_def using 2 3 lt by (cases "n mod 512 = 0") auto
  then have w: "(ucast (of_nat w :: u64) :: u32) = of_nat w" using assms(1) by (intro uc) simp
  have "(if n mod 512 = 0 then of_nat (n + 512) else of_nat (n + (512 - n mod 512) + 512)) = (of_nat w :: u64)"
    using 2 3 unfolding w_def by (cases "n mod 512 = 0") (simp_all only: if_True if_False simp_thms)
  then show ?thesis
    unfolding next_header_def z mz 1 4 w_def [symmetric] using w by (cases "n = 0") (simp_all add: w_def)
qed

lemma type_field_reads:
  assumes "header_ok m a f"
  shows "\<exists>k. stoi m (hdr_typeflag a) = Some k \<and> (ucast k :: u32) = of_nat (f_type f)"
proof -
  let ?t = "f_type f"
  have t: "?t < 10" "arr m (hdr_typeflag a) (map digit [?t])" "\<not> is_digit (m (hdr_typeflag a + of_nat (length [?t])))"
    using assms by (simp_all add: header_ok_def add.assoc)
  have "stoi m (hdr_typeflag a) = Some (of_nat (dec [?t]))"
    using t by (intro stoi_spec) auto
  moreover have "(ucast (of_nat ?t :: u64) :: u32) = of_nat ?t"
    using t(1) by (simp add: word_unat_eq_iff unsigned_ucast_eq unat_of_nat take_bit_eq_mod)
  ultimately show ?thesis by (simp add: dec_def)
qed

lemma type_eq:
  assumes "t < 10"
  shows "(of_nat t :: u32) = FILE_TYPE \<longleftrightarrow> t = 0" "(of_nat t :: u32) = DIRECTORY \<longleftrightarrow> t = 5"
proof -
  have "t \<in> {0, 1, 2, 3, 4, 5, 6, 7, 8, 9}" using assms by auto
  then show "(of_nat t :: u32) = FILE_TYPE \<longleftrightarrow> t = 0" "(of_nat t :: u32) = DIRECTORY \<longleftrightarrow> t = 5" by auto
qed

text \<open>One round of the loop: the entry is made and the offset moves on.\<close>

lemma tarfs_init_round:
  assumes h: "header_ok m (start + of_nat (total pre)) f"
    and "table_for start pre (tarfs_fs s)" "length pre < 100" "total pre + extent f + 512 < 2 ^ 31"
    and p: "f_type f = 0 \<or> f_type f = 5 \<longrightarrow> parent_ok (map f_name pre) f"
  shows "\<exists>e'. entry_for (map f_name pre) (start + of_nat (total pre)) f e' \<and>
    tarfs_init_loop m start s e (length pre) (of_nat (total pre)) =
    tarfs_init_loop m start (s\<lparr>num_files := num_files s + 1, tarfs_fs := (tarfs_fs s)(length pre := e')\<rparr>) e'
      (length pre + 1) (of_nat (total pre + extent f))"
proof -
  define a where "a = start + of_nat (total pre)"
  have t: "f_type f < 10" and nm: "get_str m a = Some (f_name f)" "f_name f \<noteq> []" "length (f_name f) < 100"
    using h get_str_spec by (auto simp: header_ok_def a_def)
  have sf: "size_field m a (f_size f)" using h by (simp add: header_ok_def a_def)
  obtain n where n: "stoi m (hdr_size a) = Some n" "octalToDecimal n = of_nat (f_size f)"
    using size_field_reads(2) [OF sf] by blast
  obtain k where k: "stoi m (hdr_typeflag a) = Some k" "(ucast k :: u32) = of_nat (f_type f)"
    using type_field_reads [OF h] by (auto simp: a_def)
  have sc: "start + scast (of_nat (total pre) :: u32) = a"
    using assms(4) by (simp add: a_def scast_small)
  have sz: "(ucast (of_nat (f_size f) :: u64) :: u32) = of_nat (f_size f)"
    using size_field_reads(3) [OF sf]
    by (simp add: word_unat_eq_iff unsigned_ucast_eq unat_of_nat take_bit_eq_mod)
  have fs: "f_size f \<le> 512 * ((f_size f + 511) div 512)"
    by (rule ceil512_ge)
  have step: "next_header (of_nat (total pre)) (of_nat (f_size f)) = of_nat (total pre + extent f)"
    unfolding extent_def
    by (rule init_step) (use size_field_reads(3) [OF sf] assms(4) fs in \<open>simp_all add: extent_def\<close>)
  have par: "per_ind_from (tarfs_fs s) (f_name f) (slash_from f) = Some (parent_val (map f_name pre) f)"
    if "f_type f = 0 \<or> f_type f = 5"
    using p that by (intro per_ind_from_spec [OF assms(2,3) nm(3)]) blast
  define e0 where "e0 = e\<lparr>e_name := f_name f, e_size := of_nat (f_size f), addr_hdr := a, e_typeflag := of_nat (f_type f)\<rparr>"
  define e' where "e' = (if f_type f = 0 \<or> f_type f = 5 then e0\<lparr>par_ind := parent_val (map f_name pre) f\<rparr> else e0)"
  have par': "set_parent (tarfs_fs s) e0 = Some e'"
    using par t by (auto simp: set_parent_def e'_def e0_def type_eq get_per_ind_def
        get_per_ind_file_def slash_from_def)
  have "entry_for (map f_name pre) a f e'" by (auto simp: entry_for_def e'_def e0_def)
  moreover have "tarfs_init_loop m start s e (length pre) (of_nat (total pre)) =
    tarfs_init_loop m start (s\<lparr>num_files := num_files s + 1, tarfs_fs := (tarfs_fs s)(length pre := e')\<rparr>) e'
      (length pre + 1) (of_nat (total pre + extent f))"
    using par' nm(2,3) assms(3)
    by (subst tarfs_init_loop.simps) (simp add: sc nm(1) n k sz Let_def step e0_def)
  ultimately show ?thesis by (auto simp: a_def)
qed

lemma table_for_snoc:
  assumes "table_for start pre tb" "entry_for (map f_name pre) (start + of_nat (total pre)) f e"
  shows "table_for start (pre @ [f]) (tb(length pre := e))"
  using assms by (auto simp: table_for_def less_Suc_eq nth_append)

lemma tree_okD: "tree_ok (pre @ f # post) \<Longrightarrow> f_type f = 0 \<or> f_type f = 5 \<longrightarrow> parent_ok (map f_name pre) f"
  unfolding tree_ok_def by (drule spec [of _ "length pre"]) simp

lemma total_append: "total (xs @ ys) = total xs + total ys"
  by (simp add: total_def)

lemma tarfs_init_loop_spec:
  assumes "archive m (start + of_nat (total pre)) post" "table_for start pre (tarfs_fs s)"
    and "tree_ok (pre @ post)" "length (pre @ post) < 100" "total (pre @ post) + 512 < 2 ^ 31"
  shows "\<exists>s'. tarfs_init_loop m start s e (length pre) (of_nat (total pre)) = Some s' \<and>
    table_for start (pre @ post) (tarfs_fs s') \<and> num_files s' = num_files s + of_nat (length post) \<and>
    (\<forall>k \<ge> length (pre @ post). tarfs_fs s' k = tarfs_fs s k)"
  using assms
proof (induction post arbitrary: pre s e)
  case Nil
  have "get_str m (start + of_nat (total pre)) = Some []"
    using Nil.prems(1) zero_block(1) get_str_spec by auto
  moreover have "(scast (of_nat (total pre) :: u32) :: u64) = of_nat (total pre)"
    using Nil.prems(5) by (intro scast_small) simp
  ultimately show ?case using Nil.prems(2) by (subst tarfs_init_loop.simps) simp
next
  case (Cons f post)
  have h: "header_ok m (start + of_nat (total pre)) f" using Cons.prems(1) by simp
  obtain e' where e': "entry_for (map f_name pre) (start + of_nat (total pre)) f e'"
    "tarfs_init_loop m start s e (length pre) (of_nat (total pre)) =
     tarfs_init_loop m start (s\<lparr>num_files := num_files s + 1, tarfs_fs := (tarfs_fs s)(length pre := e')\<rparr>) e'
      (length pre + 1) (of_nat (total pre + extent f))"
    using tarfs_init_round [OF h Cons.prems(2) _ _ tree_okD [OF Cons.prems(3)]] Cons.prems(4,5)
    by (auto simp: total_append)
  let ?s = "s\<lparr>num_files := num_files s + 1, tarfs_fs := (tarfs_fs s)(length pre := e')\<rparr>"
  have "\<exists>s'. tarfs_init_loop m start ?s e' (length (pre @ [f])) (of_nat (total (pre @ [f]))) = Some s' \<and>
    table_for start ((pre @ [f]) @ post) (tarfs_fs s') \<and> num_files s' = num_files ?s + of_nat (length post) \<and>
    (\<forall>k \<ge> length ((pre @ [f]) @ post). tarfs_fs s' k = tarfs_fs ?s k)"
    using Cons.prems table_for_snoc [OF Cons.prems(2) e'(1)]
    by (intro Cons.IH) (simp_all add: total_append add.assoc del: fun_upd_apply)
  then show ?case using e'(2) by (auto simp: total_append add.assoc)
qed

subsection \<open>Opening and reading\<close>

fun open_addr :: "u64 \<Rightarrow> tfile list \<Rightarrow> u8 list \<Rightarrow> nat \<Rightarrow> u64" where
  "open_addr a [] name ty = 0"
| "open_addr a (f # fs) name ty =
     (if f_name f = name \<and> f_type f = ty then a else open_addr (a + of_nat (extent f)) fs name ty)"

lemma archive_entry:
  "archive m a fs \<Longrightarrow> f \<in> set fs \<Longrightarrow> f_name f \<noteq> [] \<and> f_type f < 10"
  by (induction fs arbitrary: a) (auto simp: header_ok_def)

lemma open_loop_spec:
  assumes "table_for start fs tb" "e_name (tb (length fs)) = []" "length fs < 100"
    "\<And>f. f \<in> set fs \<Longrightarrow> f_name f \<noteq> [] \<and> f_type f < 10" "ty = 0 \<or> ty = 5" "k \<le> length fs"
  shows "open_loop tb name (of_nat ty) k =
    Some (open_addr (start + of_nat (total (take k fs))) (drop k fs) name ty)"
  using assms(6)
proof (induction "length fs - k" arbitrary: k)
  case 0
  then show ?case using assms(2,3) by (subst open_loop.simps) simp
next
  case (Suc d)
  then have k: "k < length fs" by simp
  let ?f = "fs ! k"
  have e: "e_name (tb k) = f_name ?f" "addr_hdr (tb k) = start + of_nat (total (take k fs))"
    "e_typeflag (tb k) = of_nat (f_type ?f)"
    using assms(1) k by (auto simp: table_for_def entry_for_def)
  have ty: "(of_nat (f_type ?f) :: u32) = of_nat ty \<longleftrightarrow> f_type ?f = ty"
    using assms(4) [of ?f] assms(5) type_eq [of "f_type ?f"] k by auto
  have "open_loop tb name (of_nat ty) (k + 1) =
    Some (open_addr (start + of_nat (total (take (k + 1) fs))) (drop (k + 1) fs) name ty)"
    using Suc by (intro Suc.hyps(1)) auto
  then show ?case
    using k e ty assms(3) assms(4) [of ?f]
    by (subst open_loop.simps)
       (auto simp: Let_def Cons_nth_drop_Suc [symmetric] take_Suc_conv_app_nth total_append add.assoc)
qed

lemma tarfs_init_spec:
  assumes "archive m start fs" "tree_ok fs" "length fs < 100" "total fs + 512 < 2 ^ 31"
  shows "\<exists>s'. tarfs_init m start e s = Some s' \<and> table_for start fs (tarfs_fs s') \<and>
    num_files s' = of_nat (length fs) \<and> (\<forall>k \<ge> length fs. tarfs_fs s' k = tarfs_fs s k)"
  using tarfs_init_loop_spec [of m start "[]" fs "s\<lparr>tarfs_cwd := [98, 105, 110, 47], num_files := 0\<rparr>" e] assms
  by (simp add: tarfs_init_def table_for_def)

lemma open_after_init:
  assumes "archive m start fs" "tree_ok fs" "length fs < 100" "total fs + 512 < 2 ^ 31"
    and "e_name (tarfs_fs s (length fs)) = []"
  shows "\<exists>s'. tarfs_init m start e s = Some s' \<and> num_files s' = of_nat (length fs) \<and>
    (\<forall>name. openfile s' name = Some (open_addr start fs name 0) \<and>
            opendirect s' name = Some (open_addr start fs name 5))"
proof -
  obtain s' where s': "tarfs_init m start e s = Some s'" "table_for start fs (tarfs_fs s')"
    "num_files s' = of_nat (length fs)" "\<forall>k \<ge> length fs. tarfs_fs s' k = tarfs_fs s k"
    using tarfs_init_spec [OF assms(1-4)] by blast
  have n: "e_name (tarfs_fs s' (length fs)) = []" using s'(4) assms(5) by simp
  have "openfile s' name = Some (open_addr start fs name 0)"
       "opendirect s' name = Some (open_addr start fs name 5)" for name
    using open_loop_spec [OF s'(2) n assms(3) archive_entry [OF assms(1)], of 0 0 name]
      open_loop_spec [OF s'(2) n assms(3) archive_entry [OF assms(1)], of 5 0 name]
    by (simp_all add: openfile_def opendirect_def)
  with s'(1,3) show ?thesis by blast
qed

text \<open>The table and the walk over the image find the same header.\<close>

lemma open_addr_entry_addr:
  assumes "\<And>f. f \<in> set fs \<Longrightarrow> f_name f = name \<Longrightarrow> f_type f = ty"
  shows "open_addr a fs name ty = (case entry_addr a fs name of Some h \<Rightarrow> h | None \<Rightarrow> 0)"
  using assms by (induction fs arbitrary: a) auto

lemma entry_addr_nonzero:
  assumes "entry_addr a fs name = Some h" "a \<noteq> 0" "unat a + total fs < 2 ^ 64"
  shows "h \<noteq> 0"
  using assms
proof (induction fs arbitrary: a)
  case (Cons f fs)
  have "extent f < 2 ^ 64" using Cons.prems(3) by simp
  then have u: "unat (a + of_nat (extent f)) = unat a + extent f"
    using Cons.prems(3) unat_add_small [of a "of_nat (extent f)"] by (simp add: unat_of_nat)
  then have "a + of_nat (extent f) \<noteq> 0" using Cons.prems(2) by (metis add_is_0 unsigned_0 unsigned_eq_0_iff)
  with Cons u show ?case by (auto split: if_splits)
qed simp

lemma arr_copy_step:
  assumes "arr m src (x # xs)" "region dest (Suc (length xs)) \<inter> region src (Suc (length xs)) = {}"
    "length xs < 2 ^ 64"
  shows "arr (m(dest := x)) (src + 1) xs" "region (dest + 1) (length xs) \<inter> region (src + 1) (length xs) = {}"
proof -
  have r: "region (src + 1) (length xs) \<subseteq> region src (Suc (length xs))"
    "region (dest + 1) (length xs) \<subseteq> region dest (Suc (length xs))" using assms(3) by (simp_all add: region_tail)
  have "dest \<in> region dest (Suc (length xs))" by (simp add: region_def)
  with assms r show "arr (m(dest := x)) (src + 1) xs" by (subst arr_upd) auto
  show "region (dest + 1) (length xs) \<inter> region (src + 1) (length xs) = {}" using assms(2) r by blast
qed

lemma sint_of_nat: "n < 2 ^ 31 \<Longrightarrow> sint (of_nat n :: u32) = int n"
  using sint_small [of "of_nat n"] by (simp add: unat_of_nat)

lemma readfile_loop_spec:
  assumes "arr m src xs" "region (tmp + of_nat i) (length xs) \<inter> region src (length xs) = {}"
    "i + length xs < 2 ^ 31"
  shows "readfile_loop m tmp src (of_nat (length xs)) (of_nat i) =
    Some (- 1, of_nat (i + length xs), blit m (tmp + of_nat i) xs)"
  using assms
proof (induction xs arbitrary: m src i)
  case Nil
  then show ?case by (subst readfile_loop.simps) simp
next
  case (Cons x xs)
  let ?d = "tmp + of_nat i"
  have l: "length xs < 2 ^ 64" using Cons.prems(3) by simp
  have s: "sint (of_nat (length (x # xs)) :: u32) = int (length (x # xs))" using Cons.prems(3) by (intro sint_of_nat) simp
  have i: "(scast (of_nat i :: u32) :: u64) = of_nat i" using Cons.prems(3) by (intro scast_small) simp
  have e: "tmp + of_nat (Suc i) = ?d + 1" by simp
  note st = arr_copy_step [OF Cons.prems(1) Cons.prems(2) [simplified] l]
  have "readfile_loop (m(?d := x)) tmp (src + 1) (of_nat (length xs)) (of_nat (Suc i)) =
    Some (- 1, of_nat (Suc i + length xs), blit (m(?d := x)) (tmp + of_nat (Suc i)) xs)"
  proof (rule Cons.IH)
    show "arr (m(?d := x)) (src + 1) xs" by (rule st(1))
    show "region (tmp + of_nat (Suc i)) (length xs) \<inter> region (src + 1) (length xs) = {}"
      unfolding e by (rule st(2))
    show "Suc i + length xs < 2 ^ 31" using Cons.prems(3) by simp
  qed
  moreover have "blit (m(?d := x)) (tmp + of_nat (Suc i)) xs = blit m ?d (x # xs)"
    unfolding e by (rule blit_Cons [OF l, symmetric])
  ultimately show ?case using Cons.prems(1) s i
    by (subst readfile_loop.simps) (simp add: add.commute del: fun_upd_apply)
qed

text \<open>\<open>readfile\<close> puts the first bytes of the file and a terminator into the buffer.\<close>

lemma readfile_blit:
  assumes "size_field m a n" "k < 2 ^ 31" "arr m (a + 512) xs" "length xs = min k n"
    and "region buf (length xs) \<inter> region (a + 512) (length xs) = {}"
  shows "readfile m a (of_nat k) buf = Some (- 1, blit m buf (xs @ [0]))"
proof -
  have n: "n < 2 ^ 31" using size_field_reads(3) [OF assms(1)] .
  obtain v where v: "stoi m (hdr_size a) = Some v" "octalToDecimal v = of_nat n"
    using size_field_reads(2) [OF assms(1)] by blast
  have u: "(ucast (of_nat n :: u64) :: u32) = of_nat n"
    using n by (simp add: word_unat_eq_iff unsigned_ucast_eq unat_of_nat take_bit_eq_mod)
  have sz: "(if sint (of_nat n :: u32) < sint (of_nat k :: u32) then of_nat n else of_nat k) = (of_nat (length xs) :: u32)"
    using sint_of_nat [OF n] sint_of_nat [OF assms(2)] by (simp add: assms(4) min_def)
  have l: "length xs < 2 ^ 31" using assms(2,4) by simp
  have lp: "readfile_loop m buf (a + 512) (of_nat (length xs)) (of_nat 0) = Some (- 1, of_nat (0 + length xs), blit m (buf + of_nat 0) xs)"
    using assms(5) l by (intro readfile_loop_spec [OF assms(3)]) simp_all
  have "(scast (of_nat (length xs) :: u32) :: u64) = of_nat (length xs)" using l by (rule scast_small)
  moreover have "blit m buf (xs @ [0]) = (blit m buf xs)(buf + of_nat (length xs) := 0)" using l by (intro blit_snoc) simp
  ultimately show ?thesis
    using lp unfolding readfile_def by (simp only: v u sz Let_def Option.bind.bind_lunit) simp
qed

lemma size_field_cong:
  assumes "size_field m a n" "\<And>b. b \<in> region a 512 \<Longrightarrow> m' b = m b"
  shows "size_field m' a n"
proof -
  have r: "region (hdr_size a) 11 \<subseteq> region a 512" "a + 135 \<in> region a 512"
    using region_sub [of 124 11 512 a] by (simp_all add: region_def)
  have "arr m' (hdr_size a) xs = arr m (hdr_size a) xs" if "length xs = 11" for xs
    by (rule arr_cong) (use assms(2) r(1) that in auto)
  then show ?thesis using assms(1) assms(2) [OF r(2)] unfolding size_field_def by force
qed

lemma open_addr_header:
  assumes "archive m a fs" "open_addr a fs name ty = h" "h \<noteq> 0"
  shows "\<exists>f \<in> set fs. f_name f = name \<and> f_type f = ty \<and> header_ok m h f"
  using assms by (induction fs arbitrary: a) (auto split: if_splits)

subsection \<open>Properties\<close>

text \<open>The two readers of the size field agree: for eleven octal digits followed by a non-digit,
  as long as the digits read as a decimal number stay below \<open>2 ^ 31\<close>, the loop of \<open>getSize\<close> and
  \<open>octalToDecimal\<close> after \<open>stoi\<close> both end with the octal value.\<close>

lemma tarfs_sizes_agree:
  assumes "arr m a (map digit ds)" "length ds = 11" "\<forall>d \<in> set ds. d < 8" "\<not> is_digit (m (a + 11))"
    and "dec ds < 2 ^ 31"
  shows "getSize m a = of_nat (oct ds) \<and> map_option octalToDecimal (stoi m a) = Some (of_nat (oct ds))"
proof -
  have d10: "\<forall>d \<in> set ds. d < 10" using assms(3) by auto
  have "stoi m a = Some (of_nat (dec ds))"
    using assms(2,4) by (intro stoi_spec [OF assms(1) d10]) simp
  then show ?thesis
    using getSize_loop_spec [OF assms(1) d10, of 0 1] octalToDecimal_dec [OF d10 assms(5)] assms(2)
    by (simp add: getSize_def)
qed

text \<open>C27. The file system finds what the image holds: on a well-formed image \<open>tarfs_init\<close> ends and
  counts the entries; then \<open>openfile\<close> and \<open>opendirect\<close> return the header address of the first
  entry of that name and type (0 if there is none), and \<open>getElfHeader\<close>, which walks the image by
  itself, returns the address just behind the header \<open>openfile\<close> returns.\<close>

theorem tarfs_lookup:
  assumes "archive m start fs" "tree_ok fs" "length fs < 100" "total fs + 512 < 2 ^ 31"
    and "e_name (tarfs_fs s (length fs)) = []"
    and "unat start + total fs < unat tend" "unat tend \<le> unat start + total fs + 1227134464"
    and "unat start + total fs + 1227134464 < 2 ^ 64" "start \<noteq> 0"
  shows "\<exists>s'. tarfs_init m start e s = Some s' \<and> num_files s' = of_nat (length fs) \<and>
    (\<forall>name. openfile s' name = Some (open_addr start fs name 0) \<and>
            opendirect s' name = Some (open_addr start fs name 5)) \<and>
    (\<forall>name p. name \<noteq> [] \<longrightarrow> cstr m p name \<longrightarrow> (\<forall>f \<in> set fs. f_name f = name \<longrightarrow> f_type f = 0) \<longrightarrow>
       (\<exists>h. openfile s' name = Some h \<and>
            getElfHeader m start tend p = Some (if h = 0 then 0 else h + 512)))"
proof -
  obtain s' where s': "tarfs_init m start e s = Some s'" "num_files s' = of_nat (length fs)"
    "\<And>name. openfile s' name = Some (open_addr start fs name 0)"
    "\<And>name. opendirect s' name = Some (open_addr start fs name 5)"
    using open_after_init [OF assms(1-5)] by blast
  have "getElfHeader m start tend p = Some (if open_addr start fs name 0 = 0 then 0 else open_addr start fs name 0 + 512)"
    if "name \<noteq> []" "cstr m p name" "\<forall>f \<in> set fs. f_name f = name \<longrightarrow> f_type f = 0" for name p
    using getElfHeader_loop_spec [OF assms(1) that(2,1) assms(6-8)] open_addr_entry_addr [of fs name 0 start]
      entry_addr_nonzero [of start fs name] assms(8,9) that(3)
    by (simp add: getElfHeader_def split: option.splits)
  with s' show ?thesis by auto
qed

text \<open>C39. \<open>readfile\<close> copies the first bytes of the file, as many as asked for or as the file has, puts a
  zero behind them and changes nothing else; the number it returns is -1 whatever was copied.\<close>

theorem readfile_copies:
  assumes "size_field m a n" "k < 2 ^ 31"
    and "region buf (min k n) \<inter> region (a + 512) (min k n) = {}"
  shows "\<exists>m'. readfile m a (of_nat k) buf = Some (- 1, m') \<and>
    (\<forall>i < min k n. m' (buf + of_nat i) = m (a + 512 + of_nat i)) \<and> m' (buf + of_nat (min k n)) = 0 \<and>
    (\<forall>b. b \<notin> region buf (Suc (min k n)) \<longrightarrow> m' b = m b)"
proof -
  let ?xs = "map (\<lambda>i. m (a + 512 + of_nat i)) [0..<min k n]"
  have "readfile m a (of_nat k) buf = Some (- 1, blit m buf (?xs @ [0]))"
    using assms(3) by (intro readfile_blit [OF assms(1,2) arr_map_upt]) simp_all
  moreover have "blit m buf (?xs @ [0]) (buf + of_nat i) = (?xs @ [0]) ! i" if "i \<le> min k n" for i
    using arr_nthD [OF arr_blit, of "?xs @ [0]" i m buf] that assms(2) by simp
  moreover have "blit m buf (?xs @ [0]) b = m b" if "b \<notin> region buf (Suc (min k n))" for b
    using that by (intro blit_outside) simp
  ultimately show ?thesis by (auto simp: nth_append)
qed

subsection \<open>Witnesses\<close>

text \<open>An image with one file of five bytes, named \<^verbatim>\<open>ab\<close>.\<close>

definition demo_file :: "u8 list" where
  "demo_file = [97, 98] @ replicate 122 0 @ map digit [0, 0, 0, 0, 0, 0, 0, 0, 0, 0, 5] @
     replicate 21 0 @ [48] @ replicate 355 0 @ [1, 2, 3, 4, 5]"

definition demo_image :: bytes where
  "demo_image = blit (\<lambda>_. 0) 0x100000 demo_file"

lemma length_demo_file: "length demo_file = 517"
  by (simp add: demo_file_def)

lemma arr_zeros:
  assumes "n \<le> 2 ^ 64" "\<And>a. a \<in> region p n \<Longrightarrow> m a = 0"
  shows "arr m p (replicate n 0)"
proof -
  have "arr (\<lambda>_. 0) p (replicate n 0)" for p :: u64 by (induction n arbitrary: p) auto
  then show ?thesis using assms by (subst arr_cong [where m' = "\<lambda>_. 0"]) auto
qed

lemma demo_image_arr:
  "cstr demo_image 0x100000 [97, 98]"
  "arr demo_image 0x10007C (map digit [0, 0, 0, 0, 0, 0, 0, 0, 0, 0, 5])"
  "demo_image 0x100087 = 0" "demo_image 0x10009C = 48" "demo_image 0x10009D = 0"
proof -
  have "arr demo_image 0x100000 demo_file"
    unfolding demo_image_def by (rule arr_blit) (simp add: length_demo_file)
  then have a: "arr demo_image 0x100000 [97, 98]" "arr demo_image 0x100002 (replicate 122 0)"
    "arr demo_image 0x10007C (map digit [0, 0, 0, 0, 0, 0, 0, 0, 0, 0, 5])"
    "arr demo_image 0x100087 (replicate 21 0)" "arr demo_image 0x10009C [48]"
    "arr demo_image 0x10009D (replicate 355 0)"
    unfolding demo_file_def arr_append by simp_all
  show "arr demo_image 0x10007C (map digit [0, 0, 0, 0, 0, 0, 0, 0, 0, 0, 5])" by (rule a(3))
  show "cstr demo_image 0x100000 [97, 98]"
    using a(1) arr_nthD [OF a(2), of 0] by (simp add: cstr_def)
  show "demo_image 0x100087 = 0" "demo_image 0x10009C = 48" "demo_image 0x10009D = 0"
    using arr_nthD [OF a(4), of 0] a(5) arr_nthD [OF a(6), of 0] by simp_all
qed

definition demo_tfile :: tfile where
  "demo_tfile = \<lparr>f_name = [97, 98], f_size = 5, f_type = 0\<rparr>"

lemma demo_size_field: "size_field demo_image 0x100000 5"
  unfolding size_field_def
  using demo_image_arr(2,3)
  by (intro exI [of _ "[0, 0, 0, 0, 0, 0, 0, 0, 0, 0, 5]"]) (simp add: is_digit_def oct_def dec_def)

lemma demo_archive: "archive demo_image 0x100000 [demo_tfile]"
proof -
  have "demo_image a = 0" if "a \<in> region 0x100400 512" for a
  proof -
    have "region 0x100400 512 \<inter> region 0x100000 517 = {}" by (rule region_disjoint) simp_all
    with that have "a \<notin> region 0x100000 (length demo_file)" by (auto simp: length_demo_file)
    then show ?thesis by (simp add: demo_image_def blit_outside)
  qed
  then have "arr demo_image 0x100400 (replicate 512 0)" by (intro arr_zeros) simp_all
  then show ?thesis
    using demo_image_arr demo_size_field
    by (simp add: header_ok_def demo_tfile_def extent_def is_digit_def)
qed

lemma demo_tree_ok: "tree_ok [demo_tfile]"
  by (simp add: tree_ok_def parent_ok_def slash_from_def demo_tfile_def slash_loop.simps)

definition demo_tarfs :: tarfs where
  "demo_tarfs = \<lparr>tarfs_fs = \<lambda>_. \<lparr>e_name = [], e_size = 0, e_typeflag = 0, addr_hdr = 0, par_ind = 0\<rparr>,
     num_files = 0, tarfs_cwd = []\<rparr>"

theorem tarfs_lookup_witness:
  "\<exists>s'. tarfs_init demo_image 0x100000 (tarfs_fs demo_tarfs 0) demo_tarfs = Some s' \<and>
     openfile s' [97, 98] = Some 0x100000 \<and> openfile s' [97] = Some 0 \<and>
     getElfHeader demo_image 0x100000 0x100800 0x100000 = Some 0x100200"
proof -
  have t: "total [demo_tfile] = 1024" by (simp add: extent_def demo_tfile_def)
  obtain s' where s': "tarfs_init demo_image 0x100000 (tarfs_fs demo_tarfs 0) demo_tarfs = Some s'"
    "\<And>name. openfile s' name = Some (open_addr 0x100000 [demo_tfile] name 0)"
    "\<And>name p. name \<noteq> [] \<Longrightarrow> cstr demo_image p name \<Longrightarrow> (\<forall>f \<in> set [demo_tfile]. f_name f = name \<longrightarrow> f_type f = 0) \<Longrightarrow>
       \<exists>h. openfile s' name = Some h \<and>
         getElfHeader demo_image 0x100000 0x100800 p = Some (if h = 0 then 0 else h + 512)"
    using tarfs_lookup [OF demo_archive demo_tree_ok, of demo_tarfs "0x100800" "tarfs_fs demo_tarfs 0"] t
    by (auto simp: demo_tarfs_def)
  have o: "openfile s' [97, 98] = Some 0x100000" "openfile s' [97] = Some 0"
    using s'(2) [of "[97, 98]"] s'(2) [of "[97]"] by (simp_all add: demo_tfile_def)
  have "getElfHeader demo_image 0x100000 0x100800 0x100000 = Some 0x100200"
    using s'(3) [OF _ demo_image_arr(1)] o(1) by (simp add: demo_tfile_def)
  with s'(1) o show ?thesis by blast
qed

theorem readfile_copies_witness:
  "\<exists>m'. readfile demo_image 0x100000 3 0x200000 = Some (- 1, m') \<and> m' 0x200003 = 0"
  using readfile_copies [OF demo_size_field, of 3 "0x200000"] region_disjoint [of "0x100200" 3 "0x200000" 3]
  by auto

end
