(* ===== verification/Elf.thy ===== *)
theory Elf
  imports Task Tarfs
begin

unbundle bit_operations_syntax

text \<open>
  Loading programs: memory areas (\<^verbatim>\<open>addVMA\<close>, \<^verbatim>\<open>allocate_vma\<close> of \<^verbatim>\<open>sys/phymap.c\<close>), stores to user
  memory through the page tables, and the ELF loader of \<^verbatim>\<open>sys/elf.c\<close>.

  User pages hold bytes: \<open>umem\<close> is physical memory as bytes, used for the frames given to user
  space, beside the words of \<open>mem\<close> used for page tables and kernel stacks. \<open>img\<close> is the part of
  the kernel's memory that is only read here: the tar image and the strings passed in.
\<close>

record proc_state = kernel +
  umem :: bytes

subsection \<open>Little-endian fields\<close>

definition rd16 :: "bytes \<Rightarrow> u64 \<Rightarrow> u16" where
  "rd16 m a = ucast (m a) OR push_bit 8 (ucast (m (a + 1)))"

definition rd32 :: "bytes \<Rightarrow> u64 \<Rightarrow> u32" where
  "rd32 m a = ucast (rd16 m a) OR push_bit 16 (ucast (rd16 m (a + 2)))"

definition rd64 :: "bytes \<Rightarrow> u64 \<Rightarrow> u64" where
  "rd64 m a = ucast (rd32 m a) OR push_bit 32 (ucast (rd32 m (a + 4)))"

text \<open>The fields of \<^verbatim>\<open>Elf64_Ehdr\<close> and \<^verbatim>\<open>Elf64_Phdr\<close> that are read.\<close>

definition e_entry :: "bytes \<Rightarrow> u64 \<Rightarrow> u64" where "e_entry m h = rd64 m (h + 24)"
definition e_phoff :: "bytes \<Rightarrow> u64 \<Rightarrow> u64" where "e_phoff m h = rd64 m (h + 32)"
definition e_phnum :: "bytes \<Rightarrow> u64 \<Rightarrow> u16" where "e_phnum m h = rd16 m (h + 56)"

record Phdr =
  p_type :: u32
  p_flags :: u32
  p_offset :: u64
  p_vaddr :: u64
  p_paddr :: u64
  p_filesz :: u64
  p_memsz :: u64
  p_align :: u64

definition read_phdr :: "bytes \<Rightarrow> u64 \<Rightarrow> Phdr" where
  "read_phdr m a = \<lparr>p_type = rd32 m a, p_flags = rd32 m (a + 4), p_offset = rd64 m (a + 8),
     p_vaddr = rd64 m (a + 16), p_paddr = rd64 m (a + 24), p_filesz = rd64 m (a + 32),
     p_memsz = rd64 m (a + 40), p_align = rd64 m (a + 48)\<rparr>"

subsection \<open>Memory areas and user memory\<close>

abbreviation VMA_TEXT :: u64 where "VMA_TEXT \<equiv> 0"
abbreviation VMA_DATA :: u64 where "VMA_DATA \<equiv> 1"
abbreviation VMA_STACK :: u64 where "VMA_STACK \<equiv> 2"
abbreviation VMA_HEAP :: u64 where "VMA_HEAP \<equiv> 3"
abbreviation VMA_NOTYPE :: u64 where "VMA_NOTYPE \<equiv> 4"

definition addVMA ::
    "u64 \<Rightarrow> u64 \<Rightarrow> u64 \<Rightarrow> u64 \<Rightarrow> 'a kernel_scheme \<Rightarrow> (u64 \<times> 'a kernel_scheme) option" where
  "addVMA vstart vend flags type s = do {
     (v, s) \<leftarrow> kmalloc s 4096;
     let a = (vmas s v)\<lparr>vma_start := vstart, vma_end := vend, vma_flags := flags, vma_next := None,
                vma_type := type\<rparr>;
     let a = (if flags = 4 OR 1 then a\<lparr>vma_type := VMA_TEXT\<rparr> else a\<lparr>vma_type := VMA_DATA\<rparr>);
     Some (v, s\<lparr>vmas := (vmas s)(v := a)\<rparr>) }"

text \<open>\<open>allocate_vma\<close> puts a new area behind the last of a list, in the memory that follows it;
  \<open>kernmem\<close> is here the value of the \<^verbatim>\<open>char\<close> of that name.\<close>

partial_function (option) vma_tail :: "'a kernel_scheme \<Rightarrow> u64 \<Rightarrow> u64 option" where
  "vma_tail s v = (case vma_next (vmas s v) of None \<Rightarrow> Some v | Some w \<Rightarrow> vma_tail s w)"

definition allocate_vma ::
    "u8 \<Rightarrow> u64 option \<Rightarrow> 'a kernel_scheme \<Rightarrow> (u64 \<times> u64 option \<times> 'a kernel_scheme) option" where
  "allocate_vma kernmem vma_head s =
     (case vma_head of
        None \<Rightarrow> do {
          (a, s) \<leftarrow> page_alloc_addr s;
          let v = scast kernmem + a;
          Some (v, Some v, s) }
      | Some h \<Rightarrow> do {
          v \<leftarrow> vma_tail s h;
          let s = s\<lparr>vmas := (vmas s)(v := (vmas s v)\<lparr>vma_next := Some (v + 64)\<rparr>)\<rparr>;
          Some (v + 64, vma_head, s) })"

text \<open>A byte stored at a virtual address of the current address space; a fault when it is not mapped.\<close>

definition vstore :: "u64 \<Rightarrow> u8 \<Rightarrow> 'a proc_state_scheme \<Rightarrow> 'a proc_state_scheme option" where
  "vstore va b s =
     (case translate s (CR3 s) va of
        None \<Rightarrow> None
      | Some e \<Rightarrow> Some (s\<lparr>umem := (umem s)(get_address e + (va AND 0xFFF) := b)\<rparr>))"

definition vload :: "u64 \<Rightarrow> 'a proc_state_scheme \<Rightarrow> u8 option" where
  "vload va s =
     (case translate s (CR3 s) va of
        None \<Rightarrow> None
      | Some e \<Rightarrow> Some (umem s (get_address e + (va AND 0xFFF))))"

text \<open>\<open>memcpy\<close> from the kernel's memory to user space, where the source lies above the destination:
  bytes go in ascending order.\<close>

definition vcopy :: "bytes \<Rightarrow> u64 \<Rightarrow> u64 \<Rightarrow> nat \<Rightarrow> 'a proc_state_scheme \<Rightarrow> 'a proc_state_scheme option" where
  "vcopy img dest src n s = for_each (\<lambda>i. vstore (dest + of_nat i) (img (src + of_nat i))) [0..<n] s"

text \<open>\<open>memcpy\<close> from user space to user space: every byte is read and stored through the tables as they are then. The
  two ranges do not overlap where this is used, so that the direction of the copy makes no difference.\<close>

definition vmove :: "u64 \<Rightarrow> u64 \<Rightarrow> nat \<Rightarrow> 'a proc_state_scheme \<Rightarrow> 'a proc_state_scheme option" where
  "vmove dest src n s =
     for_each (\<lambda>i s. do { b \<leftarrow> vload (src + of_nat i) s; vstore (dest + of_nat i) b s }) [0..<n] s"

subsection \<open>The ELF loader\<close>

primrec map_pages :: "nat \<Rightarrow> u64 \<Rightarrow> 'a vm_scheme \<Rightarrow> 'a vm_scheme option" where
  "map_pages 0 st s = Some s"
| "map_pages (Suc itr) st s = do {
     (page, s) \<leftarrow> page_alloc_addr s;
     s \<leftarrow> map_process s st page;
     map_pages itr (st + 0x1000) s }"

text \<open>One program header. The pair carries the local variable \<open>vma\<close>.\<close>

definition load_phdr ::
    "bytes \<Rightarrow> u64 \<Rightarrow> u64 \<Rightarrow> nat \<Rightarrow> u64 option \<times> 'a proc_state_scheme
      \<Rightarrow> (u64 option \<times> 'a proc_state_scheme) option" where
  "load_phdr img elfHeader task i vs =
     (let ph = read_phdr img (elfHeader + e_phoff img elfHeader + of_nat i * 56); (v, s) = vs in
      if p_type ph = 1 then do {
        (v, s) \<leftarrow> addVMA (p_vaddr ph) (p_vaddr ph + p_memsz ph) (ucast (p_flags ph)) VMA_NOTYPE s;
        let s = upd_task task (vma_update (\<lambda>_. Some v)) s;
        let sz = ((vma_end (vmas s v) div 0x1000) * 0x1000 + 0x1000) - ((vma_start (vmas s v) div 0x1000) * 0x1000);
        let itr = sz div 0x1000;
        let st = (p_vaddr ph div 0x1000) * 0x1000;
        s \<leftarrow> map_pages (unat itr) st s;
        s \<leftarrow> (if p_flags ph = 4 OR 1 \<or> p_flags ph = 4 OR 2
              then vcopy img (vma_start (vmas s v)) (elfHeader + p_offset ph) (unat (p_filesz ph)) s
              else Some s);
        Some (Some v, s) }
      else Some (v, s))"

text \<open>The arguments are copied from the memory of the caller, which the new address space still maps; by then
  the segments of the new program have been mapped over it.\<close>

definition le_bytes :: "u64 \<Rightarrow> nat \<Rightarrow> u8" where
  "le_bytes w i = ucast (drop_bit (8 * i) w)"

abbreviation HEAP_START :: u64 where "HEAP_START \<equiv> 0x08000000"
abbreviation USER_STACK_TOP :: u64 where "USER_STACK_TOP \<equiv> 0xF0000000"

definition elf_load ::
    "bytes \<Rightarrow> u64 \<Rightarrow> u64 \<Rightarrow> u64 \<Rightarrow> u64 \<Rightarrow> u32 \<Rightarrow> u64 \<Rightarrow> 'a proc_state_scheme
      \<Rightarrow> 'a proc_state_scheme option" where
  "elf_load img tstart tend task file_name argc args s = do {
     addr \<leftarrow> getElfHeader img tstart tend file_name;
     if addr \<noteq> 0 then do {
       let s = upd_task task (task_rip_update (\<lambda>_. e_entry img addr)) s;
       (v, s) \<leftarrow> for_each (load_phdr img addr task) [0..<unat (e_phnum img addr)] (None, s);
       (_, s) \<leftarrow> get_phy_addr s HEAP_START;
       (vma_heap, s) \<leftarrow> addVMA HEAP_START (HEAP_START + 0x1000) (4 OR 2) VMA_HEAP s;
       let s = (case v of None \<Rightarrow> s
                | Some w \<Rightarrow> s\<lparr>vmas := (vmas s)(w := (vmas s w)\<lparr>vma_next := Some vma_heap\<rparr>)\<rparr>);
       (stack_addr, s) \<leftarrow> get_phy_addr s (USER_STACK_TOP - 0x1000);
       (vma_stack, s) \<leftarrow> addVMA (stack_addr + 0x1000) stack_addr (4 OR 2) VMA_STACK s;
       let s = s\<lparr>vmas := (vmas s)(vma_heap := (vmas s vma_heap)\<lparr>vma_next := Some vma_stack\<rparr>)\<rparr>;
       let ptr = stack_addr + 0x1000 - 16 - scast (64 * argc);
       s \<leftarrow> (if 0 < sint argc then do {
               s \<leftarrow> for_each (\<lambda>i. vstore (ptr + of_nat i) (le_bytes (scast argc) i)) [0..<8] s;
               vmove (ptr + 8) args (unat (argc * 64)) s }
             else Some s);
       let s = upd_task task (task_rsp_update (\<lambda>_. ptr)) s;
       Some (upd_task task (kernel_rsp_update (\<lambda>_. kstack_addr task 511)) s) }
     else Some s }"

subsection \<open>Mapping fresh pages\<close>

text \<open>A page handed out for data is recorded in the ghost map like a leaf table, so that it is never
  handed out again.\<close>

lemma vm_wf_take_page:
  "vm_wf own (x # fl) s \<Longrightarrow>
    vm_wf (own(page_addr (pages s x) \<mapsto> [0, 0, 0])) fl (s\<lparr>free_list := nxt (pages s x)\<rparr>)"
  by (rule vm_wf_claim) simp_all

lemma page_alloc_addr_head:
  "vm_wf own (x # fl) s \<Longrightarrow> page_alloc_addr s = Some (page_addr (pages s x), s\<lparr>free_list := nxt (pages s x)\<rparr>)"
  by (auto simp: vm_wf_def free_ok_def flist_def page_alloc_addr_def page_alloc_def)

lemma same_but_mem_trans: "same_but_mem s s' \<Longrightarrow> same_but_mem s' s'' \<Longrightarrow> same_but_mem s s''"
  by (simp add: same_but_mem_def)

lemma translate_free_list [simp]: "translate (s\<lparr>free_list := v\<rparr>) r va = translate s r va"
  by (simp add: translate_def)

text \<open>One fresh page mapped at \<open>st\<close>.\<close>

lemma map_fresh_page:
  assumes "vm_wf own (x # fl) s" "own (CR3 s) = Some []" "3 \<le> length fl" "f = page_addr (pages s x)"
  obtains s1 own1 fl1 where "map_at (s\<lparr>free_list := nxt (pages s x)\<rparr>) (CR3 s) st f = Some s1" "vm_wf own1 fl1 s1"
    "own \<subseteq>\<^sub>m own1" "own1 f = Some [0, 0, 0]" "same_but_mem s s1" "length fl \<le> 3 + length fl1"
    "translate s1 (CR3 s) st = Some (f OR 7)" "aligned f" "own f = None"
    "\<And>r va'. own r = Some [] \<Longrightarrow> vpath va' \<noteq> vpath st \<Longrightarrow> translate s1 r va' = translate s r va'"
proof -
  define own0 where "own0 = own(f \<mapsto> [0, 0, 0])"
  let ?s0 = "s\<lparr>free_list := nxt (pages s x)\<rparr>"
  have wf0: "vm_wf own0 fl ?s0" using vm_wf_take_page assms(1) by (simp add: assms(4) own0_def)
  have f: "aligned f" "own f = None"
    using assms(1,4) free_okD [of own "x # fl" s x] by (auto simp: vm_wf_def)
  have le0: "own \<subseteq>\<^sub>m own0" using f(2) by (auto simp: own0_def map_le_def)
  obtain s1 own1 fl1 where
    1: "map_at ?s0 (CR3 s) st f = Some s1" "vm_wf own1 fl1 s1" "own0 \<subseteq>\<^sub>m own1" "same_but_mem ?s0 s1"
      "length fl \<le> 3 + length fl1" "translate s1 (CR3 s) st = Some (f OR 7)"
      "\<And>r va'. own0 r = Some [] \<Longrightarrow> vpath va' \<noteq> vpath st \<Longrightarrow> translate s1 r va' = translate ?s0 r va'"
    by (rule map_at_spec [OF wf0 map_le_Some [OF le0 assms(2)] assms(3), of st f]) blast
  have "own1 f = Some [0, 0, 0]" using map_le_Some [OF 1(3)] by (simp add: own0_def)
  moreover have "own \<subseteq>\<^sub>m own1" using le0 1(3) by (rule map_le_trans)
  moreover have "translate s1 r va' = translate s r va'" if "own r = Some []" "vpath va' \<noteq> vpath st" for r va'
    using 1(7) [OF map_le_Some [OF le0 that(1)] that(2)] by simp
  ultimately show thesis using that 1 f by (simp add: same_but_mem_def)
qed

lemma map_pages_spec:
  assumes "vm_wf own fl s" "own (CR3 s) = Some []" "4 * n \<le> length fl"
    and "inj_on (\<lambda>k. vpath (page_from st k)) {..<n}"
  shows "\<exists>s' own' fl' f. map_pages n st s = Some s' \<and> vm_wf own' fl' s' \<and> own \<subseteq>\<^sub>m own' \<and>
    same_but_mem s s' \<and> length fl \<le> 4 * n + length fl' \<and> inj_on f {..<n} \<and>
    (\<forall>k < n. aligned (f k) \<and> own (f k) = None \<and> own' (f k) = Some [0, 0, 0]) \<and> maps_range own (CR3 s) st n (\<lambda>k. f k OR 7) s s'"
  using assms
proof (induction n arbitrary: own fl s st)
  case 0
  have "same_but_mem s s" by (simp add: same_but_mem_def)
  then show ?case using 0 by (intro exI [of _ s] exI [of _ own] exI [of _ fl]) simp
next
  case (Suc n)
  then obtain x fl0 where fl: "fl = x # fl0" by (cases fl) auto
  define f0 where "f0 = page_addr (pages s x)"
  have len0: "3 \<le> length fl0" using Suc.prems(3) by (simp add: fl)
  obtain s1 own1 fl1 where
    1: "map_at (s\<lparr>free_list := nxt (pages s x)\<rparr>) (CR3 s) st f0 = Some s1" "vm_wf own1 fl1 s1"
      "own \<subseteq>\<^sub>m own1" "own1 f0 = Some [0, 0, 0]" "same_but_mem s s1" "length fl0 \<le> 3 + length fl1"
      "translate s1 (CR3 s) st = Some (f0 OR 7)" "aligned f0" "own f0 = None"
      "\<And>r va'. own r = Some [] \<Longrightarrow> vpath va' \<noteq> vpath st \<Longrightarrow> translate s1 r va' = translate s r va'"
    by (rule map_fresh_page [OF Suc.prems(1)[unfolded fl] Suc.prems(2) len0 f0_def, of st]) blast
  have c: "CR3 s1 = CR3 s" using 1(5) by (simp add: same_but_mem_def)
  have o1: "own1 (CR3 s1) = Some []" using map_le_Some [OF 1(3) Suc.prems(2)] c by simp
  have "4 * n \<le> length fl1" using Suc.prems(3) 1(6) by (simp add: fl)
  from Suc.IH [OF 1(2) o1 this inj_pages_Suc [OF Suc.prems(4)]] obtain s' own' fl' g where
    2: "map_pages n (st + 0x1000) s1 = Some s'" "vm_wf own' fl' s'" "own1 \<subseteq>\<^sub>m own'"
      "same_but_mem s1 s'" "length fl1 \<le> 4 * n + length fl'" "inj_on g {..<n}"
      "\<forall>k < n. aligned (g k) \<and> own1 (g k) = None \<and> own' (g k) = Some [0, 0, 0]" "maps_range own1 (CR3 s) (st + 0x1000) n (\<lambda>k. g k OR 7) s1 s'"
    unfolding c by blast
  have g: "own (g k) = None" "g k \<noteq> f0" if "k < n" for k
    using 2(7) that 1(4) map_le_Some [OF 1(3), of "g k"] by (cases "own (g k)"; auto)+
  let ?h = "case_nat f0 g"
  have "map_pages (Suc n) st s = Some s'"
    using page_alloc_addr_head [OF Suc.prems(1)[unfolded fl]] 1(1) 2(1) by (simp add: map_process_def get_CR3_def f0_def)
  moreover have "own \<subseteq>\<^sub>m own'" using 1(3) 2(3) by (rule map_le_trans)
  moreover have "same_but_mem s s'" using 1(5) 2(4) by (rule same_but_mem_trans)
  moreover have "inj_on ?h {..<Suc n}"
    using 2(6) g(2) g(2) [THEN not_sym] by (fastforce simp: inj_on_def split: nat.splits)
  moreover have "\<forall>k < Suc n. aligned (?h k) \<and> own (?h k) = None \<and> own' (?h k) = Some [0, 0, 0]"
    using 1(8,9) 2(7) g(1) map_le_Some [OF 2(3) 1(4)] by (auto split: nat.splits)
  moreover have "maps_range own (CR3 s) st (Suc n) (\<lambda>k. ?h k OR 7) s s'"
    by (rule maps_range_Suc [OF Suc.prems(4,2) 1(3)]) (use 1(7,10) 2(8) in simp_all)
  moreover have "length fl \<le> 4 * Suc n + length fl'" using 2(5) 1(6) by (simp add: fl)
  ultimately show ?case using 2(2) by blast
qed

subsection \<open>Bytes stored through the tables\<close>

lemma walk_umem [simp]: "walk (s\<lparr>umem := m\<rparr>) t is = walk s t is"
  by (induction s t "is" rule: walk.induct) (simp_all add: pt_entry_def)

lemma translate_umem [simp]: "translate (s\<lparr>umem := m\<rparr>) r va = translate s r va"
  by (simp add: translate_def)

lemma vcopy_spec:
  assumes "\<And>k. k < n \<Longrightarrow> translate s (CR3 s) (dest + of_nat k) = Some (e k)"
    and "\<And>k. pa k = get_address (e k) + (dest + of_nat k AND 0xFFF)"
    and "inj_on pa {..<n}"
  shows "\<exists>m. vcopy img dest src n s = Some (s\<lparr>umem := m\<rparr>) \<and> (\<forall>k<n. m (pa k) = img (src + of_nat k)) \<and>
    (\<forall>p. p \<notin> pa ` {..<n} \<longrightarrow> m p = umem s p)"
  using assms(1,3)
proof (induction n)
  case 0
  have "vcopy img dest src 0 s = Some (s\<lparr>umem := umem s\<rparr>)" by (simp add: vcopy_def)
  then show ?case by (intro exI [of _ "umem s"]) simp
next
  case (Suc n)
  then obtain m where m: "vcopy img dest src n s = Some (s\<lparr>umem := m\<rparr>)"
    "\<forall>k<n. m (pa k) = img (src + of_nat k)" "\<forall>p. p \<notin> pa ` {..<n} \<longrightarrow> m p = umem s p"
    by (auto simp: inj_on_def)
  let ?m = "m(pa n := img (src + of_nat n))"
  have "vcopy img dest src (Suc n) s = Some (s\<lparr>umem := ?m\<rparr>)"
    using m(1) Suc.prems(1) [of n] assms(2) [of n] by (simp add: vcopy_def for_each_append vstore_def)
  moreover have "\<forall>k<Suc n. ?m (pa k) = img (src + of_nat k)"
    using m(2) inj_onD [OF Suc.prems(2)] by (auto simp: less_Suc_eq)
  moreover have "\<forall>p. p \<notin> pa ` {..<Suc n} \<longrightarrow> ?m p = umem s p" using m(3) by (auto simp: lessThan_Suc)
  ultimately show ?case by blast
qed

lemma vpath_page_eq:
  assumes "unat a div 4096 = unat b div 4096"
  shows "vpath a = vpath b"
proof -
  have "drop_bit 12 a = drop_bit 12 b"
    using assms by (simp add: word_unat_eq_iff drop_bit_eq_div unat_div)
  then have "bit (drop_bit 12 a) (n - 12) = bit (drop_bit 12 b) (n - 12)" for n by simp
  then show ?thesis unfolding vpath_eq_iff bit_drop_bit_eq by (metis comp_apply le_add_diff_inverse)
qed

lemma unat_frame_offset:
  assumes "aligned f"
  shows "unat (f + (a AND 0xFFF)) = unat f + unat a mod 4096"
proof -
  have d: "4096 dvd unat f" using assms by (auto simp: aligned_iff_mod)
  have "unat f + unat a mod 4096 < 2 ^ 64"
  proof -
    obtain q where q: "unat f = 4096 * q" using d by blast
    have "unat f < 2 ^ 64" using unsigned_less [of f] by simp
    then have "q < 2 ^ 52" using q by simp
    moreover have "unat a mod 4096 < 4096" by simp
    ultimately show ?thesis using q by simp
  qed
  then show ?thesis by (simp add: unat_word_ariths unat_and_page_mask)
qed

lemma frame_offset_inj:
  assumes "aligned f" "aligned g" "f + (a AND 0xFFF) = g + (b AND 0xFFF)"
  shows "f = g" "unat a mod 4096 = unat b mod 4096"
proof -
  have "unat f mod 4096 = 0" "unat g mod 4096 = 0" using assms(1,2) by (simp_all add: aligned_iff_mod)
  then obtain q r where q: "unat f = 4096 * q" "unat g = 4096 * r" by (metis dvd_def mod_eq_0_iff_dvd)
  have e: "unat f + unat a mod 4096 = unat g + unat b mod 4096"
    using assms by (simp flip: unat_frame_offset)
  have l: "unat a mod 4096 < 4096" "unat b mod 4096 < 4096" by simp_all
  have "(4096 * q + unat a mod 4096) div 4096 = (4096 * r + unat b mod 4096) div 4096"
    using e q by simp
  then have "q = r" using l by simp
  then show "f = g" "unat a mod 4096 = unat b mod 4096" using e q by (simp_all add: word_unat_eq_iff)
qed


subsection \<open>One segment\<close>

lemma unat_page_start: "unat (x div 0x1000 * 0x1000 :: u64) = unat x div 4096 * 4096"
proof -
  have "unat x div 4096 * 4096 \<le> unat x" by (rule div_times_less_eq_dividend)
  also have "\<dots> < 2 ^ 64" using unsigned_less [of x] by simp
  finally show ?thesis by (simp add: unat_word_ariths unat_div)
qed

definition segment_pages :: "u64 \<Rightarrow> u64 \<Rightarrow> nat" where
  "segment_pages va memsz = (unat va + unat memsz) div 4096 - unat va div 4096 + 1"

lemma segment_pages_itr:
  assumes "unat va + unat memsz < 2 ^ 47"
  shows "unat (((va + memsz) div 0x1000 * 0x1000 + 0x1000 - va div 0x1000 * 0x1000) div 0x1000) = segment_pages va memsz"
proof -
  let ?a = "unat va" and ?e = "unat va + unat memsz"
  have e: "unat (va + memsz) = ?e" using assms by (simp add: unat_word_ariths)
  have le: "?a div 4096 \<le> ?e div 4096" by (simp add: div_le_mono)
  have b: "?e div 4096 * 4096 \<le> ?e" by (rule div_times_less_eq_dividend)
  have x: "unat ((va + memsz) div 0x1000 * 0x1000 + 0x1000) = ?e div 4096 * 4096 + 4096"
    using b assms by (simp add: unat_word_ariths(1) unat_page_start e)
  have "va div 0x1000 * 0x1000 \<le> (va + memsz) div 0x1000 * 0x1000 + 0x1000"
    using le unfolding word_le_nat_alt x unat_page_start by simp
  then have "unat ((va + memsz) div 0x1000 * 0x1000 + 0x1000 - va div 0x1000 * 0x1000) =
      4096 * segment_pages va memsz"
    using le by (simp add: unat_sub x unat_page_start segment_pages_def diff_mult_distrib2)
  then show ?thesis by (simp add: unat_div)
qed

text \<open>The page of the table walk that holds byte \<open>k\<close> of a segment.\<close>

lemma segment_byte_page:
  assumes "unat va + unat memsz < 2 ^ 47" "k < unat memsz"
  defines "j \<equiv> (unat va + k) div 4096 - unat va div 4096"
  shows "j < segment_pages va memsz"
    and "vpath (va + of_nat k) = vpath (page_from (va div 0x1000 * 0x1000) j)"
    and "unat (va + of_nat k) = unat va + k"
proof -
  let ?a = "unat va"
  have k: "unat (of_nat k :: u64) = k" using assms(1,2) by (simp add: unsigned_of_nat take_bit_nat_eq_self)
  show u: "unat (va + of_nat k) = ?a + k" using assms(1,2) by (simp add: unat_word_ariths k)
  have le: "?a div 4096 \<le> (?a + k) div 4096" "(?a + k) div 4096 \<le> (?a + unat memsz) div 4096"
    using assms(2) by (auto intro!: div_le_mono)
  then show "j < segment_pages va memsz" by (simp add: j_def segment_pages_def less_Suc_eq_le diff_le_mono)
  have eq: "?a div 4096 * 4096 + 4096 * j = (?a + k) div 4096 * 4096"
    using le(1) by (simp add: j_def diff_mult_distrib2)
  have "(?a + k) div 4096 * 4096 \<le> ?a + k" by (rule div_times_less_eq_dividend)
  then have "?a div 4096 * 4096 + 4096 * j < 2 ^ 64" using eq assms(1,2) by simp
  then have "unat (page_from (va div 0x1000 * 0x1000) j) = (?a + k) div 4096 * 4096"
    using eq by (simp add: unat_page_from unat_page_start)
  then show "vpath (va + of_nat k) = vpath (page_from (va div 0x1000 * 0x1000) j)"
    by (intro vpath_page_eq) (simp add: u)
qed

lemma segment_inj:
  assumes "unat va + unat memsz < 2 ^ 47"
  shows "inj_on (\<lambda>k. vpath (page_from (va div 0x1000 * 0x1000) k)) {..<segment_pages va memsz}"
proof (rule inj_onI, rule ccontr)
  fix j k
  assume jk: "j \<in> {..<segment_pages va memsz}" "k \<in> {..<segment_pages va memsz}"
    and eq: "vpath (page_from (va div 0x1000 * 0x1000) j) = vpath (page_from (va div 0x1000 * 0x1000) k)"
    and ne: "j \<noteq> k"
  let ?e = "unat va + unat memsz"
  have "unat va div 4096 * 4096 + 4096 * i < 2 ^ 48" if "i < segment_pages va memsz" for i
  proof -
    have "unat va div 4096 \<le> ?e div 4096" by (simp add: div_le_mono)
    then have "unat va div 4096 + i \<le> ?e div 4096" using that by (simp add: segment_pages_def)
    then have "4096 * (unat va div 4096 + i) \<le> 4096 * (?e div 4096)" by simp
    also have "\<dots> \<le> ?e" by (rule times_div_less_eq_dividend)
    finally show ?thesis using assms by (simp add: distrib_left mult.commute)
  qed
  then show False
    using page_from_vpath [of "va div 0x1000 * 0x1000" j k] jk ne eq by (simp add: unat_page_start)
qed


lemma kmalloc_page: "kmalloc s 4096 = page_alloc_addr s"
  by (simp add: kmalloc_def kmalloc_cnt_def split: option.splits bind_splits)

text \<open>The area record is kernel data: neither it nor the task record is part of the tables.\<close>

lemma pt_entry_kernel [simp]: "pt_entry (s\<lparr>vmas := v\<rparr>) = pt_entry s" "pt_entry (s\<lparr>tasks := t\<rparr>) = pt_entry s"
  by (simp_all add: pt_entry_def fun_eq_iff)

lemma vm_wf_kernel [simp]:
  "vm_wf own fl (s\<lparr>vmas := v\<rparr>) = vm_wf own fl s" "vm_wf own fl (s\<lparr>tasks := t\<rparr>) = vm_wf own fl s"
  by (simp_all add: vm_wf_def tables_ok_def free_ok_def flist_def)

lemma walk_kernel [simp]:
  "walk (s\<lparr>vmas := v\<rparr>) t is = walk s t is" "walk (s\<lparr>tasks := u\<rparr>) t is = walk s t is"
  by (induction s t "is" rule: walk.induct) simp_all

lemma translate_kernel [simp]:
  "translate (s\<lparr>vmas := v\<rparr>) r va = translate s r va" "translate (s\<lparr>tasks := t\<rparr>) r va = translate s r va"
  by (simp_all add: translate_def)

lemma addVMA_spec:
  "page_alloc_addr s = Some (v, s0) \<Longrightarrow> \<exists>a. addVMA va ve flags type s = Some (v, s0\<lparr>vmas := (vmas s0)(v := a)\<rparr>) \<and>
     vma_start a = va \<and> vma_end a = ve"
  by (cases "flags = 5")
     (simp add: addVMA_def kmalloc_page Let_def, intro exI conjI, rule refl, simp_all)+

lemma same_but_mem_proc:
  "same_but_mem s s' \<Longrightarrow> CR3 s' = CR3 s \<and> umem s' = umem s \<and> vmas s' = vmas s \<and> tasks s' = tasks s"
  by (cases s; cases s') (simp add: same_but_mem_def)

text \<open>A new area takes one page and changes no translation.\<close>

lemma addVMA_claims:
  assumes "vm_wf own fl s" "fl \<noteq> []"
  obtains v a s1 own1 fl1 where "addVMA va ve flags type s = Some (v, s1)" "vma_start a = va" "vma_end a = ve"
    "s1 = s\<lparr>free_list := free_list s1, vmas := (vmas s)(v := a)\<rparr>" "vm_wf own1 fl1 s1" "own \<subseteq>\<^sub>m own1"
    "own v = None" "length fl = Suc (length fl1)" "\<And>r va. translate s1 r va = translate s r va"
proof -
  obtain x fl1 where fl: "fl = x # fl1" using assms(2) by (cases fl) auto
  let ?v = "page_addr (pages s x)" and ?s0 = "s\<lparr>free_list := nxt (pages s x)\<rparr>"
  have "page_alloc_addr s = Some (?v, ?s0)" using page_alloc_addr_head assms(1) unfolding fl by blast
  then obtain a where a: "addVMA va ve flags type s = Some (?v, ?s0\<lparr>vmas := (vmas ?s0)(?v := a)\<rparr>)"
    "vma_start a = va" "vma_end a = ve"
    using addVMA_spec by blast
  have wf: "vm_wf (own(?v \<mapsto> [0, 0, 0])) fl1 (?s0\<lparr>vmas := (vmas ?s0)(?v := a)\<rparr>)"
    using vm_wf_take_page assms(1) by (simp add: fl)
  have o: "own ?v = None" using assms(1) free_okD [of own "x # fl1" s x] by (auto simp: vm_wf_def fl)
  then have "own \<subseteq>\<^sub>m own(?v \<mapsto> [0, 0, 0])" by (auto simp: map_le_def)
  then show thesis by (intro that [OF a _ wf _ o]) (simp_all add: fl)
qed

text \<open>The part of the state a loader step leaves alone: all but memory, the free list, the areas, user
  memory and the area of the task that is loaded.\<close>

definition same_but_load :: "u64 \<Rightarrow> 'a proc_state_scheme \<Rightarrow> 'a proc_state_scheme \<Rightarrow> bool" where
  "same_but_load task s s' \<longleftrightarrow> same_but_mem (s\<lparr>vmas := vmas s', tasks := tasks s', umem := umem s'\<rparr>) s' \<and>
     (\<exists>v. tasks s' = (tasks s)(task := (tasks s task)\<lparr>vma := v\<rparr>))"

lemma same_but_load_trans:
  assumes "same_but_load task s s'" "same_but_load task s' s''"
  shows "same_but_load task s s''"
proof -
  have "\<exists>v. tasks s'' = (tasks s)(task := (tasks s task)\<lparr>vma := v\<rparr>)"
    using assms by (auto simp: same_but_load_def)
  with assms show ?thesis
    by (cases s; cases s'; cases s'') (auto simp: same_but_load_def same_but_mem_def)
qed

lemma same_but_load_refl [simp]: "same_but_load task s s"
  unfolding same_but_load_def by (simp add: same_but_mem_def, intro exI [of _ "vma (tasks s task)"]) simp

lemma same_but_loadD:
  "same_but_load task s s' \<Longrightarrow> CR3 s' = CR3 s"
  "same_but_load task s s' \<Longrightarrow> pml4 s' = pml4 s"
  "same_but_load task s s' \<Longrightarrow> t \<noteq> task \<Longrightarrow> tasks s' t = tasks s t"
  by (auto simp: same_but_load_def same_but_mem_def)

lemma same_but_loadI:
  assumes "same_but_mem (upd_task task (vma_update (\<lambda>_. v)) (s\<lparr>vmas := vmas s', umem := umem s'\<rparr>)) s'"
  shows "same_but_load task s s'"
proof -
  have "tasks s' = (tasks s)(task := (tasks s task)\<lparr>vma := v\<rparr>)"
    using same_but_mem_proc [OF assms] by (simp add: upd_task_def)
  moreover from this have "same_but_mem (s\<lparr>vmas := vmas s', tasks := tasks s', umem := umem s'\<rparr>) s'"
    using assms by (cases s; cases s') (simp add: same_but_mem_def upd_task_def)
  ultimately show ?thesis unfolding same_but_load_def by blast
qed

text \<open>Allocating the area and mapping its pages.\<close>

lemma load_phdr_maps:
  assumes wf: "vm_wf own fl s" "own (CR3 s) = Some []"
    and ph: "ph = read_phdr img (hdr + e_phoff img hdr + of_nat i * 56)" "p_type ph = 1"
    and small: "unat (p_vaddr ph) + unat (p_memsz ph) < 2 ^ 47"
    and pages: "4 * segment_pages (p_vaddr ph) (p_memsz ph) < length fl"
  obtains v s' f a own' fl' where
    "load_phdr img hdr task i (w, s) =
       map_option (Pair (Some v)) (if p_flags ph = 5 \<or> p_flags ph = 6
         then vcopy img (p_vaddr ph) (hdr + p_offset ph) (unat (p_filesz ph)) s' else Some s')"
    "vmas s' = (vmas s)(v := a)" "vma_start a = p_vaddr ph" "vma_end a = p_vaddr ph + p_memsz ph"
    "same_but_mem (upd_task task (vma_update (\<lambda>_. Some v)) (s\<lparr>vmas := vmas s'\<rparr>)) s'"
    "vm_wf own' fl' s'" "own \<subseteq>\<^sub>m own'" "length fl \<le> 4 * segment_pages (p_vaddr ph) (p_memsz ph) + 1 + length fl'"
    "inj_on f {..<segment_pages (p_vaddr ph) (p_memsz ph)}"
    "\<And>k. k < segment_pages (p_vaddr ph) (p_memsz ph) \<Longrightarrow>
       translate s' (CR3 s) (page_from (p_vaddr ph div 0x1000 * 0x1000) k) = Some (f k OR 7) \<and> aligned (f k) \<and>
       own (f k) = None \<and> own' (f k) = Some [0, 0, 0]"
    "\<And>va. \<forall>k < segment_pages (p_vaddr ph) (p_memsz ph). vpath va \<noteq> vpath (page_from (p_vaddr ph div 0x1000 * 0x1000) k) \<Longrightarrow>
       translate s' (CR3 s) va = translate s (CR3 s) va"
proof -
  let ?n = "segment_pages (p_vaddr ph) (p_memsz ph)" and ?st = "p_vaddr ph div 0x1000 * 0x1000"
  have "fl \<noteq> []" using pages by auto
  then obtain v a s1 own1 fl1 where
    1: "addVMA (p_vaddr ph) (p_vaddr ph + p_memsz ph) (ucast (p_flags ph)) VMA_NOTYPE s = Some (v, s1)"
      "vma_start a = p_vaddr ph" "vma_end a = p_vaddr ph + p_memsz ph"
      "s1 = s\<lparr>free_list := free_list s1, vmas := (vmas s)(v := a)\<rparr>" "vm_wf own1 fl1 s1" "own \<subseteq>\<^sub>m own1"
      "length fl = Suc (length fl1)" "\<And>r va. translate s1 r va = translate s r va"
    by (rule addVMA_claims [OF wf(1)]) blast
  define s2 where "s2 = upd_task task (vma_update (\<lambda>_. Some v)) s1"
  have s2: "CR3 s2 = CR3 s" "vmas s2 = (vmas s)(v := a)" "vm_wf own1 fl1 s2" "\<And>r va. translate s2 r va = translate s r va"
    using 1(5,8) by (simp_all add: s2_def upd_task_def) (subst 1(4), simp)+
  have "same_but_mem (upd_task task (vma_update (\<lambda>_. Some v)) (s\<lparr>vmas := (vmas s)(v := a)\<rparr>)) s2"
    unfolding s2_def by (subst 1(4), cases s) (simp add: same_but_mem_def upd_task_def)
  note same2 = this
  have o1: "own1 (CR3 s2) = Some []" using map_le_Some [OF 1(6) wf(2)] s2(1) by simp
  have "4 * ?n \<le> length fl1" using pages 1(7) by simp
  then obtain s3 own3 fl3 f where
    3: "map_pages ?n ?st s2 = Some s3" "same_but_mem s2 s3" "vm_wf own3 fl3 s3" "own1 \<subseteq>\<^sub>m own3"
      "length fl1 \<le> 4 * ?n + length fl3" "inj_on f {..<?n}"
      "\<And>k. k < ?n \<Longrightarrow> translate s3 (CR3 s2) (page_from ?st k) = Some (f k OR 7) \<and> aligned (f k) \<and>
         own1 (f k) = None \<and> own3 (f k) = Some [0, 0, 0]"
      "\<And>r va. own1 r = Some [] \<Longrightarrow> \<forall>k < ?n. vpath va \<noteq> vpath (page_from ?st k) \<Longrightarrow> translate s3 r va = translate s2 r va"
    using map_pages_spec [OF s2(3) o1 _ segment_inj [OF small]] unfolding maps_range_def by blast
  have s3: "vmas s3 = vmas s2" using same_but_mem_proc [OF 3(2)] by simp
  have itr: "unat (((vma_end a div 0x1000) * 0x1000 + 0x1000 - (vma_start a div 0x1000) * 0x1000) div 0x1000) = ?n"
    using segment_pages_itr [OF small] by (simp add: 1)
  have load: "load_phdr img hdr task i (w, s) =
       map_option (Pair (Some v)) (if p_flags ph = 5 \<or> p_flags ph = 6
         then vcopy img (p_vaddr ph) (hdr + p_offset ph) (unat (p_filesz ph)) s3 else Some s3)"
    using itr 3(1) by (simp add: load_phdr_def ph(1) [symmetric] ph(2) 1(1-3) Let_def s2_def [symmetric] s3 s2(2) map_option_case
        split: option.splits)
  have fresh: "own (f k) = None" if "k < ?n" for k
    using 3(7) [OF that] map_le_Some [OF 1(6), of "f k"] by (cases "own (f k)") auto
  have le: "own \<subseteq>\<^sub>m own3" by (rule map_le_trans [OF 1(6) 3(4)])
  show thesis
  proof (rule that [OF load _ 1(2,3) _ 3(3) le _ 3(6)])
    show "same_but_mem (upd_task task (vma_update (\<lambda>_. Some v)) (s\<lparr>vmas := vmas s3\<rparr>)) s3"
      using same_but_mem_trans [OF same2 3(2)] by (simp add: s3 s2(2))
  qed (use 3(5,7,8) 1(7) o1 fresh s2 s3 in simp_all)
qed

subsection \<open>Copying into mapped pages\<close>

text \<open>A range of user addresses whose bytes lie in frames \<open>g k\<close>, one frame per page.\<close>

lemma vcopy_mapped:
  assumes "unat dest + n \<le> 2 ^ 47"
    and "\<And>k. k < n \<Longrightarrow> translate s (CR3 s) (dest + of_nat k) = Some (g k OR 7) \<and> aligned (g k)"
    and "\<And>k l. k < n \<Longrightarrow> l < n \<Longrightarrow> g k = g l \<Longrightarrow> (unat dest + k) div 4096 = (unat dest + l) div 4096"
  obtains m where "vcopy img dest src n s = Some (s\<lparr>umem := m\<rparr>)"
    "\<And>k. k < n \<Longrightarrow> m (g k + (dest + of_nat k AND 0xFFF)) = img (src + of_nat k)"
    "\<And>p. \<forall>k < n. p \<noteq> g k + (dest + of_nat k AND 0xFFF) \<Longrightarrow> m p = umem s p"
proof -
  define pa where "pa k = get_address (g k OR 7) + (dest + of_nat k AND 0xFFF)" for k
  have pa: "pa k = g k + (dest + of_nat k AND 0xFFF)" if "k < n" for k using assms(2) [OF that] by (simp add: pa_def)
  have u: "unat (dest + of_nat k) = unat dest + k" if "k < n" for k
    using that assms(1) by (simp add: unat_word_ariths unsigned_of_nat take_bit_nat_eq_self)
  have inj: "inj_on pa {..<n}"
  proof (rule inj_onI)
    fix k l assume "k \<in> {..<n}" "l \<in> {..<n}" and eq: "pa k = pa l"
    then have kl: "k < n" "l < n" by simp_all
    have al: "aligned (g k)" "aligned (g l)" using assms(2) kl by simp_all
    have o: "g k = g l" "(unat dest + k) mod 4096 = (unat dest + l) mod 4096"
      using frame_offset_inj [OF al eq [unfolded pa [OF kl(1)] pa [OF kl(2)]]] by (simp_all add: u kl)
    have "unat dest + k = unat dest + l" using assms(3) [OF kl o(1)] o(2) by (metis div_mult_mod_eq)
    then show "k = l" by simp
  qed
  have t: "translate s (CR3 s) (dest + of_nat k) = Some (g k OR 7)" if "k < n" for k using assms(2) that by simp
  obtain m where m: "vcopy img dest src n s = Some (s\<lparr>umem := m\<rparr>)" "\<forall>k<n. m (pa k) = img (src + of_nat k)"
    "\<forall>p. p \<notin> pa ` {..<n} \<longrightarrow> m p = umem s p"
    using vcopy_spec [OF t pa_def inj] by blast
  show thesis
  proof (rule that [OF m(1)])
    fix p assume "\<forall>k < n. p \<noteq> g k + (dest + of_nat k AND 0xFFF)"
    then show "m p = umem s p" using m(3) pa by auto
  qed (use m(2) pa in simp)
qed

text \<open>The bytes of a segment lie in the frames of its pages.\<close>

lemma segment_frames:
  assumes "unat va + unat memsz < 2 ^ 47" "n \<le> unat memsz" "inj_on f {..<segment_pages va memsz}"
    and "\<And>k. k < segment_pages va memsz \<Longrightarrow> translate s r (page_from (va div 0x1000 * 0x1000) k) = Some (f k OR 7) \<and> P (f k)"
  obtains g where "\<And>k. k < n \<Longrightarrow> translate s r (va + of_nat k) = Some (g k OR 7) \<and> P (g k)"
    "\<And>k l. k < n \<Longrightarrow> l < n \<Longrightarrow> g k = g l \<Longrightarrow> (unat va + k) div 4096 = (unat va + l) div 4096"
proof -
  define j where "j k = (unat va + k) div 4096 - unat va div 4096" for k
  have byte: "j k < segment_pages va memsz" "translate s r (va + of_nat k) = Some (f (j k) OR 7) \<and> P (f (j k))"
    if "k < n" for k
  proof -
    note b = segment_byte_page [OF assms(1) order.strict_trans2 [OF that assms(2)], folded j_def]
    show "j k < segment_pages va memsz" by (rule b)
    show "translate s r (va + of_nat k) = Some (f (j k) OR 7) \<and> P (f (j k))"
      using assms(4) [OF b(1)] b(2) by (simp add: translate_def)
  qed
  have "(unat va + k) div 4096 = (unat va + l) div 4096" if "k < n" "l < n" "f (j k) = f (j l)" for k l
  proof -
    have "j k = j l" using that(3) byte(1) that(1,2) assms(3) by (simp add: inj_on_def)
    moreover have "unat va div 4096 \<le> (unat va + i) div 4096" for i by (simp add: div_le_mono)
    ultimately show ?thesis unfolding j_def by (metis eq_diff_iff)
  qed
  with that [of "\<lambda>k. f (j k)"] byte(2) show thesis by blast
qed

text \<open>\<open>holds own s va b\<close>: the byte \<open>b\<close> stands at the user address \<open>va\<close>, in a frame that is in use.\<close>

definition holds :: "(u64 \<Rightarrow> u64 list option) \<Rightarrow> 'a proc_state_scheme \<Rightarrow> u64 \<Rightarrow> u8 \<Rightarrow> bool" where
  "holds own s va b \<longleftrightarrow> (\<exists>e. translate s (CR3 s) va = Some e \<and> own (get_address e) \<noteq> None \<and>
     umem s (get_address e + (va AND 0xFFF)) = b)"

lemma holds_vload: "holds own s va b \<Longrightarrow> vload va s = Some b"
  by (auto simp: holds_def vload_def)

lemma load_phdr_spec:
  assumes "vm_wf own fl s" "own (CR3 s) = Some []"
    and "ph = read_phdr img (hdr + e_phoff img hdr + of_nat i * 56)" "p_type ph = 1"
    and "unat (p_vaddr ph) + unat (p_memsz ph) < 2 ^ 47" "p_filesz ph \<le> p_memsz ph"
    and "4 * segment_pages (p_vaddr ph) (p_memsz ph) < length fl"
  obtains v s' a own' fl' where
    "load_phdr img hdr task i (w, s) = Some (Some v, s')" "vmas s' = (vmas s)(v := a)"
    "vma_start a = p_vaddr ph" "vma_end a = p_vaddr ph + p_memsz ph"
    "same_but_mem (upd_task task (vma_update (\<lambda>_. Some v)) (s\<lparr>vmas := vmas s', umem := umem s'\<rparr>)) s'"
    "vm_wf own' fl' s'" "own \<subseteq>\<^sub>m own'" "length fl \<le> 4 * segment_pages (p_vaddr ph) (p_memsz ph) + 1 + length fl'"
    "\<And>k. p_flags ph = 5 \<or> p_flags ph = 6 \<Longrightarrow> k < unat (p_filesz ph) \<Longrightarrow>
       holds own' s' (p_vaddr ph + of_nat k) (img (hdr + p_offset ph + of_nat k))"
    "\<And>va. \<forall>k < segment_pages (p_vaddr ph) (p_memsz ph). vpath va \<noteq> vpath (page_from (p_vaddr ph div 0x1000 * 0x1000) k) \<Longrightarrow>
       translate s' (CR3 s) va = translate s (CR3 s) va"
    "\<And>f x. aligned f \<Longrightarrow> own f \<noteq> None \<Longrightarrow> umem s' (f + (x AND 0xFFF)) = umem s (f + (x AND 0xFFF))"
proof -
  let ?va = "p_vaddr ph" and ?n = "unat (p_filesz ph)" and ?np = "segment_pages (p_vaddr ph) (p_memsz ph)"
  let ?copies = "p_flags ph = 5 \<or> p_flags ph = 6"
  obtain v s1 f a own' fl' where 1: "load_phdr img hdr task i (w, s) = map_option (Pair (Some v))
         (if ?copies then vcopy img ?va (hdr + p_offset ph) ?n s1 else Some s1)"
    "vmas s1 = (vmas s)(v := a)" "vma_start a = ?va" "vma_end a = ?va + p_memsz ph"
    "same_but_mem (upd_task task (vma_update (\<lambda>_. Some v)) (s\<lparr>vmas := vmas s1\<rparr>)) s1"
    "vm_wf own' fl' s1" "own \<subseteq>\<^sub>m own'" "length fl \<le> 4 * ?np + 1 + length fl'" "inj_on f {..<?np}"
    "\<And>k. k < ?np \<Longrightarrow> translate s1 (CR3 s) (page_from (?va div 0x1000 * 0x1000) k) = Some (f k OR 7) \<and> aligned (f k) \<and>
       own (f k) = None \<and> own' (f k) = Some [0, 0, 0]"
    "\<And>va. \<forall>k < ?np. vpath va \<noteq> vpath (page_from (?va div 0x1000 * 0x1000) k) \<Longrightarrow>
       translate s1 (CR3 s) va = translate s (CR3 s) va"
    by (rule load_phdr_maps [OF assms(1-5,7)]) blast
  have s1: "CR3 s1 = CR3 s" "umem s1 = umem s" using same_but_mem_proc [OF 1(5)] by (simp_all add: upd_task_def)
  have n: "?n \<le> unat (p_memsz ph)" using assms(6) by (simp add: word_le_nat_alt)
  obtain g where byte: "\<And>k. k < ?n \<Longrightarrow> translate s1 (CR3 s1) (?va + of_nat k) = Some (g k OR 7) \<and> aligned (g k) \<and>
       own (g k) = None \<and> own' (g k) = Some [0, 0, 0]"
    and page: "\<And>k l. k < ?n \<Longrightarrow> l < ?n \<Longrightarrow> g k = g l \<Longrightarrow> (unat ?va + k) div 4096 = (unat ?va + l) div 4096"
    by (rule segment_frames [OF assms(5) n 1(9,10) [folded s1(1)]]) (assumption+, rule that)
  have tr: "translate s1 (CR3 s1) (?va + of_nat k) = Some (g k OR 7) \<and> aligned (g k)" if "k < ?n" for k
    using byte [OF that] by simp
  have "unat ?va + ?n \<le> 2 ^ 47" using assms(5) n by simp
  then obtain m where m: "vcopy img ?va (hdr + p_offset ph) ?n s1 = Some (s1\<lparr>umem := m\<rparr>)"
    "\<And>k. k < ?n \<Longrightarrow> m (g k + (?va + of_nat k AND 0xFFF)) = img (hdr + p_offset ph + of_nat k)"
    "\<And>p. \<forall>k < ?n. p \<noteq> g k + (?va + of_nat k AND 0xFFF) \<Longrightarrow> m p = umem s1 p"
    by (rule vcopy_mapped [OF _ tr page, where img = img and src = "hdr + p_offset ph"]) (assumption+, rule that)
  define m' where "m' = (if ?copies then m else umem s)"
  have old: "m' (f + (x AND 0xFFF)) = umem s (f + (x AND 0xFFF))" if f: "aligned f" "own f \<noteq> None" for f x
  proof -
    have "f + (x AND 0xFFF) \<noteq> g k + (?va + of_nat k AND 0xFFF)" if "k < ?n" for k
      using frame_offset_inj(1) [OF f(1), of "g k" x "?va + of_nat k"] byte [OF that] f(2) by auto
    then show ?thesis using m(3) s1(2) by (simp add: m'_def)
  qed
  have new: "holds own' (s1\<lparr>umem := m'\<rparr>) (?va + of_nat k) (img (hdr + p_offset ph + of_nat k))" if "?copies" "k < ?n" for k
    using byte [OF that(2)] m(2) [OF that(2)] that(1) by (auto simp: holds_def m'_def)
  have load: "load_phdr img hdr task i (w, s) = Some (Some v, s1\<lparr>umem := m'\<rparr>)"
    using 1(1) m(1) s1(2) by (simp add: m'_def)
  have wf: "vm_wf own' fl' (s1\<lparr>umem := m'\<rparr>)" using 1(6) by (subst vm_wf_cong [of _ s1]) simp_all
  show thesis
  proof (rule that [OF load _ 1(3,4) _ wf 1(7,8)])
    show "same_but_mem (upd_task task (vma_update (\<lambda>_. Some v)) (s\<lparr>vmas := vmas (s1\<lparr>umem := m'\<rparr>), umem := umem (s1\<lparr>umem := m'\<rparr>)\<rparr>))
        (s1\<lparr>umem := m'\<rparr>)"
      using 1(5) by (cases s; cases s1) (simp add: same_but_mem_def upd_task_def)
  qed (use 1(2,11) new old in simp_all)
qed


text \<open>C15. Loading a program header of a loadable, readable segment succeeds when enough pages are free,
  records the segment as the task's memory area, and leaves every byte of the file readable at its
  virtual address, across page boundaries; addresses outside the segment's pages translate as before.\<close>

theorem elf_segment_loaded:
  assumes "vm_wf own fl s" "own (CR3 s) = Some []"
    and "ph = read_phdr img (hdr + e_phoff img hdr + of_nat i * 56)" "p_type ph = 1"
    and "p_flags ph = 5 \<or> p_flags ph = 6"
    and "unat (p_vaddr ph) + unat (p_memsz ph) < 2 ^ 47" "p_filesz ph \<le> p_memsz ph"
    and "4 * segment_pages (p_vaddr ph) (p_memsz ph) < length fl"
  shows "\<exists>v s'. load_phdr img hdr task i (w, s) = Some (Some v, s') \<and> vma (tasks s' task) = Some v \<and>
    vma_start (vmas s' v) = p_vaddr ph \<and> vma_end (vmas s' v) = p_vaddr ph + p_memsz ph \<and>
    (\<forall>k < unat (p_filesz ph). vload (p_vaddr ph + of_nat k) s' = Some (img (hdr + p_offset ph + of_nat k))) \<and>
    (\<forall>va. (\<forall>j < segment_pages (p_vaddr ph) (p_memsz ph).
        vpath va \<noteq> vpath (page_from (p_vaddr ph div 0x1000 * 0x1000) j)) \<longrightarrow>
      translate s' (CR3 s') va = translate s (CR3 s) va)"
proof -
  obtain v s' a own' where 1: "load_phdr img hdr task i (w, s) = Some (Some v, s')" "vmas s' = (vmas s)(v := a)"
    "vma_start a = p_vaddr ph" "vma_end a = p_vaddr ph + p_memsz ph"
    "same_but_mem (upd_task task (vma_update (\<lambda>_. Some v)) (s\<lparr>vmas := vmas s', umem := umem s'\<rparr>)) s'"
    "\<And>k. k < unat (p_filesz ph) \<Longrightarrow> holds own' s' (p_vaddr ph + of_nat k) (img (hdr + p_offset ph + of_nat k))"
    "\<And>va. \<forall>k < segment_pages (p_vaddr ph) (p_memsz ph). vpath va \<noteq> vpath (page_from (p_vaddr ph div 0x1000 * 0x1000) k) \<Longrightarrow>
       translate s' (CR3 s) va = translate s (CR3 s) va"
    by (rule load_phdr_spec [OF assms(1-4,6-8), of task w]) (use assms(5) in blast)
  have "CR3 s' = CR3 s" "vma (tasks s' task) = Some v" using same_but_mem_proc [OF 1(5)] by (simp_all add: upd_task_def)
  with 1 show ?thesis by (intro exI [of _ v] exI [of _ s']) (simp add: holds_vload [OF 1(6)])
qed

subsection \<open>Witnesses\<close>

text \<open>A three-byte text segment at 0x400FFE, so that the bytes lie in two pages.\<close>

definition demo_elf :: bytes where
  "demo_elf = (\<lambda>_. 0)(0x10020 := 64, 0x10040 := 1, 0x10044 := 5, 0x10049 := 1,
     0x10050 := 0xFE, 0x10051 := 0x0F, 0x10052 := 0x40, 0x10060 := 3, 0x10068 := 8,
     0x10100 := 0xB8, 0x10101 := 0x2A, 0x10102 := 0xC3)"

definition demo_proc :: proc_state where
  "demo_proc = kernel.extend demo_kernel (proc_state.fields (\<lambda>_. 0xCC))"

lemma demo_proc_sel [simp]:
  "CR3 demo_proc = 0x1000" "tasks demo_proc = tasks demo_kernel" "umem demo_proc = (\<lambda>_. 0xCC)"
  "mem demo_proc = mem demo_vm" "pages demo_proc = pages demo_vm" "free_list demo_proc = free_list demo_vm"
  by (simp_all add: demo_proc_def kernel.defs proc_state.defs demo_kernel_def vm.defs)

lemma demo_proc_wf: "vm_wf [0x1000 \<mapsto> []] [2..<16] demo_proc"
  using demo_vm_wf by (simp add: vm_wf_def tables_ok_def free_ok_def flist_def pt_entry_def del: upt_Suc)

lemma demo_elf_phdr:
  "read_phdr demo_elf (0x10000 + e_phoff demo_elf 0x10000 + of_nat 0 * 56) =
     \<lparr>p_type = 1, p_flags = 5, p_offset = 0x100, p_vaddr = 0x400FFE, p_paddr = 0, p_filesz = 3,
      p_memsz = 8, p_align = 0\<rparr>"
  by (simp add: read_phdr_def e_phoff_def rd16_def rd32_def rd64_def demo_elf_def)

theorem elf_segment_loaded_witness:
  "\<exists>v s'. load_phdr demo_elf 0x10000 0x6000 0 (None, demo_proc) = Some (Some v, s') \<and>
     vload 0x400FFE s' = Some 0xB8 \<and> vload 0x400FFF s' = Some 0x2A \<and> vload 0x401000 s' = Some 0xC3"
proof -
  have own: "[0x1000 \<mapsto> []] (CR3 demo_proc) = Some []" by simp
  obtain v s' where s': "load_phdr demo_elf 0x10000 0x6000 0 (None, demo_proc) = Some (Some v, s')"
    and b: "\<forall>k < 3. vload (0x400FFE + of_nat k) s' = Some (demo_elf (0x10100 + of_nat k))"
    using elf_segment_loaded [OF demo_proc_wf own demo_elf_phdr [symmetric], where w = None and task = "0x6000"]
    by (auto simp: segment_pages_def)
  from s' b [rule_format, of 0] b [rule_format, of 1] b [rule_format, of 2] show ?thesis
    by (simp add: demo_elf_def)
qed


end
