(* ===== verification/Process.thy ===== *)
theory Process
  imports Elf
begin

unbundle bit_operations_syntax

text \<open>
  Processes: the first process, fork and exec (\<^verbatim>\<open>sys/task.c\<close>), the entry and exit code of a system
  call (\<^verbatim>\<open>sys/isr.s\<close>) and the kernel's \<open>start\<close> (\<^verbatim>\<open>sys/main.c\<close>).
\<close>

subsection \<open>Processes\<close>

definition create_process ::
    "bytes \<Rightarrow> u64 \<Rightarrow> u64 \<Rightarrow> u64 \<Rightarrow> string \<Rightarrow> 'a proc_state_scheme
      \<Rightarrow> (u64 \<times> 'a proc_state_scheme) option" where
  "create_process img tstart tend file_name name s = do {
     (t, s) \<leftarrow> kmalloc s sizeof_Task;
     let (n, s) = getProcessID s;
     let s = upd_task t (pid_update (\<lambda>_. ucast n)) s;
     (r, s) \<leftarrow> set_user_AddrSpace s;
     let s = upd_task t (task_cr3_update (\<lambda>_. r)) s;
     let curr_CR3 = get_CR3 s;
     let s = set_CR3 s (task_cr3 (tasks s t));
     s \<leftarrow> elf_load img tstart tend t file_name 0 0 s;
     c \<leftarrow> current s;
     let s = upd_task t (ppid_update (\<lambda>_. pid (tasks s c))) s;
     let s = set_CR3 s curr_CR3;
     let s = upd_task t (task_next_update (\<lambda>_. None)) s;
     tn \<leftarrow> strcpy_field 64 name;
     let s = upd_task t (task_name_update (\<lambda>_. tn)) s;
     w \<leftarrow> strcpy_field 128 ''bin/'';
     let s = upd_task t (cwd_update (\<lambda>_. w)) s;
     s \<leftarrow> addProcessToList s t;
     Some (t, s) }"

text \<open>The copy of the memory areas: every area is copied, but a copy keeps the \<open>next\<close> pointer of
  the original. \<open>child_vma\<close> and \<open>first\<close> are the local variables.\<close>

partial_function (option) copy_vmas ::
    "u64 \<Rightarrow> u64 option \<Rightarrow> u64 option \<Rightarrow> bool \<Rightarrow> 'a kernel_scheme \<Rightarrow> 'a kernel_scheme option" where
  "copy_vmas child parent_vma child_vma frst s =
     (case parent_vma of
        None \<Rightarrow> Some s
      | Some pv \<Rightarrow> do {
          let frst = (if child_vma = None then True else frst);
          (cv, s) \<leftarrow> kmalloc s 64;
          let s = s\<lparr>vmas := (vmas s)(cv := vmas s pv)\<rparr>;
          let s = (if frst then upd_task child (vma_update (\<lambda>_. Some cv)) s else s);
          let child_vma = (if vma_next (vmas s cv) \<noteq> None then vma_next (vmas s cv) else Some cv);
          copy_vmas child (vma_next (vmas s pv)) child_vma False s })"

text \<open>The kernel stack of the child: the parent's system call frame, one word higher, with 0 for
  \<open>rax\<close> and the address behind the call in \<open>isr_syscall\<close> to return to.\<close>

definition copy_kstack :: "u64 \<Rightarrow> u64 \<Rightarrow> u64 \<Rightarrow> (u64 \<Rightarrow> u64) \<Rightarrow> (u64 \<Rightarrow> u64)" where
  "copy_kstack isr_syscall child parent m =
     (let c = kstack_addr child; p = kstack_addr parent in
      m(c 511 := m (p 510), c 510 := m (p 509), c 509 := m (p 508), c 508 := m (p 507), c 507 := m (p 506),
        c 506 := m (p 505), c 505 := 0, c 504 := m (p 503), c 503 := m (p 502), c 502 := m (p 501),
        c 501 := m (p 500), c 500 := m (p 499), c 499 := m (p 498), c 498 := m (p 497),
        c 497 := 0x13 + isr_syscall))"

text \<open>The first half of \<open>copyParentToChild\<close> makes the task and copies the address space, the second
  half sets the stack up.\<close>

definition copy_address_space :: "'a kernel_scheme \<Rightarrow> u64 \<Rightarrow> (u64 \<times> 'a kernel_scheme) option" where
  "copy_address_space s parent = do {
     (child, s) \<leftarrow> kmalloc s sizeof_Task;
     let (n, s) = getProcessID s;
     let s = upd_task child (\<lambda>k. k\<lparr>pid := ucast n\<rparr>) s;
     let s = upd_task child (\<lambda>k. k\<lparr>ppid := pid (tasks s parent), task_next := None\<rparr>) s;
     w \<leftarrow> strcpy_field 128 (cwd (tasks s parent));
     let s = upd_task child (cwd_update (\<lambda>_. w)) s;
     (r, s) \<leftarrow> page_alloc_addr s;
     let s = upd_task child (task_cr3_update (\<lambda>_. r)) s;
     s \<leftarrow> copy_page_tables_forchild s r;
     let s = set_CR3 s (task_cr3 (tasks s child));
     s \<leftarrow> copy_vmas child (vma (tasks s parent)) None False s;
     Some (child, s) }"

definition set_child_stack :: "u64 \<Rightarrow> u64 \<Rightarrow> u64 \<Rightarrow> 'a kernel_scheme \<Rightarrow> 'a kernel_scheme" where
  "set_child_stack isr_syscall child parent s =
     (let s = s\<lparr>mem := copy_kstack isr_syscall child parent (mem s)\<rparr>
      in upd_task child (\<lambda>k. k\<lparr>task_rip := 0x13 + isr_syscall, kernel_rsp := kstack_addr child (511 - 20)\<rparr>) s)"

definition copyParentToChild :: "u64 \<Rightarrow> 'a kernel_scheme \<Rightarrow> u64 \<Rightarrow> (u64 \<times> 'a kernel_scheme) option" where
  "copyParentToChild isr_syscall s parent = do {
     (child, s) \<leftarrow> copy_address_space s parent;
     Some (child, set_child_stack isr_syscall child parent s) }"

text \<open>\<open>proc_fork\<close> after the copy, up to the switch to the child.\<close>

definition fork_run :: "u64 \<Rightarrow> 'a kernel_scheme \<Rightarrow> 'a kernel_scheme option" where
  "fork_run child s = do {
     s \<leftarrow> addProcessToList s child;
     p \<leftarrow> currentRunningTask s;
     let s = set_CR3 s (task_cr3 (tasks s p));
     let s = s\<lparr>from_task := currentRunningTask s, to_task := Some child\<rparr>;
     let s = set_tss_rsp (child + off_kernel_rsp) s;
     switchTask s }"

text \<open>The parent goes on, and reads the number of the child, when it is switched back to; \<open>others\<close> is
  what happens in between.\<close>

definition proc_fork ::
    "u64 \<Rightarrow> ('a kernel_scheme \<Rightarrow> 'a kernel_scheme option) \<Rightarrow> 'a kernel_scheme
      \<Rightarrow> (u32 \<times> 'a kernel_scheme) option" where
  "proc_fork isr_syscall others s = do {
     p \<leftarrow> currentRunningTask s;
     (child, s) \<leftarrow> copyParentToChild isr_syscall s p;
     s \<leftarrow> fork_run child s;
     s \<leftarrow> others s;
     Some (ucast (pid (tasks s child)), s) }"

text \<open>The rows of arguments, 64 bytes each, up to an empty one.\<close>

partial_function (option) count_args :: "bytes \<Rightarrow> u64 \<Rightarrow> u64 \<Rightarrow> u64 option" where
  "count_args img row argc =
     (if row \<noteq> 0 \<and> img row \<noteq> 0 then count_args img (row + 64) (argc + 1) else Some argc)"

definition sanexecve ::
    "bytes \<Rightarrow> u64 \<Rightarrow> u64 \<Rightarrow> u64 \<Rightarrow> string \<Rightarrow> u64 \<Rightarrow> 'a proc_state_scheme
      \<Rightarrow> 'a proc_state_scheme option" where
  "sanexecve img tstart tend binary name argv s = do {
     argc \<leftarrow> (if argv \<noteq> 0 then count_args img argv 0 else Some 0);
     r \<leftarrow> currentRunningTask s;
     let s = upd_task r (state_update (\<lambda>_. TASK_ENDED)) s;
     (t, s) \<leftarrow> kmalloc s sizeof_Task;
     let (n, s) = getProcessID s;
     let s = upd_task t (pid_update (\<lambda>_. ucast n)) s;
     let s = upd_task t (ppid_update (\<lambda>_. ppid (tasks s r))) s;
     (u, s) \<leftarrow> set_user_AddrSpace s;
     let s = upd_task t (task_cr3_update (\<lambda>_. u)) s;
     let curr_CR3 = get_CR3 s;
     let s = set_CR3 s (task_cr3 (tasks s t));
     s \<leftarrow> elf_load img tstart tend t binary (ucast argc) argv s;
     let s = upd_task t (task_next_update (\<lambda>_. None)) s;
     tn \<leftarrow> strcpy_field 64 name;
     let s = upd_task t (task_name_update (\<lambda>_. tn)) s;
     w \<leftarrow> strcpy_field 128 (cwd (tasks s r));
     let s = upd_task t (cwd_update (\<lambda>_. w)) s;
     s \<leftarrow> addProcessToList s t;
     let s = set_CR3 s curr_CR3;
     jump_to_user_mode s t }"

subsection \<open>Entry and exit of a system call\<close>

text \<open>The nine registers that the assembler code saves and restores around a call.\<close>

abbreviation push_regs :: "cpu \<Rightarrow> 'a kernel_scheme \<Rightarrow> 'a kernel_scheme" where
  "push_regs c s \<equiv> push (r9 c) (push (r8 c) (push (rsi c) (push (rbp c) (push (rdx c) (push (rcx c)
     (push (rbx c) (push (rax c) (push (rdi c) s))))))))"

abbreviation pop_regs :: "'a kernel_scheme \<Rightarrow> 'a kernel_scheme" where
  "pop_regs s \<equiv> pop (\<lambda>v. rdi_update (\<lambda>_. v)) (pop (\<lambda>v. rax_update (\<lambda>_. v)) (pop (\<lambda>v. rbx_update (\<lambda>_. v))
     (pop (\<lambda>v. rcx_update (\<lambda>_. v)) (pop (\<lambda>v. rdx_update (\<lambda>_. v)) (pop (\<lambda>v. rbp_update (\<lambda>_. v))
       (pop (\<lambda>v. rsi_update (\<lambda>_. v)) (pop (\<lambda>v. r8_update (\<lambda>_. v)) (pop (\<lambda>v. r9_update (\<lambda>_. v)) s))))))))"

text \<open>An interrupt in user mode: the processor switches to the stack of the TSS and pushes its frame.\<close>

abbreviation int_frame :: "u64 \<Rightarrow> u64 \<Rightarrow> u64 \<Rightarrow> 'a kernel_scheme \<Rightarrow> 'a kernel_scheme" where
  "int_frame target kcs kss s \<equiv>
     (let c = cpu_state s;
          s = s\<lparr>cpu_state := c\<lparr>rsp := tss_rsp0 s, cs := kcs, ss := kss, rip := target\<rparr>\<rparr>
      in push (rip c) (push (cs c) (push (rflags c) (push (rsp c) (push (ss c) s)))))"

text \<open>\<open>int 0x80\<close>: \<open>isr_syscall\<close> pushes nine registers and calls the handler.\<close>

definition isr_syscall_entry :: "u64 \<Rightarrow> u64 \<Rightarrow> u64 \<Rightarrow> 'a kernel_scheme \<Rightarrow> 'a kernel_scheme" where
  "isr_syscall_entry isr_syscall kcs kss s =
     push (0x13 + isr_syscall) (push_regs (cpu_state s) (int_frame isr_syscall kcs kss s))"

definition isr_syscall_exit :: "'a kernel_scheme \<Rightarrow> 'a kernel_scheme" where
  "isr_syscall_exit s = iretq (pop_regs s)"

subsection \<open>The kernel's start\<close>

partial_function (option) find_module :: "bytes \<Rightarrow> u64 \<Rightarrow> u64 option" where
  "find_module img modulep =
     (if rd32 img modulep \<noteq> 0x9001 then find_module img (modulep + 4 * ucast (rd32 img (modulep + 4) + 2))
      else Some modulep)"

text \<open>The memory map: records of 20 bytes. Of the variables it sets, only \<open>max_mem\<close> is used.\<close>

partial_function (option) smap_loop :: "bytes \<Rightarrow> u64 \<Rightarrow> u64 \<Rightarrow> u32 \<Rightarrow> u32 option" where
  "smap_loop img smap send max_mem =
     (if smap < send then
        let base = rd64 img smap; len = rd64 img (smap + 8); ty = rd32 img (smap + 16);
            max_mem = (if ty = 1 \<and> len \<noteq> 0 then ucast ((base + len) div 0x1000) else max_mem)
        in smap_loop img (smap + 20) send max_mem
      else Some max_mem)"

definition start ::
    "bytes \<Rightarrow> u64 \<Rightarrow> u64 \<Rightarrow> u64 \<Rightarrow> u64 \<Rightarrow> u64 \<Rightarrow> u64 \<Rightarrow> u64 \<Rightarrow> u64 \<Rightarrow> 'a proc_state_scheme
      \<Rightarrow> 'a proc_state_scheme option" where
  "start img tstart tend sbush otherMain kernmem modulep phys_base phys_free s = do {
     mp \<leftarrow> find_module img modulep;
     max_mem \<leftarrow> smap_loop img (mp + 8) (mp + ucast (rd32 img (mp + 4)) + 8) 0;
     s \<leftarrow> mem_alloc kernmem phys_base max_mem phys_free s;
     s \<leftarrow> create_init_process otherMain s;
     (p, s) \<leftarrow> create_process img tstart tend sbush ''bin/sbush'' s;
     jump_to_user_mode s p }"

subsection \<open>What the child of a fork returns to\<close>

text \<open>The user registers \<open>u\<close> as the entry of a system call leaves them at the top of a kernel stack.\<close>

definition kframe :: "(u64 \<Rightarrow> u64) \<Rightarrow> u64 \<Rightarrow> cpu \<Rightarrow> bool" where
  "kframe m t u \<longleftrightarrow>
     map (\<lambda>i. m (kstack_addr t i)) [497, 498, 499, 500, 501, 502, 503, 504, 505, 506, 507, 508, 509, 510] =
     [r9 u, r8 u, rsi u, rbp u, rdx u, rcx u, rbx u, rax u, rdi u, rip u, cs u, rflags u, rsp u, ss u]"

lemma isr_syscall_entry_kframe:
  assumes "tss_rsp0 s = kstack_addr t 511"
  shows "kframe (mem (isr_syscall_entry isr_syscall kcs kss s)) t (cpu_state s)"
  using assms by (simp add: kframe_def isr_syscall_entry_def Let_def kstack_addr_def)

text \<open>Exit from a system call at the frame of a stack one word above.\<close>

lemma isr_syscall_exit_frame:
  assumes "rsp (cpu_state s) = a"
    and "map (\<lambda>i. mem s (a + 8 * i)) [0, 1, 2, 3, 4, 5, 6, 7, 8, 9, 10, 11, 12, 13] =
      [v9, v8, vsi, vbp, vdx, vcx, vbx, vax, vdi, vip, vcs, vfl, vsp, vss]"
  shows "cpu_state (isr_syscall_exit s) =
    \<lparr>rax = vax, rbx = vbx, rcx = vcx, rdx = vdx, rsi = vsi, rdi = vdi, rbp = vbp, r8 = v8, r9 = v9,
     rsp = vsp, rip = vip, cs = vcs, rflags = vfl, ss = vss\<rparr>"
  using assms by (cases "cpu_state s") (simp add: isr_syscall_exit_def iretq_def pop_def Let_def del: pop_sel, simp add: add.commute)

lemma copy_kstack_frame:
  assumes "kframe m p u" "\<And>i j. i \<le> 511 \<Longrightarrow> j \<le> 511 \<Longrightarrow> kstack_addr c i \<noteq> kstack_addr p j"
  shows "map (\<lambda>i. copy_kstack isr_syscall c p m (kstack_addr c i))
      [497, 498, 499, 500, 501, 502, 503, 504, 505, 506, 507, 508, 509, 510, 511] =
    [0x13 + isr_syscall, r9 u, r8 u, rsi u, rbp u, rdx u, rcx u, rbx u, 0, rdi u, rip u, cs u, rflags u, rsp u, ss u]"
  using assms by (simp add: copy_kstack_def kframe_def kstack_addr_def Let_def)

lemma switchTask_tss: "switchTask s = Some s' \<Longrightarrow> tss_rsp0 s' = tss_rsp0 s"
  by (auto simp: switchTask_def set_CR3_def Let_def split: bind_splits)

text \<open>The switch to the child, from a state whose kernel stack holds the frame of \<open>u\<close>.\<close>

lemma fork_run_resumes:
  assumes "kframe (mem s) p u" "currentRunningTask s = Some p" "tlist s xs" "c \<notin> set xs" "c \<noteq> p"
    "task_next (tasks s c) = None"
    and apart: "\<And>i j. i \<le> 511 \<Longrightarrow> j \<le> 511 \<Longrightarrow> kstack_addr c i \<noteq> kstack_addr p j"
    and "\<And>i. i \<le> 511 \<Longrightarrow> kstack_addr c i \<notin> set (save_slots (rsp (cpu_state s) + 8))"
  shows "\<exists>s'. fork_run c (set_child_stack isr_syscall c p s) = Some s' \<and> tlist s' (xs @ [c]) \<and>
    currentRunningTask s' = Some c \<and> CR3 s' = task_cr3 (tasks s c) \<and>
    rip (cpu_state s') = 0x13 + isr_syscall \<and>
    cpu_state (isr_syscall_exit s') = u\<lparr>rax := 0\<rparr> \<and>
    tss_rsp0 s' - 24 = c + off_task_cr3"
proof -
  define s1 where "s1 = set_child_stack isr_syscall c p s"
  have l1: "tlist s1 xs" by (rule tlist_cong [OF assms(3)]) (simp_all add: s1_def set_child_stack_def)
  have n1: "task_next (tasks s1 c) = None" using assms(6) by (simp add: s1_def set_child_stack_def)
  obtain s2 where s2: "addProcessToList s1 c = Some s2" "tlist s2 (xs @ [c])"
    "s2 = upd_task (last xs) (task_next_update (\<lambda>_. Some c)) s1"
    using addProcessToList_next [OF l1 assms(4) n1] by blast
  define s3 where "s3 = set_tss_rsp (c + off_kernel_rsp)
    ((set_CR3 s2 (task_cr3 (tasks s2 p)))\<lparr>from_task := Some p, to_task := Some c\<rparr>)"
  have r: "currentRunningTask s2 = Some p" using assms(2) by (simp add: s2(3) s1_def set_child_stack_def)
  have sel: "from_task s3 = Some p" "to_task s3 = Some c" "mem s3 = copy_kstack isr_syscall c p (mem s)"
    "cpu_state s3 = cpu_state s" "current s3 = current s2" "tasks s3 = tasks s2" "tss_rsp0 s3 = c + off_kernel_rsp"
    by (simp_all add: s3_def s2(3) s1_def set_child_stack_def set_tss_rsp_def set_CR3_def)
  obtain s' where s': "switchTask s3 = Some s'" "current s' = current s3" "currentRunningTask s' = Some c"
    "CR3 s' = task_cr3 (tasks s3 c)"
    "tasks s' = (tasks s3)(c := (tasks s3 c)\<lparr>state := TASK_RUNNING\<rparr>,
      p := (tasks s3 p)\<lparr>state := (if state (tasks s3 p) = TASK_ENDED then TASK_ENDED else TASK_WAITING),
                       kernel_rsp := rsp (cpu_state s3) - 40\<rparr>)"
    using switchTask_tasks [OF sel(2,1)] assms(5) by auto
  have run: "fork_run c s1 = Some s'"
    using s2(1) r s'(1) by (simp add: fork_run_def s3_def set_CR3_def)
  have l': "tlist s' (xs @ [c])"
    by (rule tlist_cong [OF s2(2)]) (simp_all add: s'(2,5) sel)
  note m = switchTask_mem [OF s'(1) sel(1,2)] assms(5)
  have keep: "mem s' (kstack_addr c i) = copy_kstack isr_syscall c p (mem s) (kstack_addr c i)" if "i \<le> 511" for i
    using m(2) [of "kstack_addr c i"] assms(5,8) that sel(3,4) by simp
  define q where "q = kstack_addr c 497"
  have k: "kernel_rsp (tasks s3 c) = q - 48"
    using assms(4,5) by (auto simp: sel(6) s2(3) s1_def set_child_stack_def kstack_addr_def q_def)
  obtain v1 v2 v3 v4 v5 v6 where v: "map (mem s') (save_slots q) = [v1, v2, v3, v4, v5, v6]"
    by (simp add: save_slots_def)
  note fr = copy_kstack_frame [OF assms(1) apart, of isr_syscall]
  have v7: "mem s' q = 0x13 + isr_syscall" using keep [of 497] fr by (simp add: q_def)
  have cpu: "cpu_state s' = (cpu_state s3)\<lparr>rdi := v1, rsi := v2, rdx := v3, rcx := v4, rbx := v5, rax := v6,
      rip := 0x13 + isr_syscall, rsp := q + 8\<rparr>"
    using m(3) [of q v1 v2 v3 v4 v5 v6 "0x13 + isr_syscall"] v v7 k assms(5) by simp
  have "map (\<lambda>i. mem s' (q + 8 + 8 * i)) [0, 1, 2, 3, 4, 5, 6, 7, 8, 9, 10, 11, 12, 13] =
    map (\<lambda>i. mem s' (kstack_addr c i)) [498, 499, 500, 501, 502, 503, 504, 505, 506, 507, 508, 509, 510, 511]"
    by (simp add: q_def kstack_addr_def)
  also have "\<dots> = [r9 u, r8 u, rsi u, rbp u, rdx u, rcx u, rbx u, 0, rdi u, rip u, cs u, rflags u, rsp u, ss u]"
    using fr keep by simp
  finally have "cpu_state (isr_syscall_exit s') = u\<lparr>rax := 0\<rparr>"
    using isr_syscall_exit_frame [of s' "q + 8"] cpu by simp
  moreover have "task_cr3 (tasks s3 c) = task_cr3 (tasks s c)"
    using assms(5) by (auto simp: sel(6) s2(3) s1_def set_child_stack_def)
  moreover have "tss_rsp0 s' = c + off_kernel_rsp" using switchTask_tss [OF s'(1)] sel(7) by simp
  ultimately show ?thesis using run l' s'(3,4) cpu by (auto simp: s1_def [symmetric])
qed

text \<open>C3. Fork: a process enters the kernel from user mode through \<open>isr_syscall\<close> (state \<open>s0\<close>), and its
  system call frame is still on its kernel stack when the new task \<open>c\<close> has been made (state \<open>s\<close>). Then
  the rest of the call switches to the child: it is at the end of the task list, runs in its own
  address space, and when it leaves the kernel through the exit code of \<open>isr_syscall\<close> it continues
  with exactly the user registers of the parent, except that \<open>rax\<close>, the result of the call, is 0.
  The stack for the child's next entry is left at the address of its field \<open>kernel_rsp\<close>, so that the
  third word pushed there overwrites its field \<open>task_cr3\<close>.\<close>

theorem fork_child_resumes:
  assumes "tss_rsp0 s0 = kstack_addr p 511"
    and "\<forall>i \<in> {497..510}. mem s (kstack_addr p i) = mem (isr_syscall_entry isr_syscall kcs kss s0) (kstack_addr p i)"
    and "currentRunningTask s = Some p" "tlist s xs" "c \<notin> set xs" "c \<noteq> p" "task_next (tasks s c) = None"
    and "\<And>i j. i \<le> 511 \<Longrightarrow> j \<le> 511 \<Longrightarrow> kstack_addr c i \<noteq> kstack_addr p j"
    and "\<And>i. i \<le> 511 \<Longrightarrow> kstack_addr c i \<notin> set (save_slots (rsp (cpu_state s) + 8))"
  shows "\<exists>s'. fork_run c (set_child_stack isr_syscall c p s) = Some s' \<and> tlist s' (xs @ [c]) \<and>
    currentRunningTask s' = Some c \<and> CR3 s' = task_cr3 (tasks s c) \<and>
    rip (cpu_state s') = 0x13 + isr_syscall \<and>
    cpu_state (isr_syscall_exit s') = (cpu_state s0)\<lparr>rax := 0\<rparr> \<and>
    tss_rsp0 s' - 24 = c + off_task_cr3"
proof (rule fork_run_resumes [OF _ assms(3-9)])
  show "kframe (mem s) p (cpu_state s0)"
    using isr_syscall_entry_kframe [OF assms(1), of isr_syscall kcs kss] assms(2) by (simp add: kframe_def)
qed

subsection \<open>Witnesses\<close>

lemma unat_kstack_addr:
  assumes "unat t + 4456 < 2 ^ 64" "i \<le> 511"
  shows "unat (kstack_addr t i) = unat t + 312 + 8 * unat i"
proof -
  have "unat i \<le> 511" using assms(2) by (simp add: word_le_nat_alt)
  then show ?thesis using assms(1) by (simp add: kstack_addr_def unat_word_ariths)
qed

text \<open>The running task 0x6000 of the example enters a system call; the child is a task at 0xA0000.\<close>

definition demo_entry :: kernel where
  "demo_entry = isr_syscall_entry 0xFFFFFFFF80200100 8 16 (demo_kernel\<lparr>tss_rsp0 := kstack_addr 0x6000 511\<rparr>)"

theorem fork_child_resumes_witness:
  "\<exists>s'. fork_run 0xA0000 (set_child_stack 0xFFFFFFFF80200100 0xA0000 0x6000 demo_entry) = Some s' \<and>
     cpu_state (isr_syscall_exit s') = (cpu_state demo_kernel)\<lparr>rax := 0\<rparr>"
proof -
  let ?s0 = "demo_kernel\<lparr>tss_rsp0 := kstack_addr 0x6000 511\<rparr>"
  have u: "unat (kstack_addr 0xA0000 i) = 0xA0138 + 8 * unat i" "unat (kstack_addr 0x6000 i) = 0x6138 + 8 * unat i"
    if "i \<le> 511" for i using that by (simp_all add: unat_kstack_addr)
  have apart: "kstack_addr 0xA0000 i \<noteq> kstack_addr 0x6000 j" if "i \<le> 511" "j \<le> 511" for i j
    using that u(1) [OF that(1)] u(2) [OF that(2)] by (auto simp: word_le_nat_alt)
  have l: "tlist demo_entry [0x5000, 0x6000, 0x7000, 0x8000]"
    by (rule tlist_cong [OF demo_tlist]) (simp_all add: demo_entry_def isr_syscall_entry_def Let_def)
  have low: "unat x < 0x8000" if "x \<in> set (save_slots (rsp (cpu_state demo_entry) + 8))" for x
    using that by (auto simp: demo_entry_def isr_syscall_entry_def save_slots_def kstack_addr_def Let_def)
  have slots: "kstack_addr 0xA0000 i \<notin> set (save_slots (rsp (cpu_state demo_entry) + 8))" if "i \<le> 511" for i
    using u(1) [OF that] low [of "kstack_addr 0xA0000 i"] by auto
  have sel: "currentRunningTask demo_entry = Some 0x6000" "tasks demo_entry 0xA0000 = demo_task None TASK_WAITING 0"
    by (simp_all add: demo_entry_def isr_syscall_entry_def Let_def demo_kernel_def vm.defs kernel.defs)
  show ?thesis
    using fork_child_resumes [of ?s0 "0x6000" demo_entry "0xFFFFFFFF80200100" 8 16, OF _ _ _ l _ _ _ apart slots]
    by (auto simp: demo_entry_def [symmetric] sel)
qed

end
