(* ===== verification/Kprintf.thy ===== *)
theory Kprintf
  imports CString "HOL-Library.Signed_Division"
begin

unbundle bit_operations_syntax

text \<open>
  The text console of \<^verbatim>\<open>sys/kprintf.c\<close>. Video memory is part of the byte memory \<open>cmem\<close>, so a
  cursor that leaves the screen overwrites whatever is there. Strings and format strings are read
  from the same memory. Missing variadic arguments are a fault.
\<close>

abbreviation startpos :: u64 where "startpos \<equiv> 0xffffffff800b8000"
abbreviation colour :: u8 where "colour \<equiv> 2"

record console =
  cmem :: bytes
  video :: u64
  line_count :: u64
  line_width :: u32

definition putc :: "u8 \<Rightarrow> 'a console_scheme \<Rightarrow> 'a console_scheme" where
  "putc c s = s\<lparr>cmem := (cmem s)(video s := c, video s + 1 := colour), video := video s + 2\<rparr>"

text \<open>A local character buffer, up to its terminator.\<close>

primrec put_chars :: "u8 list \<Rightarrow> 'a console_scheme \<Rightarrow> 'a console_scheme" where
  "put_chars [] s = s"
| "put_chars (p # ps) s = (if p \<noteq> 0 then put_chars ps (putc p s) else s)"

subsection \<open>String helpers\<close>

definition kstrlen :: "bytes \<Rightarrow> u64 \<Rightarrow> u32 option" where
  "kstrlen m str = strlen_loop m str 0"

definition kstrcpy :: "bytes \<Rightarrow> u64 \<Rightarrow> u64 \<Rightarrow> (u64 \<times> bytes) option" where
  "kstrcpy = strcpy"

definition kstr_to_int :: "bytes \<Rightarrow> u64 \<Rightarrow> u32 option" where
  "kstr_to_int = str_to_int"

definition kstrcmp :: "bytes \<Rightarrow> u64 \<Rightarrow> u64 \<Rightarrow> u32 option" where
  "kstrcmp = strcmp"

subsection \<open>Numbers\<close>

text \<open>The loops that fill \<open>hexadec\<close> from index 1 on; the list is the part of the buffer that has been
  filled. It is then copied to \<open>var\<close> in reverse.\<close>

function hex_loop :: "u64 \<Rightarrow> u8 list \<Rightarrow> u8 list" where
  "hex_loop quot hexadec =
     (let temp = quot mod 16;
          temp = (if temp < 10 then temp + 48 else temp + 55);
          hexadec = hexadec @ [ucast temp];
          quot = quot div 16
      in if quot \<noteq> 0 then hex_loop quot hexadec else hexadec)"
  by auto

function dec_loop :: "u64 \<Rightarrow> u8 list \<Rightarrow> u8 list" where
  "dec_loop quot hexadec =
     (let hexadec = hexadec @ [ucast (quot mod 10 + 48)];
          quot = quot div 10
      in if quot \<noteq> 0 then dec_loop quot hexadec else hexadec)"
  by auto

lemma word_div_less: "1 < b \<Longrightarrow> q div b \<noteq> 0 \<Longrightarrow> unat (q div b) < unat (q :: u64)"
  by (cases "q = 0") (simp_all add: unat_div word_less_nat_alt unat_gt_0)

termination hex_loop by (relation "measure (\<lambda>(q, _). unat q)") (auto intro: word_div_less)

termination dec_loop by (relation "measure (\<lambda>(q, _). unat q)") (auto intro: word_div_less)

declare hex_loop.simps [simp del] dec_loop.simps [simp del]

definition klen :: "u8 list \<Rightarrow> u32" where
  "klen xs = of_nat (length (takeWhile (\<lambda>c. c \<noteq> 0) xs))"

definition print_char :: "u64 \<Rightarrow> 'a console_scheme \<Rightarrow> 'a console_scheme" where
  "print_char decimal s =
     (let var = rev (hex_loop decimal []) in put_chars var (s\<lparr>line_width := line_width s + klen var\<rparr>))"

definition print_str :: "u64 \<Rightarrow> 'a console_scheme \<Rightarrow> 'a console_scheme" where
  "print_str tarf s =
     (let var = rev (dec_loop tarf []) in put_chars var (s\<lparr>line_width := line_width s + klen var\<rparr>))"

text \<open>The clock in the corner has its own cursor. The number is a signed \<open>int\<close>, divided towards 0.\<close>

definition put_at :: "u64 \<Rightarrow> u8 list \<Rightarrow> 'a console_scheme \<Rightarrow> 'a console_scheme" where
  "put_at adr xs s = (put_chars xs (s\<lparr>video := adr\<rparr>))\<lparr>video := video s\<rparr>"

definition print_tim_txt :: "'a console_scheme \<Rightarrow> 'a console_scheme" where
  "print_tim_txt s = put_at 0xffffffff800B8EDC [84, 105, 109, 101, 114] s"

function tim_loop :: "int \<Rightarrow> u8 list \<Rightarrow> u8 list" where
  "tim_loop quot hexadec =
     (if quot \<noteq> 0 then tim_loop (quot sdiv 10) (hexadec @ [word_of_int (quot smod 10 + 48)])
      else hexadec)"
  by auto

termination tim_loop
  by (relation "measure (\<lambda>(q, _). nat \<bar>q\<bar>)") 
     (auto simp: signed_divide_int_def abs_mult abs_sgn_eq intro!: int_div_less_self)

declare tim_loop.simps [simp del]

definition print_tim :: "u32 \<Rightarrow> 'a console_scheme \<Rightarrow> 'a console_scheme" where
  "print_tim sec s = put_at 0xffffffff800B8EE8 (rev (tim_loop (sint sec) [])) s"

subsection \<open>Strings\<close>

partial_function (option) prints_loop :: "'a console_scheme \<Rightarrow> u64 \<Rightarrow> 'a console_scheme option" where
  "prints_loop s str =
     (let f = cmem s str in if f \<noteq> 0 then prints_loop (putc f s) (str + 1) else Some s)"

definition prints :: "u64 \<Rightarrow> 'a console_scheme \<Rightarrow> 'a console_scheme option" where
  "prints str s = do {
     s \<leftarrow> prints_loop s str;
     n \<leftarrow> kstrlen (cmem s) str;
     Some (s\<lparr>line_width := line_width s + n\<rparr>) }"

definition printbackspace :: "'a console_scheme \<Rightarrow> 'a console_scheme" where
  "printbackspace s =
     (let s = s\<lparr>video := video s - 2\<rparr>; s = putc 32 s in s\<lparr>video := video s - 2\<rparr>)"

subsection \<open>Formatted output\<close>

definition newline :: "'a console_scheme \<Rightarrow> 'a console_scheme" where
  "newline s = s\<lparr>video := line_count s * 0xA0 + startpos, line_count := line_count s + 1\<rparr>"

text \<open>The conversions after a \<open>%\<close>.\<close>

definition conv1 ::
    "u8 \<Rightarrow> u64 list \<Rightarrow> 'a console_scheme \<Rightarrow> (u64 list \<times> 'a console_scheme) option" where
  "conv1 c args s =
     (if c \<in> {112, 100, 99, 115, 120} then
        (case args of
           [] \<Rightarrow> None
         | a # args \<Rightarrow>
             if c = 112 \<or> c = 120 then Some (args, print_char a s)
             else if c = 100 then Some (args, print_str a s)
             else if c = 99 then Some (args, putc (ucast a) s)
             else do { s \<leftarrow> prints a s; Some (args, s) })
      else Some (args, s))"

partial_function (option) kprintf1 ::
    "u64 \<Rightarrow> nat \<Rightarrow> u64 list \<Rightarrow> 'a console_scheme \<Rightarrow> (nat \<times> 'a console_scheme) option" where
  "kprintf1 fmt i args s =
     (let c = cmem s (fmt + of_nat i) in
      if c = 10 then kprintf1 fmt (i + 1) args (newline s)
      else if c = 8 then kprintf1 fmt (i + 1) args (printbackspace s)
      else if c = 37 then do {
        (args, s) \<leftarrow> conv1 (cmem s (fmt + of_nat (i + 1))) args s;
        kprintf1 fmt (i + 2) args s }
      else if c = 0 then Some (i + 1, s)
      else kprintf1 fmt (i + 1) args (putc c s))"

text \<open>\<open>screenclear\<close> calls \<^verbatim>\<open>kprintf(" ")\<close>, which goes through the loop of \<open>kprintf\<close> twice
  (\<open>kprintf_space\<close> below shows that this is what \<open>kprintf\<close> does on that string).\<close>

definition wide_line :: "'a console_scheme \<Rightarrow> 'a console_scheme" where
  "wide_line s = (if sint (line_width s) > 80 then s\<lparr>line_count := line_count s + 1\<rparr> else s)"

definition put_space :: "'a console_scheme \<Rightarrow> 'a console_scheme" where
  "put_space s = (let s = putc 32 (wide_line s) in wide_line (s\<lparr>line_width := line_width s + 1\<rparr>))"

definition screenclear :: "'a console_scheme \<Rightarrow> 'a console_scheme" where
  "screenclear s =
     (let s = s\<lparr>video := startpos\<rparr>;
          s = ((\<lambda>s. let s = put_space s in s\<lparr>line_width := line_width s - 1\<rparr>) ^^ 1840) s
      in s\<lparr>video := startpos\<rparr>)"

definition kprintf_newline :: "'a console_scheme \<Rightarrow> 'a console_scheme" where
  "kprintf_newline s =
     (let s = (newline s)\<lparr>line_width := 1\<rparr>
      in if sint (line_count s) > 23 then (screenclear s)\<lparr>line_count := 1\<rparr> else s)"

partial_function (option) kprintf_loop ::
    "u64 \<Rightarrow> nat \<Rightarrow> u64 list \<Rightarrow> 'a console_scheme \<Rightarrow> 'a console_scheme option" where
  "kprintf_loop fmt i args s =
     (let s = wide_line s; c = cmem s (fmt + of_nat i) in
      if c = 10 then kprintf_loop fmt (i + 1) args (kprintf_newline s)
      else if c = 8 then
        kprintf_loop fmt (i + 1) args ((printbackspace s)\<lparr>line_width := line_width s - 1\<rparr>)
      else if c = 37 then do {
        let c = cmem s (fmt + of_nat (i + 1));
        (args, s) \<leftarrow> conv1 c args s;
        let s = (if c = 99 then s\<lparr>line_width := line_width s + 1\<rparr> else s);
        kprintf_loop fmt (i + 2) args s }
      else if c = 0 then Some s
      else kprintf_loop fmt (i + 1) args (putc c (s\<lparr>line_width := line_width s + 1\<rparr>)))"

definition kprintf :: "u64 \<Rightarrow> u64 list \<Rightarrow> 'a console_scheme \<Rightarrow> 'a console_scheme option" where
  "kprintf fmt args s = kprintf_loop fmt 0 args s"

subsection \<open>Calls of \<open>kprintf\<close> with literal formats\<close>

text \<open>What \<open>kprintf\<close> does for a piece of its format without conversions, and for a \<open>%s\<close>.\<close>

primrec kp_lit :: "u8 list \<Rightarrow> 'a console_scheme \<Rightarrow> 'a console_scheme" where
  "kp_lit [] s = wide_line s"
| "kp_lit (c # rest) s =
     (let s = wide_line s in
      kp_lit rest (if c = 10 then kprintf_newline s
                 else if c = 8 then (printbackspace s)\<lparr>line_width := line_width s - 1\<rparr>
                 else putc c (s\<lparr>line_width := line_width s + 1\<rparr>)))"

definition kp_s :: "u8 list \<Rightarrow> 'a console_scheme \<Rightarrow> 'a console_scheme" where
  "kp_s xs s = (let s = put_chars xs (wide_line s) in s\<lparr>line_width := line_width s + klen xs\<rparr>)"

lemma kprintf_space:
  assumes "cmem s fmt = 32" "cmem s (fmt + 1) = 0" "fmt + 1 \<noteq> video s" "fmt + 1 \<noteq> video s + 1"
  shows "kprintf fmt args s = Some (put_space s)"
  using assms by (simp add: kprintf_def kprintf_loop.simps put_space_def wide_line_def putc_def Let_def)

subsection \<open>Digits\<close>

text \<open>The reference: the digits of a number, most significant first, without leading zeros.\<close>

definition digit_val :: "u8 \<Rightarrow> nat" where
  "digit_val c = (if c < 58 then unat c - 48 else unat c - 55)"

definition digit_char :: "nat \<Rightarrow> u8 \<Rightarrow> bool" where
  "digit_char b c \<longleftrightarrow> (48 \<le> c \<and> c < 58 \<or> 65 \<le> c \<and> c < 71) \<and> digit_val c < b"

definition numeral_of :: "nat \<Rightarrow> u8 list \<Rightarrow> nat \<Rightarrow> bool" where
  "numeral_of b ds n \<longleftrightarrow> ds \<noteq> [] \<and> (\<forall>d \<in> set ds. digit_char b d) \<and>
     foldl (\<lambda>v d. b * v + digit_val d) 0 ds = n \<and> (hd ds = 48 \<longrightarrow> ds = [48])"

lemma nat_below_16: "n < 16 \<Longrightarrow> n \<in> {0, 1, 2, 3, 4, 5, 6, 7, 8, 9, 10, 11, 12, 13, 14, 15 :: nat}"
  by (simp, presburger)

lemma word_below_16:
  assumes "t < (16 :: u64)"
  shows "t \<in> {0, 1, 2, 3, 4, 5, 6, 7, 8, 9, 10, 11, 12, 13, 14, 15}"
  using nat_below_16 [of "unat t"] assms by (simp add: word_less_nat_alt word_unat_eq_iff)

lemma hex_digit:
  assumes "t < (16 :: u64)"
  defines "d \<equiv> (ucast (if t < 10 then t + 48 else t + 55) :: u8)"
  shows "digit_char 16 d" "digit_val d = unat t" "d = 48 \<longleftrightarrow> t = 0"
proof -
  have "t \<in> {0, 1, 2, 3, 4, 5, 6, 7, 8, 9, 10, 11, 12, 13, 14, 15}"
    by (rule word_below_16 [OF assms(1)])
  then show "digit_char 16 d" "digit_val d = unat t" "d = 48 \<longleftrightarrow> t = 0"
    by (auto simp: d_def digit_char_def digit_val_def)
qed

lemma dec_digit:
  assumes "t < (10 :: u64)"
  shows "digit_char 10 (ucast (t + 48))" "digit_val (ucast (t + 48)) = unat t" "ucast (t + 48) = (48 :: u8) \<longleftrightarrow> t = 0"
proof -
  have "t < 16" using assms by (simp add: word_less_nat_alt)
  then have "t \<in> {0, 1, 2, 3, 4, 5, 6, 7, 8, 9, 10, 11, 12, 13, 14, 15}" by (rule word_below_16)
  with assms show "digit_char 10 (ucast (t + 48))" "digit_val (ucast (t + 48)) = unat t" "ucast (t + 48) = (48 :: u8) \<longleftrightarrow> t = 0"
    by (auto simp: digit_char_def digit_val_def)
qed

text \<open>Both loops are instances of one recursion over the base and the digit characters.\<close>

locale digit_loop =
  fixes b :: u64 and dig :: "u64 \<Rightarrow> u8" and loop :: "u64 \<Rightarrow> u8 list \<Rightarrow> u8 list"
  assumes base: "1 < b"
    and digit: "t < b \<Longrightarrow> digit_char (unat b) (dig t)" "t < b \<Longrightarrow> digit_val (dig t) = unat t" "t < b \<Longrightarrow> dig t = 48 \<longleftrightarrow> t = 0"
    and step: "loop q ds = (if q div b \<noteq> 0 then loop (q div b) (ds @ [dig (q mod b)]) else ds @ [dig (q mod b)])"
begin

lemma mod_less: "q mod b < b"
  using base by (simp add: word_less_nat_alt unat_mod)

lemma loop_digits: "\<exists>ds'. loop q ds = ds @ ds' \<and> numeral_of (unat b) (rev ds') (unat q) \<and> unat b ^ (length ds' - 1) \<le> max 1 (unat q)"
proof (induction "unat q" arbitrary: q ds rule: less_induct)
  case less
  let ?d = "dig (q mod b)"
  note d = digit [OF mod_less, of q]
  show ?case
  proof (cases "q div b = 0")
    case True
    then have "q mod b = q" using div_mult_mod_eq [of q b] by simp
    with d have "numeral_of (unat b) (rev [?d]) (unat q)" by (auto simp: numeral_of_def)
    then show ?thesis using step [of q ds] True by (intro exI [of _ "[?d]"]) simp
  next
    case False
    have lt: "unat (q div b) < unat q" by (rule word_div_less [OF base False])
    obtain ds' where ds': "loop (q div b) (ds @ [?d]) = (ds @ [?d]) @ ds'"
      "numeral_of (unat b) (rev ds') (unat (q div b))" "unat b ^ (length ds' - 1) \<le> max 1 (unat (q div b))"
      using less.hyps [OF lt] by blast
    have ne: "ds' \<noteq> []" using ds'(2) by (auto simp: numeral_of_def)
    have pos: "1 \<le> unat (q div b)" using False by (simp add: unat_gt_0 Suc_le_eq)
    have h: "hd (rev ds') \<noteq> 48"
      using ds'(2) pos by (auto simp: numeral_of_def digit_val_def)
    have v: "unat q = unat b * unat (q div b) + unat (q mod b)" by (simp add: unat_div unat_mod)
    have "numeral_of (unat b) (rev (?d # ds')) (unat q)"
      using ds'(2) d h ne v by (simp add: numeral_of_def)
    moreover have "unat b ^ (length (?d # ds') - 1) \<le> max 1 (unat q)"
    proof -
      obtain n where n: "length ds' = Suc n" using ne by (cases ds') auto
      have "unat b * unat b ^ n \<le> unat b * unat (q div b)" using ds'(3) pos n by (simp add: max_def)
      also have "\<dots> \<le> unat q" using v by simp
      finally show ?thesis using n by simp
    qed
    ultimately show ?thesis using step [of q ds] False ds'(1) by (intro exI [of _ "?d # ds'"]) simp
  qed
qed

lemma loop_numeral: "numeral_of (unat b) (rev (loop q [])) (unat q)"
  and loop_bound: "unat b ^ (length (loop q []) - 1) \<le> max 1 (unat q)"
  using loop_digits [of q "[]"] by auto

end

interpretation hex: digit_loop 16 "\<lambda>t. ucast (if t < 10 then t + 48 else t + 55)" hex_loop
proof unfold_locales
  show "hex_loop q ds = (if q div 16 \<noteq> 0 then hex_loop (q div 16) (ds @ [ucast (if q mod 16 < 10 then q mod 16 + 48 else q mod 16 + 55)])
      else ds @ [ucast (if q mod 16 < 10 then q mod 16 + 48 else q mod 16 + 55)])" for q ds
    by (subst hex_loop.simps) (simp only: Let_def)
qed (simp_all only: hex_digit, simp_all add: hex_digit)

interpretation dec: digit_loop 10 "\<lambda>t. ucast (t + 48)" dec_loop
proof unfold_locales
  show "dec_loop q ds = (if q div 10 \<noteq> 0 then dec_loop (q div 10) (ds @ [ucast (q mod 10 + 48)])
      else ds @ [ucast (q mod 10 + 48)])" for q ds
    by (subst dec_loop.simps) (simp only: Let_def)
qed (simp_all add: dec_digit)

subsection \<open>What printing a number leaves on the screen\<close>

lemma putc_sel [simp]:
  "video (putc c s) = video s + 2" "line_count (putc c s) = line_count s" "line_width (putc c s) = line_width s"
  "cmem (putc c s) a = (if a = video s + 1 then colour else if a = video s then c else cmem s a)"
  by (simp_all add: putc_def)

lemma putc_line_width [simp]: "(putc c s)\<lparr>line_width := w\<rparr> = putc c (s\<lparr>line_width := w\<rparr>)"
  by (simp add: putc_def)

lemma put_chars_fold: "0 \<notin> set ds \<Longrightarrow> put_chars ds s = fold putc ds s"
  by (induction ds arbitrary: s) auto

text \<open>The cells of a text written at \<open>v\<close>.\<close>

definition text_at :: "u64 \<Rightarrow> u8 list \<Rightarrow> bytes \<Rightarrow> bytes" where
  "text_at v ds m a =
     (let k = unat (a - v)
      in if k < 2 * length ds then if even k then ds ! (k div 2) else colour else m a)"

lemma unat_diff_eq:
  fixes a v :: u64
  assumes "k < 2 ^ 64"
  shows "unat (a - v) = k \<longleftrightarrow> a = v + of_nat k"
proof
  assume "unat (a - v) = k"
  then have "a - v = of_nat k" by auto
  then show "a = v + of_nat k" by (simp add: diff_eq_eq add.commute)
next
  assume "a = v + of_nat k"
  then show "unat (a - v) = k" using assms by (simp add: unsigned_of_nat take_bit_nat_eq_self)
qed

lemma text_at_snoc:
  assumes "2 * length ds + 1 < 2 ^ 64"
  shows "text_at v (ds @ [d]) m a =
    (if a = v + of_nat (2 * length ds) + 1 then colour else if a = v + of_nat (2 * length ds) then d else text_at v ds m a)"
proof -
  let ?k = "unat (a - v)" and ?n = "length ds"
  have e: "a = v + of_nat (2 * ?n) + 1 \<longleftrightarrow> ?k = 2 * ?n + 1" "a = v + of_nat (2 * ?n) \<longleftrightarrow> ?k = 2 * ?n"
    using assms unat_diff_eq [of "2 * ?n + 1" a v] unat_diff_eq [of "2 * ?n" a v] by (auto simp: ac_simps)
  consider "?k < 2 * ?n" | "?k = 2 * ?n" | "?k = 2 * ?n + 1" | "2 * ?n + 1 < ?k" by linarith
  then show ?thesis unfolding e by cases (auto simp: text_at_def Let_def nth_append)
qed

lemma fold_putc:
  assumes "2 * length ds < 2 ^ 64"
  shows "cmem (fold putc ds s) = text_at (video s) ds (cmem s) \<and> video (fold putc ds s) = video s + of_nat (2 * length ds) \<and>
    line_width (fold putc ds s) = line_width s \<and> line_count (fold putc ds s) = line_count s"
  using assms
proof (induction ds rule: rev_induct)
  case Nil
  then show ?case by (simp add: text_at_def fun_eq_iff)
next
  case (snoc d ds)
  then show ?case using text_at_snoc [of ds "video s" d "cmem s"] by (simp add: fun_eq_iff)
qed

lemma numeral_nonzero: "numeral_of b ds n \<Longrightarrow> 0 \<notin> set ds"
  by (auto simp: numeral_of_def digit_char_def)

lemma klen_nonzero: "0 \<notin> set ds \<Longrightarrow> klen ds = of_nat (length ds)"
  by (metis (mono_tags, lifting) klen_def takeWhile_eq_all_conv)

lemma digits_bound:
  assumes "b ^ (n - 1) \<le> max 1 (unat (q :: u64))" "2 ^ 64 \<le> b ^ k" "1 < b"
  shows "n \<le> k"
proof (rule ccontr)
  assume "\<not> n \<le> k"
  then have "b ^ k \<le> b ^ (n - 1)" using assms(3) by (simp add: power_increasing)
  moreover have "unat q < 2 ^ 64" using unsigned_less [of q] by simp
  ultimately show False using assms(1,2) by (auto simp: max_def split: if_splits)
qed

text \<open>C29. Printing a number: \<open>print_str\<close> writes the decimal and \<open>print_char\<close> the hexadecimal numeral of its
  argument at the cursor, most significant digit first and without leading zeros, advances the
  cursor and the line width by the number of digits, and changes no other memory. There are at
  most 20, respectively 16, digits, so the local buffers of 1024 bytes are never overrun.\<close>

theorem print_number_correct:
  "\<exists>ds xs. numeral_of 10 ds (unat n) \<and> length ds \<le> 20 \<and> numeral_of 16 xs (unat n) \<and> length xs \<le> 16 \<and>
    cmem (print_str n s) = text_at (video s) ds (cmem s) \<and>
    video (print_str n s) = video s + of_nat (2 * length ds) \<and>
    line_width (print_str n s) = line_width s + of_nat (length ds) \<and>
    cmem (print_char n s) = text_at (video s) xs (cmem s) \<and>
    video (print_char n s) = video s + of_nat (2 * length xs) \<and>
    line_width (print_char n s) = line_width s + of_nat (length xs)"
proof -
  let ?ds = "rev (dec_loop n [])" and ?xs = "rev (hex_loop n [])"
  have num: "numeral_of 10 ?ds (unat n)" "numeral_of 16 ?xs (unat n)"
    using dec.loop_numeral [of n] hex.loop_numeral [of n] by simp_all
  have len: "length ?ds \<le> 20" "length ?xs \<le> 16"
    using digits_bound [OF dec.loop_bound [of n], of 20] digits_bound [OF hex.loop_bound [of n], of 16] by simp_all
  note nz = numeral_nonzero [OF num(1)] numeral_nonzero [OF num(2)]
  have pr: "print_str n s = fold putc ?ds (s\<lparr>line_width := line_width s + of_nat (length ?ds)\<rparr>)"
    "print_char n s = fold putc ?xs (s\<lparr>line_width := line_width s + of_nat (length ?xs)\<rparr>)"
    by (simp_all only: print_str_def print_char_def Let_def put_chars_fold [OF nz(1)] klen_nonzero [OF nz(1)]
        put_chars_fold [OF nz(2)] klen_nonzero [OF nz(2)])
  have f: "2 * length ?ds < 2 ^ 64" "2 * length ?xs < 2 ^ 64" using len by simp_all
  show ?thesis
    by (intro exI conjI, rule num(1), rule len(1), rule num(2), rule len(2))
       (simp_all only: pr fold_putc [OF f(1)] fold_putc [OF f(2)], simp_all)
qed


subsection \<open>The console as a terminal\<close>

text \<open>The abstract terminal: a cursor and 25 lines of 80 characters. A line feed goes to the next line, or
  clears the first 23 lines and goes to the top when 23 lines have been used.\<close>

record terminal =
  trow :: nat
  tcol :: nat
  cells :: "nat \<Rightarrow> nat \<Rightarrow> u8"

definition term_putc :: "u8 \<Rightarrow> terminal \<Rightarrow> terminal" where
  "term_putc c t =
     (if c = 10 then
        if trow t < 22 then t\<lparr>trow := trow t + 1, tcol := 0\<rparr>
        else \<lparr>trow = 0, tcol = 0, cells = (\<lambda>r. if r < 23 then (\<lambda>_. 32) else cells t r)\<rparr>
      else t\<lparr>tcol := tcol t + 1, cells := (cells t)(trow t := (cells t (trow t))(tcol t := c))\<rparr>)"

text \<open>The glyph of any character, and the erasing of the last one.\<close>

definition term_glyph :: "u8 \<Rightarrow> terminal \<Rightarrow> terminal" where
  "term_glyph c t = t\<lparr>tcol := tcol t + 1, cells := (cells t)(trow t := (cells t (trow t))(tcol t := c))\<rparr>"

definition term_back :: "terminal \<Rightarrow> terminal" where
  "term_back t = t\<lparr>tcol := tcol t - 1, cells := (cells t)(trow t := (cells t (trow t))(tcol t - 1 := 32))\<rparr>"

text \<open>No line gets longer than 79 characters.\<close>

fun fits :: "nat \<Rightarrow> u8 list \<Rightarrow> bool" where
  "fits col [] \<longleftrightarrow> col < 80"
| "fits col (c # cs) \<longleftrightarrow> col < 80 \<and> fits (if c = 10 then 0 else col + 1) cs"

definition cell :: "nat \<Rightarrow> nat \<Rightarrow> u64" where
  "cell r c = startpos + of_nat (160 * r + 2 * c)"

definition on_screen :: "u64 \<Rightarrow> bool" where
  "on_screen a \<longleftrightarrow> unat (a - startpos) < 4000"

definition term_rel :: "'a console_scheme \<Rightarrow> terminal \<Rightarrow> bool" where
  "term_rel s t \<longleftrightarrow> trow t < 23 \<and> tcol t < 80 \<and> line_count s = of_nat (trow t + 1) \<and>
     line_width s = of_nat (tcol t + 1) \<and> video s = cell (trow t) (tcol t) \<and>
     (\<forall>r < 25. \<forall>c < 80. cmem s (cell r c) = cells t r c)"

lemma cell_offset:
  assumes "r < 25" "c < 80"
  shows "unat (cell r c - startpos) = 160 * r + 2 * c" "unat (cell r c + 1 - startpos) = 160 * r + 2 * c + 1"
  using assms unat_diff_eq [of "160 * r + 2 * c" "cell r c" startpos]
    unat_diff_eq [of "160 * r + 2 * c + 1" "cell r c + 1" startpos] by (simp_all add: cell_def)

lemma cell_inj:
  assumes "r < 25" "c < 80" "r' < 25" "c' < 80"
  shows "cell r c = cell r' c' \<longleftrightarrow> r = r' \<and> c = c'" "cell r c \<noteq> cell r' c' + 1"
proof -
  note u = cell_offset [OF assms(1,2)] cell_offset [OF assms(3,4)]
  show "cell r c = cell r' c' \<longleftrightarrow> r = r' \<and> c = c'"
  proof
    assume "cell r c = cell r' c'"
    then have e: "160 * r + 2 * c = 160 * r' + 2 * c'" using u(1,3) by simp
    then have "(160 * r + 2 * c) div 160 = (160 * r' + 2 * c') div 160" by (rule arg_cong)
    then have "r = r'" using assms(2,4) by simp
    with e show "r = r' \<and> c = c'" by simp
  qed simp
  show "cell r c \<noteq> cell r' c' + 1"
  proof
    assume "cell r c = cell r' c' + 1"
    then have "160 * r + 2 * c = 160 * r' + 2 * c' + 1" using u(1,4) by simp
    then have "even (160 * r + 2 * c) = even (160 * r' + 2 * c' + 1)" by (rule arg_cong)
    then show False by simp
  qed
qed

lemma cell_on_screen:
  assumes "r < 25" "c < 80"
  shows "on_screen (cell r c)" "on_screen (cell r c + 1)"
  using cell_offset [OF assms] assms by (simp_all add: on_screen_def)

lemma putc_off_screen:
  "r < 25 \<Longrightarrow> c < 80 \<Longrightarrow> video s = cell r c \<Longrightarrow> \<not> on_screen a \<Longrightarrow> cmem (putc ch s) a = cmem s a"
  using cell_on_screen [of r c] by auto

lemma cell_Suc: "cell r (Suc c) = cell r c + 2"
  by (simp add: cell_def)

lemma term_rel_cmem:
  assumes "term_rel s t" "\<And>a. on_screen a \<Longrightarrow> m a = cmem s a"
  shows "term_rel (s\<lparr>cmem := m\<rparr>) t"
  using assms cell_on_screen(1) by (simp add: term_rel_def)

text \<open>A character that is no line feed, or a line feed inside a string.\<close>

lemma term_rel_glyph:
  assumes "term_rel s t" "tcol t < 79"
  shows "term_rel (putc ch (s\<lparr>line_width := line_width s + 1\<rparr>)) (term_glyph ch t)"
  using assms cell_inj [of _ _ "trow t" "tcol t"]
  by (auto simp: term_rel_def term_glyph_def cell_Suc ac_simps)

lemma term_rel_char:
  assumes "term_rel s t" "ch \<noteq> 10" "tcol t < 79"
  shows "term_rel (putc ch (s\<lparr>line_width := line_width s + 1\<rparr>)) (term_putc ch t)"
  using term_rel_glyph [OF assms(1,3), of ch] assms(2) by (simp add: term_putc_def term_glyph_def)

text \<open>A backspace behind at least one character.\<close>

lemma term_rel_back:
  assumes "term_rel s t" "0 < tcol t"
  shows "term_rel ((printbackspace s)\<lparr>line_width := line_width s - 1\<rparr>) (term_back t)"
    and "\<not> on_screen a \<Longrightarrow> cmem (printbackspace s) a = cmem s a"
proof -
  obtain c where c: "tcol t = Suc c" using assms(2) by (cases "tcol t") auto
  have v: "video s - 2 = cell (trow t) c" and t: "trow t < 25" "c < 80" using assms(1) by (auto simp: term_rel_def c cell_Suc)
  then show "term_rel ((printbackspace s)\<lparr>line_width := line_width s - 1\<rparr>) (term_back t)"
    using assms cell_inj [of _ _ "trow t" c]
    by (auto simp: term_rel_def term_back_def printbackspace_def Let_def c)
  show "cmem (printbackspace s) a = cmem s a" if "\<not> on_screen a"
    using putc_off_screen [OF t, of "s\<lparr>video := video s - 2\<rparr>" a 32] that v by (simp add: printbackspace_def Let_def)
qed

lemma wide_line_id: "sint (line_width s) \<le> 80 \<Longrightarrow> wide_line s = s"
  by (simp add: wide_line_def)

lemma line_width_small:
  assumes "term_rel s t"
  shows "sint (line_width s) \<le> 80"
proof -
  have w: "line_width s = of_nat (tcol t + 1)" "tcol t + 1 \<le> 80" using assms by (auto simp: term_rel_def)
  then have "unat (line_width s) = tcol t + 1" by (simp only: unsigned_of_nat) (simp add: take_bit_nat_eq_self)
  then show ?thesis using w(2) sint_small [of "line_width s"] by simp
qed


text \<open>A string conversion shows the glyphs of the string, line feeds included.\<close>

lemma fold_putc_line_width: "(fold putc xs s)\<lparr>line_width := w\<rparr> = fold putc xs (s\<lparr>line_width := w\<rparr>)"
  by (induction xs arbitrary: s) simp_all

lemma fold_putc_width:
  "fold (\<lambda>c s. putc c (s\<lparr>line_width := line_width s + 1\<rparr>)) xs s =
   (fold putc xs s)\<lparr>line_width := line_width s + of_nat (length xs)\<rparr>"
  by (induction xs arbitrary: s) (simp_all add: fold_putc_line_width ac_simps)

lemma term_rel_glyphs:
  assumes "term_rel s t" "tcol t + length xs < 80"
  shows "term_rel (fold (\<lambda>c s. putc c (s\<lparr>line_width := line_width s + 1\<rparr>)) xs s) (fold term_glyph xs t) \<and>
    (\<forall>a. \<not> on_screen a \<longrightarrow> cmem (fold (\<lambda>c s. putc c (s\<lparr>line_width := line_width s + 1\<rparr>)) xs s) a = cmem s a)"
  using assms
proof (induction xs arbitrary: s t)
  case (Cons x xs)
  let ?s = "putc x (s\<lparr>line_width := line_width s + 1\<rparr>)"
  have r: "term_rel ?s (term_glyph x t)" using Cons.prems by (intro term_rel_glyph) auto
  have "cmem ?s a = cmem s a" if "\<not> on_screen a" for a
    using putc_off_screen [of "trow t" "tcol t" "s\<lparr>line_width := line_width s + 1\<rparr>" a x] that Cons.prems(1) by (auto simp: term_rel_def)
  then show ?case using Cons.IH [OF r] Cons.prems(2) by (auto simp: term_glyph_def)
qed simp

lemma term_rel_s:
  assumes "term_rel s t" "tcol t + length xs < 80" "0 \<notin> set xs"
  shows "term_rel (kp_s xs s) (fold term_glyph xs t)" "\<not> on_screen a \<Longrightarrow> cmem (kp_s xs s) a = cmem s a"
proof -
  have "line_width (fold putc xs s) = line_width s" by (induction xs arbitrary: s) simp_all
  then have "kp_s xs s = fold (\<lambda>c s. putc c (s\<lparr>line_width := line_width s + 1\<rparr>)) xs s"
    using assms by (simp add: kp_s_def wide_line_id [OF line_width_small] put_chars_fold klen_nonzero fold_putc_width Let_def)
  then show "term_rel (kp_s xs s) (fold term_glyph xs t)" "\<not> on_screen a \<Longrightarrow> cmem (kp_s xs s) a = cmem s a"
    using term_rel_glyphs [OF assms(1,2)] by simp_all
qed

text \<open>Clearing the screen.\<close>

lemma clear_steps:
  assumes "line_width s = 1"
  shows "((\<lambda>s. let s = put_space s in s\<lparr>line_width := line_width s - 1\<rparr>) ^^ n) s = fold putc (replicate n 32) s"
proof (induction n)
  case (Suc n)
  have w: "line_width (fold putc (replicate n 32) s) = 1" using assms by (induction n arbitrary: s) simp_all
  have id: "wide_line t = t" "wide_line (putc 32 (t\<lparr>line_width := 2\<rparr>)) = putc 32 (t\<lparr>line_width := 2\<rparr>)"
    "t\<lparr>line_width := 1\<rparr> = t"
    if "line_width t = 1" for t :: "'a console_scheme" using that by (simp_all add: wide_line_def)
  have "fold putc (replicate (Suc n) 32) s = putc 32 (fold putc (replicate n 32) s)"
    by (simp add: replicate_append_same [symmetric] del: replicate.simps)
  then show ?case using Suc.IH w by (simp add: put_space_def Let_def id)
qed simp

lemma screenclear_spec:
  assumes "line_width s = 1"
  shows "cmem (screenclear s) = text_at startpos (replicate 1840 32) (cmem s) \<and> video (screenclear s) = startpos \<and>
    line_width (screenclear s) = 1 \<and> line_count (screenclear s) = line_count s"
  using fold_putc [of "replicate 1840 32" "s\<lparr>video := startpos\<rparr>"] assms
  by (simp add: screenclear_def Let_def clear_steps [unfolded Let_def])

lemma sint_small_nat: "n < 100 \<Longrightarrow> sint (of_nat n :: u64) = int n"
  by (simp add: signed_of_nat signed_take_bit_int_eq_self)

lemma cleared_cell:
  assumes "r < 25" "c < 80"
  shows "text_at startpos (replicate 1840 32) m (cell r c) = (if r < 23 then 32 else m (cell r c))"
proof -
  have "160 * r + 2 * c < 3680 \<longleftrightarrow> r < 23" "r < 23 \<Longrightarrow> 80 * r + c < 1840" using assms by linarith+
  then show ?thesis using cell_offset(1) [OF assms] by (simp add: text_at_def Let_def)
qed

lemma cleared_off_screen: "\<not> on_screen a \<Longrightarrow> text_at startpos (replicate 1840 32) m a = m a"
  by (simp add: text_at_def on_screen_def Let_def)

lemma term_rel_newline:
  assumes "term_rel s t"
  shows "term_rel (kprintf_newline s) (term_putc 10 t)" "\<not> on_screen a \<Longrightarrow> cmem (kprintf_newline s) a = cmem s a"
proof -
  let ?n = "(newline s)\<lparr>line_width := 1\<rparr>"
  have s: "trow t < 23" "line_count s = of_nat (trow t + 1)" "cmem s (cell r c) = cells t r c" if "r < 25" "c < 80" for r c
    using assms that by (auto simp: term_rel_def)
  have t: "trow t < 23" using assms by (simp add: term_rel_def)
  have lc: "line_count ?n = of_nat (trow t + 2)" "cmem ?n = cmem s" "line_width ?n = 1"
    "video ?n = cell (trow t + 1) 0"
    using assms by (simp_all add: newline_def term_rel_def cell_def algebra_simps)
  have si: "sint (line_count ?n) = int (trow t + 2)" unfolding lc(1) using t by (intro sint_small_nat) simp
  have "term_rel (kprintf_newline s) (term_putc 10 t) \<and> (\<not> on_screen a \<longrightarrow> cmem (kprintf_newline s) a = cmem s a)"
  proof (cases "trow t < 22")
    case True
    then have "kprintf_newline s = ?n" using si by (simp add: kprintf_newline_def Let_def)
    then show ?thesis using True lc assms by (simp add: term_rel_def term_putc_def)
  next
    case False
    then have "kprintf_newline s = (screenclear ?n)\<lparr>line_count := 1\<rparr>"
      using si t by (simp add: kprintf_newline_def Let_def)
    moreover note screenclear_spec [OF lc(3)]
    ultimately show ?thesis using False t assms cleared_cell cleared_off_screen
      by (simp add: term_rel_def term_putc_def lc(2) cell_def [of 0 0])
  qed
  then show "term_rel (kprintf_newline s) (term_putc 10 t)" "\<not> on_screen a \<Longrightarrow> cmem (kprintf_newline s) a = cmem s a"
    by blast+
qed

lemma term_rel_back_newline:
  assumes "term_rel s t" "0 < tcol t"
  shows "term_rel (kp_lit [8, 10] s) (term_putc 10 (term_back t))" "\<not> on_screen a \<Longrightarrow> cmem (kp_lit [8, 10] s) a = cmem s a"
proof -
  let ?b = "(printbackspace s)\<lparr>line_width := line_width s - 1\<rparr>"
  note b = term_rel_back [OF assms] and n = term_rel_newline [OF term_rel_back(1) [OF assms]]
  have "kp_lit [8, 10] s = kprintf_newline ?b"
    using line_width_small [OF assms(1)] line_width_small [OF b(1)] line_width_small [OF n(1)]
    by (simp add: wide_line_id Let_def)
  then show "term_rel (kp_lit [8, 10] s) (term_putc 10 (term_back t))" "\<not> on_screen a \<Longrightarrow> cmem (kp_lit [8, 10] s) a = cmem s a"
    using n b(2) by simp_all
qed

lemma kprintf_loop_refines:
  assumes "term_rel s t" "fits (tcol t) cs" "\<forall>c \<in> set cs. c \<notin> {0, 8, 37}"
    and "\<forall>j < length cs. cmem s (fmt + of_nat (i + j)) = cs ! j" "cmem s (fmt + of_nat (i + length cs)) = 0"
    and "\<forall>j \<le> length cs. \<not> on_screen (fmt + of_nat (i + j))"
  shows "\<exists>s'. kprintf_loop fmt i args s = Some s' \<and> term_rel s' (fold term_putc cs t) \<and>
    (\<forall>a. \<not> on_screen a \<longrightarrow> cmem s' a = cmem s a)"
  using assms
proof (induction cs arbitrary: s t i)
  case Nil
  then show ?case by (simp add: kprintf_loop.simps wide_line_id [OF line_width_small] Let_def)
next
  case (Cons c cs)
  have w: "wide_line s = s" by (rule wide_line_id [OF line_width_small [OF Cons.prems(1)]])
  have c: "cmem s (fmt + of_nat i) = c" "c \<noteq> 0" "c \<noteq> 8" "c \<noteq> 37" using Cons.prems(3,4) by auto
  define s1 where "s1 = (if c = 10 then kprintf_newline s else putc c (s\<lparr>line_width := line_width s + 1\<rparr>))"
  have loop: "kprintf_loop fmt i args s = kprintf_loop fmt (i + 1) args s1"
    using w c by (subst kprintf_loop.simps) (simp add: s1_def Let_def)
  have r: "term_rel s1 (term_putc c t)"
  proof (cases "c = 10")
    case False
    then have "tcol t < 79" using Cons.prems(2) by (cases cs) auto
    then show ?thesis using term_rel_char [OF Cons.prems(1) False] False by (simp add: s1_def)
  qed (simp add: s1_def term_rel_newline(1) [OF Cons.prems(1)])
  have m: "cmem s1 a = cmem s a" if "\<not> on_screen a" for a
    using term_rel_newline(2) [OF Cons.prems(1) that] Cons.prems(1) that
      putc_off_screen [of "trow t" "tcol t" "s\<lparr>line_width := line_width s + 1\<rparr>" a c]
    by (auto simp: s1_def term_rel_def)
  have off: "\<not> on_screen (fmt + of_nat (i + j))" if "j \<le> Suc (length cs)" for j
    using Cons.prems(6) that by simp
  have "\<exists>s'. kprintf_loop fmt (i + 1) args s1 = Some s' \<and> term_rel s' (fold term_putc cs (term_putc c t)) \<and>
    (\<forall>a. \<not> on_screen a \<longrightarrow> cmem s' a = cmem s1 a)"
  proof (rule Cons.IH [OF r])
    show "fits (tcol (term_putc c t)) cs" using Cons.prems(2) by (simp add: term_putc_def split: if_splits)
    have "cmem s (fmt + of_nat (i + Suc j)) = cs ! j" if "j < length cs" for j
      using Cons.prems(4) [rule_format, of "Suc j"] that by simp
    then show "\<forall>j<length cs. cmem s1 (fmt + of_nat (i + 1 + j)) = cs ! j"
      using m [OF off, of "Suc _"] by auto
    show "cmem s1 (fmt + of_nat (i + 1 + length cs)) = 0"
      using Cons.prems(5) m [OF off, of "Suc (length cs)"] by simp
    show "\<forall>j\<le>length cs. \<not> on_screen (fmt + of_nat (i + 1 + j))" using off [of "Suc _"] by simp
  qed (use Cons.prems in simp)
  then show ?case using loop m by auto
qed


lemma kprintf_text:
  assumes "term_rel s t" "cstr (cmem s) fmt cs" "fits (tcol t) cs" "8 \<notin> set cs" "37 \<notin> set cs"
    and "\<forall>j \<le> length cs. \<not> on_screen (fmt + of_nat j)"
  shows "\<exists>s'. kprintf fmt args s = Some s' \<and> term_rel s' (fold term_putc cs t) \<and>
    (\<forall>a. \<not> on_screen a \<longrightarrow> cmem s' a = cmem s a)"
proof -
  have "\<forall>c \<in> set cs. c \<notin> {0, 8, 37}" using assms(2,4,5) by (auto simp: cstr_def)
  moreover have "cmem s (fmt + of_nat j) = cs ! j" if "j < length cs" for j
    using arr_nthD [of "cmem s" fmt "cs @ [0]" j] assms(2) that by (simp add: cstr_def nth_append)
  moreover have "cmem s (fmt + of_nat (length cs)) = 0"
    using arr_nthD [of "cmem s" fmt "cs @ [0]" "length cs"] assms(2) by (simp add: cstr_def)
  ultimately show ?thesis using kprintf_loop_refines [OF assms(1,3), of fmt 0 args] assms(6)
    by (simp add: kprintf_def)
qed

text \<open>C9. The console is a terminal: printing a text with \<open>kprintf\<close> ends, has the effect of sending its
  characters one by one to the abstract terminal (line feeds and the clearing of a full screen
  included), and changes no memory outside the 4000 bytes of the screen, provided that lines stay
  below 80 characters.\<close>

theorem kprintf_refines_terminal:
  assumes "term_rel s t" "cstr (cmem s) fmt cs" "fits (tcol t) cs" "8 \<notin> set cs" "37 \<notin> set cs"
    and "\<forall>j \<le> length cs. \<not> on_screen (fmt + of_nat j)"
  shows "\<exists>s'. kprintf fmt args s = Some s' \<and> term_rel s' (fold term_putc cs t) \<and>
    (\<forall>a. \<not> on_screen a \<longrightarrow> cmem s' a = cmem s a)"
  by (rule kprintf_text [OF assms])

subsection \<open>Witnesses\<close>

definition demo_console :: console where
  "demo_console = \<lparr>cmem = (\<lambda>_. 0)(0x5000 := 72, 0x5001 := 105, 0x5002 := 10, 0x5003 := 33), video = startpos,
     line_count = 1, line_width = 1\<rparr>"

definition demo_terminal :: terminal where
  "demo_terminal = \<lparr>trow = 0, tcol = 0, cells = (\<lambda>_ _. 0)\<rparr>"

lemma demo_console_rel: "term_rel demo_console demo_terminal"
proof -
  have "cmem demo_console (cell r c) = 0" if "r < 25" "c < 80" for r c
  proof -
    have "\<not> on_screen 0x5000" "\<not> on_screen 0x5001" "\<not> on_screen 0x5002" "\<not> on_screen 0x5003"
      by (simp_all add: on_screen_def)
    with cell_on_screen(1) [OF that] show ?thesis by (auto simp: demo_console_def)
  qed
  then show ?thesis by (simp add: term_rel_def demo_terminal_def) (simp add: demo_console_def cell_def)
qed

theorem kprintf_refines_terminal_witness:
  "\<exists>s'. kprintf 0x5000 [] demo_console = Some s' \<and> cmem s' startpos = 72 \<and> cmem s' (startpos + 160) = 33"
proof -
  let ?cs = "[72, 105, 10, 33] :: u8 list"
  have c: "cstr (cmem demo_console) 0x5000 ?cs"
    by (simp add: cstr_def demo_console_def)
  have o: "\<forall>j \<le> length ?cs. \<not> on_screen (0x5000 + of_nat j)"
    by (simp add: le_Suc_eq on_screen_def)
  obtain s' where s': "kprintf 0x5000 [] demo_console = Some s'" "term_rel s' (fold term_putc ?cs demo_terminal)"
    using kprintf_refines_terminal [OF demo_console_rel c _ _ _ o] by (auto simp: demo_terminal_def)
  have "cmem s' (cell 0 0) = 72 \<and> cmem s' (cell 1 0) = 33"
    using s'(2) by (simp add: term_rel_def term_putc_def demo_terminal_def)
  with s'(1) show ?thesis by (intro exI [of _ s']) (simp add: cell_def)
qed


end
