(* ===== verification/Keyboard.thy ===== *)
theory Keyboard
  imports Kprintf
begin

unbundle bit_operations_syntax

text \<open>
  The keyboard and timer interrupt handlers (\<^verbatim>\<open>sys/keyboard.c\<close>, \<^verbatim>\<open>sys/timer.c\<close>) and the line input
  \<open>scanf\<close>. A scan code arrives as the byte read from port 0x60; bytes written to ports are recorded
  in \<open>ports\<close>. \<open>tempbuff\<close> is the list of its 1024 bytes, and an index outside it is a fault.
\<close>

record kbd = console +
  flag :: u32
  tempbuff :: "u8 list"
  scanlen :: u32
  shift_key :: u32
  lastkey :: u8
  timer_ticks :: u32
  sec :: u64
  ports :: "(u16 \<times> u8) list"

definition outb :: "u16 \<Rightarrow> u16 \<Rightarrow> 'a kbd_scheme \<Rightarrow> 'a kbd_scheme" where
  "outb port val s = s\<lparr>ports := ports s @ [(port, ucast val)]\<rparr>"

definition kbsmall :: "u8 list" where
  "kbsmall =
    [0, 27, 49, 50, 51, 52, 53, 54, 55, 56, 57, 48, 45, 61, 8, 9, 113, 119, 101, 114, 116, 121,
     117, 105, 111, 112, 91, 93, 10, 0, 97, 115, 100, 102, 103, 104, 106, 107, 108, 59, 39, 96,
     0, 92, 122, 120, 99, 118, 98, 110, 109, 44, 46, 47, 0, 42, 0, 32, 0, 0, 0, 0, 0, 0, 0, 0,
     0, 0, 0, 0, 0, 0, 0, 0, 45, 0, 0, 0, 43, 0, 0, 0, 0, 0, 0, 0, 0, 0, 0, 0] @ replicate 38 0"

definition kbcaps :: "u8 list" where
  "kbcaps =
    [0, 27, 33, 64, 35, 36, 37, 94, 38, 42, 40, 41, 95, 43, 8, 9, 81, 87, 69, 82, 84, 89, 85,
     73, 79, 80, 123, 125, 10, 0, 65, 83, 68, 70, 71, 72, 74, 75, 76, 58, 34, 126, 0, 124, 90,
     88, 67, 86, 66, 78, 77, 60, 62, 63, 0, 42, 0, 32, 0, 0, 0, 0, 0, 0, 0, 0, 0, 0, 0, 0, 0,
     0, 0, 0, 45, 0, 0, 0, 43, 0, 0, 0, 0, 0, 0, 0, 0, 0, 0, 0] @ replicate 38 0"

subsection \<open>Calls of \<open>kprintf\<close> on literal formats\<close>

definition kp_char :: "u8 \<Rightarrow> 'a console_scheme \<Rightarrow> 'a console_scheme" where
  "kp_char c s = (let s = putc c (wide_line s) in wide_line (s\<lparr>line_width := line_width s + 1\<rparr>))"

definition kp_newline :: "'a console_scheme \<Rightarrow> 'a console_scheme" where
  "kp_newline s = wide_line (kprintf_newline (wide_line s))"

definition kp_back :: "'a console_scheme \<Rightarrow> 'a console_scheme" where
  "kp_back s = (let s = printbackspace (wide_line s) in wide_line (s\<lparr>line_width := line_width s - 1\<rparr>))"

lemma wide_line_sel [simp]:
  "cmem (wide_line s) = cmem s" "video (wide_line s) = video s" "line_width (wide_line s) = line_width s"
  by (simp_all add: wide_line_def)

lemma kprintf_char_literal:
  assumes "cmem s fmt = 37" "cmem s (fmt + 1) = 99" "cmem s (fmt + 2) = 0" "fmt + 2 \<noteq> video s" "fmt + 2 \<noteq> video s + 1"
  shows "kprintf fmt [ucast c] s = Some (kp_char c s)"
proof -
  have u: "ucast (ucast c :: u64) = c" by (rule ucast_up_ucast_id) (simp add: is_up)
  have "kprintf fmt [ucast c] s =
      kprintf_loop fmt (Suc (Suc 0)) [] ((putc c (wide_line s))\<lparr>line_width := line_width s + 1\<rparr>)"
    using assms(1,2) by (subst kprintf_def, subst kprintf_loop.simps) 
         (simp add: conv1_def Let_def u del: putc_line_width)
  also have "\<dots> = Some (kp_char c s)"
    using assms(3-) by (subst kprintf_loop.simps) (simp add: kp_char_def Let_def)
  finally show ?thesis .
qed

subsection \<open>The handlers\<close>

definition store_char :: "u8 \<Rightarrow> 'a kbd_scheme \<Rightarrow> 'a kbd_scheme option" where
  "store_char c s =
     (if 0 \<le> sint (scanlen s) \<and> sint (scanlen s) < 1024
      then Some (s\<lparr>tempbuff := (tempbuff s)[nat (sint (scanlen s)) := c]\<rparr>) else None)"

text \<open>\<open>tempbuff[scanlen++] = c\<close> and \<open>tempbuff[scanlen--] = '\0'\<close>.\<close>

definition push_char :: "u8 \<Rightarrow> 'a kbd_scheme \<Rightarrow> 'a kbd_scheme option" where
  "push_char c s = do { s \<leftarrow> store_char c s; Some (s\<lparr>scanlen := scanlen s + 1\<rparr>) }"

definition erase_char :: "'a kbd_scheme \<Rightarrow> 'a kbd_scheme option" where
  "erase_char s = do { s \<leftarrow> store_char 0 s; Some (s\<lparr>scanlen := scanlen s - 1\<rparr>) }"

text \<open>A key that is no shift: it is shown, and stored while a line is being read.\<close>

definition key_press :: "u8 \<Rightarrow> u8 \<Rightarrow> 'a kbd_scheme \<Rightarrow> 'a kbd_scheme option" where
  "key_press check_code ch s =
     (if ch = 10 then Some (kp_newline s)
      else let s = kp_char ch s in
        if flag s = 1 then
          if check_code = 14 then Some (s\<lparr>scanlen := scanlen s - 1\<rparr>) else push_char ch s
        else Some s)"

definition keyboard_inter_key :: "u8 \<Rightarrow> 'a kbd_scheme \<Rightarrow> 'a kbd_scheme option" where
  "keyboard_inter_key check_code s =
     (let s = outb 0x20 0x20 s;
          s = (if check_code = 28 then s\<lparr>flag := 0\<rparr> else s)
      in if check_code = 14 then erase_char (kp_back s)
         else if check_code AND 0x80 \<noteq> 0 then
           Some (if check_code = 0x2A then s\<lparr>shift_key := 0\<rparr> else s)
         else if check_code = 0x2A then Some (s\<lparr>shift_key := 1\<rparr>)
         else if shift_key s = 1 then do {
           s \<leftarrow> key_press check_code (kbcaps ! unat check_code) s;
           Some (s\<lparr>shift_key := 0\<rparr>) }
         else key_press check_code (kbsmall ! unat check_code) s)"

text \<open>The older handler, which no interrupt uses.\<close>

definition keyboard_inter_key1 :: "u8 \<Rightarrow> 'a kbd_scheme \<Rightarrow> 'a kbd_scheme option" where
  "keyboard_inter_key1 scancode s =
     (let s = outb 0x20 0x20 s in
      if scancode < 59 then
        if scancode = 14 then erase_char (kp_back s)
        else do {
          let s = (if scancode = 28 then kp_newline (if flag s = 1 then s\<lparr>flag := 0\<rparr> else s) else s);
          s \<leftarrow> (if lastkey s = 42 then
                 let val = kbcaps ! unat scancode; s = (if scancode \<noteq> 42 then kp_char val s else s)
                 in if flag s = 1 then push_char val s else Some s
               else if lastkey s = 29 then
                 let val = kbcaps ! unat scancode; s = kp_char val (kp_char 94 s)
                 in if flag s = 1 then push_char val s else Some s
               else
                 let val = kbsmall ! unat scancode; s = kp_char val s
                 in if flag s = 1 then push_char val s else Some s);
          Some (s\<lparr>lastkey := scancode\<rparr>) }
      else Some s)"

definition tick_timer :: "'a kbd_scheme \<Rightarrow> 'a kbd_scheme" where
  "tick_timer s =
     (let s = print_tim_txt (outb 0x20 0x20 s);
          s = s\<lparr>timer_ticks := timer_ticks s + 1\<rparr>
      in if sint (timer_ticks s) smod 18 = 0 then
           let s = s\<lparr>sec := sec s + 1\<rparr> in print_tim (ucast (sec s)) s
         else s)"

subsection \<open>Reading a line\<close>

text \<open>\<open>scanf\<close> waits until a handler resets \<open>flag\<close>; \<open>codes\<close> are the scan codes that arrive from then
  on. When they run out, the call does not return.\<close>

fun scan_wait :: "u8 list \<Rightarrow> 'a kbd_scheme \<Rightarrow> (u8 list \<times> 'a kbd_scheme) option" where
  "scan_wait codes s =
     (if flag s = 1 then
        (case codes of
           [] \<Rightarrow> None
         | c # cs \<Rightarrow> (case keyboard_inter_key c s of None \<Rightarrow> None | Some s \<Rightarrow> scan_wait cs s))
      else Some (codes, s))"

text \<open>\<open>while (scanlen >= 0) { tempbuff[scanlen] = '\0'; scanlen--; }\<close>\<close>

function scan_clear :: "'a kbd_scheme \<Rightarrow> 'a kbd_scheme option" where
  "scan_clear s =
     (if 0 \<le> sint (scanlen s) then
        (case store_char 0 s of None \<Rightarrow> None | Some s \<Rightarrow> scan_clear (s\<lparr>scanlen := scanlen s - 1\<rparr>))
      else Some s)"
  by auto

lemma sint_pred: "0 \<le> sint w \<Longrightarrow> sint (w - 1 :: u32) = sint w - 1"
  using sint_range_size [of w] by (simp add: sint_word_diff word_size signed_take_bit_int_eq_self)

lemma sint_succ: "sint w < 2 ^ 31 - 1 \<Longrightarrow> sint (w + 1 :: u32) = sint w + 1"
  using sint_range_size [of w] by (simp add: sint_word_add word_size signed_take_bit_int_eq_self)

termination scan_clear
  by (relation "measure (\<lambda>s. nat (sint (scanlen s) + 1))")
     (auto simp: store_char_def sint_pred split: if_splits)

declare scan_clear.simps [simp del] scan_wait.simps [simp del]

definition scanf :: "u64 \<Rightarrow> u32 \<Rightarrow> u8 list \<Rightarrow> 'a kbd_scheme \<Rightarrow> (u64 \<times> u8 list \<times> 'a kbd_scheme) option" where
  "scanf buff len codes s = do {
     (codes, s) \<leftarrow> scan_wait codes (s\<lparr>flag := 1\<rparr>);
     let s = (if sint len < sint (scanlen s) then s\<lparr>scanlen := len\<rparr> else s);
     if 0 \<in> set (tempbuff s) \<and> 0 \<le> sint (scanlen s) then do {
       let s = s\<lparr>cmem := blit (cmem s) buff (takeWhile (\<lambda>c. c \<noteq> 0) (tempbuff s) @ [0])\<rparr>;
       let s = s\<lparr>cmem := blit (cmem s) buff (take (nat (sint (scanlen s))) (tempbuff s))\<rparr>;
       s \<leftarrow> scan_clear s;
       let len = scanlen s;
       Some (scast len, codes, s\<lparr>scanlen := 0\<rparr>) }
     else None }"

subsection \<open>The console leaves the keyboard state alone\<close>

lemma console_more [simp]:
  "console.more (putc c s) = console.more s" "console.more (wide_line s) = console.more s"
  "console.more (put_space s) = console.more s" "console.more (newline s) = console.more s"
  "console.more (kp_char c s) = console.more s" "console.more (printbackspace s) = console.more s"
  "console.more (kp_back s) = console.more s"
  by (simp_all add: putc_def wide_line_def put_space_def newline_def kp_char_def printbackspace_def kp_back_def Let_def)

lemma console_more_screenclear [simp]: "console.more (screenclear s) = console.more s"
proof -
  have "console.more (((\<lambda>s. let s = put_space s in s\<lparr>line_width := line_width s - 1\<rparr>) ^^ n) s) = console.more s" for n and s :: "'a console_scheme"
    by (induction n) (simp_all add: Let_def)
  from this [of 1840 "s\<lparr>video := startpos\<rparr>"] show ?thesis by (simp add: screenclear_def Let_def)
qed

lemma console_more_newline [simp]: "console.more (kp_newline s) = console.more s"
  by (simp add: kp_newline_def kprintf_newline_def Let_def)

lemma kbd_more:
  assumes "console.more s' = console.more s"
  shows "flag s' = flag s" "tempbuff s' = tempbuff s" "scanlen s' = scanlen s" "shift_key s' = shift_key s"
    "lastkey s' = lastkey s" "timer_ticks s' = timer_ticks s" "sec s' = sec s" "ports s' = ports s"
  using assms by (cases s; cases s'; simp)+

lemma kp_kbd [simp]:
  "flag (kp_char c s) = flag s" "tempbuff (kp_char c s) = tempbuff s" "scanlen (kp_char c s) = scanlen s"
  "shift_key (kp_char c s) = shift_key s" "flag (kp_newline s) = flag s" "tempbuff (kp_newline s) = tempbuff s"
  "scanlen (kp_newline s) = scanlen s" "shift_key (kp_newline s) = shift_key s" "flag (kp_back s) = flag s"
  "tempbuff (kp_back s) = tempbuff s" "scanlen (kp_back s) = scanlen s" "shift_key (kp_back s) = shift_key s"
  by (rule kbd_more, simp)+

lemma outb_kbd [simp]:
  "flag (outb p v s) = flag s" "tempbuff (outb p v s) = tempbuff s" "scanlen (outb p v s) = scanlen s"
  "shift_key (outb p v s) = shift_key s"
  by (simp_all add: outb_def)

subsection \<open>The line that was typed\<close>

text \<open>What a sequence of scan codes types: a shift holds for the next key only, releases count for
  nothing.\<close>

fun typed :: "bool \<Rightarrow> u8 list \<Rightarrow> u8 list" where
  "typed sh [] = []"
| "typed sh (c # cs) =
     (if c AND 0x80 \<noteq> 0 then typed sh cs
      else if c = 0x2A then typed True cs
      else let ch = (if sh then kbcaps else kbsmall) ! unat c
           in if ch = 10 then typed False cs else ch # typed False cs)"

lemma sint_of_nat_small: "n < 2 ^ 31 \<Longrightarrow> sint (of_nat n :: u32) = int n"
  by (simp add: signed_of_nat signed_take_bit_int_eq_self)

lemma push_char_spec:
  assumes "scanlen s = of_nat n" "n < 1024"
  shows "push_char c s = Some (s\<lparr>tempbuff := (tempbuff s)[n := c], scanlen := of_nat (Suc n)\<rparr>)"
  using assms sint_of_nat_small [of n] by (simp add: push_char_def store_char_def add.commute)

text \<open>\<open>n\<close> characters are in the buffer.\<close>

definition line_state :: "bool \<Rightarrow> nat \<Rightarrow> u8 list \<Rightarrow> 'a kbd_scheme \<Rightarrow> bool" where
  "line_state sh n tb s \<longleftrightarrow> flag s = 1 \<and> scanlen s = of_nat n \<and> tempbuff s = tb \<and> shift_key s = (if sh then 1 else 0)"

lemma key_press_spec:
  assumes "line_state sh n tb s" "n < 1024" "c \<noteq> 14"
  shows "\<exists>s'. key_press c ch s = Some s' \<and>
    line_state sh (if ch = 10 then n else Suc n) (if ch = 10 then tb else tb[n := ch]) s'"
  using assms push_char_spec [of "kp_char ch s" n ch]
  by (simp add: key_press_def line_state_def Let_def)

lemma keyboard_inter_key_spec:
  assumes "line_state sh n tb s" "n < 1024" "c \<noteq> 14" "c \<noteq> 28"
  defines "xs \<equiv> typed sh [c]"
  shows "\<exists>s'. keyboard_inter_key c s = Some s' \<and>
    line_state (if c AND 0x80 \<noteq> 0 then sh else c = 0x2A) (n + length xs) (if xs = [] then tb else tb[n := hd xs]) s'"
proof -
  let ?s = "outb 0x20 0x20 s"
  have l: "line_state sh n tb ?s" using assms(1) by (simp add: line_state_def)
  consider "c AND 0x80 \<noteq> 0" | "c AND 0x80 = 0" "c = 0x2A" | "c AND 0x80 = 0" "c \<noteq> 0x2A" by blast
  then show ?thesis
  proof cases
    case 1
    then have "c \<noteq> 0x2A" by auto
    then show ?thesis using 1 assms(3,4) l by (simp add: keyboard_inter_key_def xs_def line_state_def Let_def)
  next
    case 2
    then show ?thesis using l by (simp add: keyboard_inter_key_def xs_def line_state_def Let_def)
  next
    case 3
    define ch where "ch = (if sh then kbcaps else kbsmall) ! unat c"
    obtain s' where s': "key_press c ch ?s = Some s'"
      "line_state sh (if ch = 10 then n else Suc n) (if ch = 10 then tb else tb[n := ch]) s'"
      using key_press_spec [OF l assms(2,3)] by blast
    have "keyboard_inter_key c s = Some (if sh then s'\<lparr>shift_key := 0\<rparr> else s')"
      using 3 assms(3,4) l s'(1) by (simp add: keyboard_inter_key_def line_state_def ch_def Let_def split: if_splits)
    then show ?thesis using 3 s'(2) by (auto simp: xs_def ch_def line_state_def Let_def)
  qed
qed


definition put_list :: "nat \<Rightarrow> 'b list \<Rightarrow> 'b list \<Rightarrow> 'b list" where
  "put_list n xs tb = take n tb @ xs @ drop (n + length xs) tb"

lemma put_list_Nil [simp]: "put_list n [] tb = tb"
  by (simp add: put_list_def)

lemma put_list_Cons: "n < length tb \<Longrightarrow> put_list (Suc n) xs (tb[n := x]) = put_list n (x # xs) tb"
  by (simp add: put_list_def take_Suc_conv_app_nth)

lemma typed_Cons: "typed sh (c # cs) = typed sh [c] @ typed (if c AND 0x80 \<noteq> 0 then sh else c = 0x2A) cs"
  by (simp add: Let_def)

lemma length_typed_1: "length (typed sh [c]) \<le> 1"
  by (simp add: Let_def)

declare typed.simps(2) [simp del]

lemma scan_wait_step:
  "flag s = 1 \<Longrightarrow> keyboard_inter_key c s = Some s' \<Longrightarrow> scan_wait (c # cs) s = scan_wait cs s'"
  by (subst scan_wait.simps) simp

lemma scan_wait_keys:
  assumes "line_state sh n tb s" "length tb = 1024" "n + length (typed sh cs) < 1024" "14 \<notin> set cs" "28 \<notin> set cs"
  shows "\<exists>s' sh'. scan_wait (cs @ rest) s = scan_wait rest s' \<and>
    line_state sh' (n + length (typed sh cs)) (put_list n (typed sh cs) tb) s'"
  using assms
proof (induction cs arbitrary: sh n tb s)
  case Nil
  then show ?case by auto
next
  case (Cons c cs)
  define xs where "xs = typed sh [c]"
  define sh1 where "sh1 = (if c AND 0x80 \<noteq> 0 then sh else c = 0x2A)"
  define tb1 where "tb1 = (if xs = [] then tb else tb[n := hd xs])"
  have ty: "typed sh (c # cs) = xs @ typed sh1 cs" unfolding xs_def sh1_def by (rule typed_Cons)
  obtain s1 where s1: "keyboard_inter_key c s = Some s1" "line_state sh1 (n + length xs) tb1 s1"
    using keyboard_inter_key_spec [OF Cons.prems(1), of c, folded xs_def sh1_def, folded tb1_def] Cons.prems(3-5)
    by auto
  have fl: "flag s = 1" using Cons.prems(1) by (simp add: line_state_def)
  have pre: "length tb1 = 1024" "n + length xs + length (typed sh1 cs) < 1024" "14 \<notin> set cs" "28 \<notin> set cs"
    using Cons.prems(2-5) unfolding ty by (simp_all add: tb1_def)
  obtain s' sh' where s': "scan_wait (cs @ rest) s1 = scan_wait rest s'"
    "line_state sh' (n + length xs + length (typed sh1 cs)) (put_list (n + length xs) (typed sh1 cs) tb1) s'"
    using Cons.IH [OF s1(2) pre] by blast
  have "put_list (n + length xs) (typed sh1 cs) tb1 = put_list n (typed sh (c # cs)) tb"
  proof (cases xs)
    case (Cons x ys)
    then have "xs = [x]" using length_typed_1 [of sh c] by (simp add: xs_def)
    then show ?thesis using put_list_Cons [of n tb] Cons.prems(2,3) ty by (simp add: tb1_def)
  qed (simp add: tb1_def ty)
  then show ?case using scan_wait_step [OF fl s1(1), of "cs @ rest"] s' ty by (auto simp: add.assoc)
qed

lemma scan_wait_enter:
  assumes "line_state sh n tb s"
  shows "\<exists>s'. scan_wait (28 # rest) s = Some (rest, s') \<and> tempbuff s' = tb \<and> scanlen s' = of_nat n"
proof -
  have k: "kbcaps ! 28 = 10" "kbsmall ! 28 = 10" by (simp_all add: kbcaps_def kbsmall_def)
  have "\<exists>s'. keyboard_inter_key 28 s = Some s' \<and> flag s' = 0 \<and> tempbuff s' = tb \<and> scanlen s' = of_nat n"
    using assms k by (simp add: keyboard_inter_key_def key_press_def line_state_def Let_def)
  then obtain s' where s': "keyboard_inter_key 28 s = Some s'" "flag s' = 0" "tempbuff s' = tb" "scanlen s' = of_nat n"
    by blast
  have "flag s = 1" using assms by (simp add: line_state_def)
  from scan_wait_step [OF this s'(1), of rest] s' show ?thesis by (simp add: scan_wait.simps)
qed

lemma scan_clear_spec:
  assumes "scanlen s = of_nat n" "n < 1024" "length (tempbuff s) = 1024"
  shows "scan_clear s = Some (s\<lparr>tempbuff := replicate (Suc n) 0 @ drop (Suc n) (tempbuff s), scanlen := - 1\<rparr>)"
  using assms
proof (induction n arbitrary: s)
  case 0
  then show ?case
    by (cases "tempbuff s") (simp, subst scan_clear.simps, simp add: store_char_def scan_clear.simps)
next
  case (Suc n)
  let ?s = "s\<lparr>tempbuff := (tempbuff s)[Suc n := 0], scanlen := of_nat n\<rparr>"
  have si: "sint (scanlen s) = int (Suc n)" unfolding Suc.prems(1) using Suc.prems(2) by (intro sint_of_nat_small) simp
  have "scan_clear s = scan_clear ?s"
    using si Suc.prems by (subst scan_clear.simps) (simp add: store_char_def nat_add_distrib)
  moreover have "replicate (Suc n) 0 @ 0 # ys = replicate (Suc (Suc n)) 0 @ ys" for ys :: "u8 list"
    using replicate_app_Cons_same [of "Suc n" 0 ys] by simp
  moreover have "drop (Suc n) ((tempbuff s)[Suc n := 0]) = 0 # drop (Suc (Suc n)) (tempbuff s)"
    using Suc.prems(2,3) by (simp add: drop_update_swap Cons_nth_drop_Suc [symmetric])
  ultimately show ?case using Suc.IH [of ?s] Suc.prems
    by (simp add: replicate_append_same [symmetric] del: replicate.simps)
qed


text \<open>The second half of \<open>scanf\<close>, for a line of \<open>n\<close> characters that fits the buffers.\<close>

lemma scanf_finish:
  assumes "scan_wait codes (s\<lparr>flag := 1\<rparr>) = Some (rest, s1)" "scanlen s1 = of_nat n" "tempbuff s1 = tb"
    and "tb = xs @ replicate (1024 - length xs) 0" "0 \<notin> set xs" "length xs < 1024" "n \<le> length xs" "int n \<le> sint len"
  shows "\<exists>s'. scanf buff len codes s = Some (- 1, rest, s') \<and> cstr (cmem s') buff xs \<and> scanlen s' = 0 \<and>
    tempbuff s' = replicate (Suc n) 0 @ drop (Suc n) tb"
proof -
  let ?m = "blit (blit (cmem s1) buff (xs @ [0])) buff (take n xs)"
  have si: "sint (scanlen s1) = int n" unfolding assms(2) using assms(6,7) by (intro sint_of_nat_small) simp
  have lt: "\<not> sint len < sint (scanlen s1)" using si assms(8) by simp
  obtain k where k: "1024 - length xs = Suc k" using assms(6) by (cases "1024 - length xs") auto
  have z: "0 \<in> set tb" unfolding assms(4) k by simp
  have tw: "takeWhile (\<lambda>c. c \<noteq> 0) tb = xs" unfolding assms(4) k using assms(5) by (auto simp: takeWhile_append)
  have tk: "take n tb = take n xs" using assms(4,7) by simp
  have len: "length tb = 1024" using assms(4,6) by simp
  have cl: "scan_clear (s1\<lparr>cmem := ?m\<rparr>) =
      Some (s1\<lparr>cmem := ?m, tempbuff := replicate (Suc n) 0 @ drop (Suc n) tb, scanlen := - 1\<rparr>)"
    using scan_clear_spec [of "s1\<lparr>cmem := ?m\<rparr>" n] assms(2,3,6,7) len by simp
  have "?m = blit (cmem s1) buff (xs @ [0])"
    using assms(6,7) by (auto simp: blit_def fun_eq_iff nth_append)
  moreover have "arr (blit (cmem s1) buff (xs @ [0])) buff (xs @ [0])" using assms(6) by (intro arr_blit) simp
  ultimately have "cstr ?m buff xs" using assms(5) by (simp add: cstr_def)
  then show ?thesis
    using assms(1,3) lt z tw tk si cl by (simp add: scanf_def Let_def)
qed

text \<open>C14. Reading a line: when the scan codes that arrive contain Enter, preceded by no backspace and by fewer
  characters than the buffers hold, \<open>scanf\<close> returns; the buffer of the caller then holds exactly the
  characters typed, terminated, and the keyboard buffer is empty again. The value returned is
  always -1, not the number of characters.\<close>

theorem scanf_reads_line:
  assumes "scanlen s = 0" "tempbuff s = replicate 1024 0" "shift_key s = (if sh then 1 else 0)"
    and "14 \<notin> set cs" "28 \<notin> set cs" "0 \<notin> set (typed sh cs)" "length (typed sh cs) < 1024"
    and "int (length (typed sh cs)) \<le> sint len"
  shows "\<exists>s'. scanf buff len (cs @ 28 # rest) s = Some (- 1, rest, s') \<and>
    cstr (cmem s') buff (typed sh cs) \<and> scanlen s' = 0 \<and> tempbuff s' = replicate 1024 0"
proof -
  let ?xs = "typed sh cs"
  have l: "line_state sh 0 (replicate 1024 0) (s\<lparr>flag := 1\<rparr>)" using assms(1-3) by (simp add: line_state_def)
  obtain s1 sh1 where 1: "scan_wait (cs @ 28 # rest) (s\<lparr>flag := 1\<rparr>) = scan_wait (28 # rest) s1"
    "line_state sh1 (length ?xs) (put_list 0 ?xs (replicate 1024 0)) s1"
    using scan_wait_keys [OF l _ _ assms(4,5), of "28 # rest"] assms(7) by auto
  obtain s2 where 2: "scan_wait (28 # rest) s1 = Some (rest, s2)" "scanlen s2 = of_nat (length ?xs)"
    "tempbuff s2 = put_list 0 ?xs (replicate 1024 0)"
    using scan_wait_enter [OF 1(2)] by blast
  have tb: "put_list 0 ?xs (replicate 1024 0) = ?xs @ replicate (1024 - length ?xs) 0"
    by (simp add: put_list_def)
  have "replicate (Suc (length ?xs)) 0 @ drop (Suc (length ?xs)) (?xs @ replicate (1024 - length ?xs) 0) = replicate 1024 0"
    using assms(7) by (simp add: replicate_add [symmetric] del: replicate.simps)
  then show ?thesis
    using scanf_finish [OF 1(1) [unfolded 2(1)] 2(2,3) tb assms(6,7) order_refl assms(8)] by (simp only: tb)
qed


lemma scan_wait_backspace:
  assumes "line_state sh (Suc n) tb s" "Suc n < 1024" "tb ! Suc n = 0"
  shows "\<exists>s'. scan_wait (14 # rest) s = scan_wait rest s' \<and> line_state sh n tb s'"
proof -
  let ?b = "kp_back (outb 0x20 0x20 s)"
  have si: "sint (scanlen s) = int (Suc n)"
    using assms(1) sint_of_nat_small [of "Suc n"] assms(2) by (simp add: line_state_def del: of_nat_Suc)
  have tb: "tb[Suc n := 0] = tb" using assms(3) by (metis list_update_id)
  have "erase_char ?b = Some (?b\<lparr>tempbuff := tb, scanlen := of_nat n\<rparr>)"
    using assms(1,2) si tb by (simp add: erase_char_def store_char_def line_state_def nat_add_distrib)
  then have "keyboard_inter_key 14 s = Some (?b\<lparr>tempbuff := tb, scanlen := of_nat n\<rparr>)"
    by (simp add: keyboard_inter_key_def)
  from scan_wait_step [OF _ this, of rest] show ?thesis
    using assms(1) by (auto simp: line_state_def intro!: exI)
qed

text \<open>C40. A backspace does not take the last character back: when it is followed by Enter, the caller's buffer
  still receives the erased character, because the handler clears the position behind it and
  \<open>scanf\<close> copies up to the terminator.\<close>

theorem scanf_keeps_erased:
  assumes "scanlen s = 0" "tempbuff s = replicate 1024 0" "shift_key s = (if sh then 1 else 0)"
    and "14 \<notin> set cs" "28 \<notin> set cs" "0 \<notin> set (typed sh cs)" "length (typed sh cs) < 1024"
    and "int (length (typed sh cs)) \<le> sint len" "typed sh cs \<noteq> []"
  shows "\<exists>s'. scanf buff len (cs @ 14 # 28 # rest) s = Some (- 1, rest, s') \<and> cstr (cmem s') buff (typed sh cs)"
proof -
  let ?xs = "typed sh cs" and ?tb = "put_list 0 (typed sh cs) (replicate 1024 0)"
  obtain n where n: "length ?xs = Suc n" using assms(9) by (cases ?xs) auto
  have l: "line_state sh 0 (replicate 1024 0) (s\<lparr>flag := 1\<rparr>)" using assms(1-3) by (simp add: line_state_def)
  have tb: "?tb = ?xs @ replicate (1024 - length ?xs) 0" by (simp add: put_list_def)
  obtain s1 sh1 where 1: "scan_wait (cs @ 14 # 28 # rest) (s\<lparr>flag := 1\<rparr>) = scan_wait (14 # 28 # rest) s1"
    "line_state sh1 (Suc n) ?tb s1"
    using scan_wait_keys [OF l _ _ assms(4,5), of "14 # 28 # rest"] assms(7) n by auto
  have "?tb ! Suc n = 0" using n assms(7) by (simp add: tb nth_append)
  then obtain s2 where 2: "scan_wait (14 # 28 # rest) s1 = scan_wait (28 # rest) s2" "line_state sh1 n ?tb s2"
    using scan_wait_backspace [OF 1(2)] assms(7) n by auto
  obtain s3 where 3: "scan_wait (28 # rest) s2 = Some (rest, s3)" "scanlen s3 = of_nat n" "tempbuff s3 = ?tb"
    using scan_wait_enter [OF 2(2)] by blast
  have w: "scan_wait (cs @ 14 # 28 # rest) (s\<lparr>flag := 1\<rparr>) = Some (rest, s3)" using 1(1) 2(1) 3(1) by simp
  have "n \<le> length ?xs" "int n \<le> sint len" using n assms(8) by simp_all
  then show ?thesis using scanf_finish [OF w 3(2,3) tb assms(6,7)] by blast
qed

subsection \<open>The clock\<close>

lemma put_chars_more: "console.more (put_chars xs s) = console.more s"
  by (induction xs arbitrary: s) simp_all

lemma clock_kbd [simp]:
  "timer_ticks (put_at a xs s) = timer_ticks s" "sec (put_at a xs s) = sec s" "video (put_at a xs s) = video s"
  by (rule kbd_more, simp add: put_at_def put_chars_more)+ (simp add: put_at_def)

lemma outb_clock [simp]:
  "timer_ticks (outb p v s) = timer_ticks s" "sec (outb p v s) = sec s" "video (outb p v s) = video s"
  by (simp_all add: outb_def)

lemma tick_timer_sel:
  "timer_ticks (tick_timer s) = timer_ticks s + 1"
  "sec (tick_timer s) = (if sint (timer_ticks s + 1) smod 18 = 0 then sec s + 1 else sec s)"
  "video (tick_timer s) = video s"
  by (simp_all add: tick_timer_def print_tim_def print_tim_txt_def Let_def)

lemma ticks_count:
  assumes "timer_ticks s = 0" "sec s = 0" "n < 2 ^ 31"
  shows "timer_ticks ((tick_timer ^^ n) s) = of_nat n \<and> sec ((tick_timer ^^ n) s) = of_nat (n div 18) \<and>
    video ((tick_timer ^^ n) s) = video s"
  using assms(3)
proof (induction n)
  case (Suc n)
  have "sint (of_nat n + 1 :: u32) = int (Suc n)"
    using sint_of_nat_small [of "Suc n"] Suc.prems by (simp add: add.commute)
  moreover have "int (Suc n) smod 18 = 0 \<longleftrightarrow> Suc n mod 18 = 0"
    by (simp add: signed_modulo_int_def zmod_int [symmetric] del: of_nat_Suc) (metis of_nat_0_eq_iff of_nat_mod of_nat_numeral)
  ultimately show ?case using Suc by (simp add: tick_timer_sel div_Suc)
qed (use assms in simp)


subsection \<open>Witnesses\<close>

definition demo_kbd :: kbd where
  "demo_kbd = console.extend demo_console (kbd.fields 0 (replicate 1024 0) 0 0 0 0 0 [])"

lemma demo_kbd_sel [simp]:
  "scanlen demo_kbd = 0" "tempbuff demo_kbd = replicate 1024 0" "shift_key demo_kbd = 0"
  by (simp_all add: demo_kbd_def console.defs kbd.defs)

text \<open>Shift, l, s: the line is \<open>Ls\<close>.\<close>

lemma demo_typed: "typed False [0x2A, 38, 166, 31, 159] = [76, 115]"
  by (simp add: typed.simps kbsmall_def kbcaps_def)

theorem scanf_reads_line_witness:
  "\<exists>s'. scanf 0x9000 64 [0x2A, 38, 166, 31, 159, 28, 156] demo_kbd = Some (- 1, [156], s') \<and>
     cstr (cmem s') 0x9000 [76, 115]"
  using scanf_reads_line [of demo_kbd False "[0x2A, 38, 166, 31, 159]" 64 "0x9000" "[156]"]
  by (auto simp: demo_typed)

theorem scanf_keeps_erased_witness:
  "\<exists>s'. scanf 0x9000 64 [0x2A, 38, 166, 31, 159, 14, 28, 156] demo_kbd = Some (- 1, [156], s') \<and>
     cstr (cmem s') 0x9000 [76, 115]"
  using scanf_keeps_erased [of demo_kbd False "[0x2A, 38, 166, 31, 159]" 64 "0x9000" "[156]"]
  by (auto simp: demo_typed)


end
