(* ===== verification/Interrupts.thy ===== *)
theory Interrupts
  imports Keyboard
begin

unbundle bit_operations_syntax

text \<open>
  Segment and interrupt descriptors (\<^verbatim>\<open>sys/gdt.c\<close>, \<^verbatim>\<open>sys/isr.c\<close>). The tables are written field by
  field as the code does; what the processor makes of them is stated by the decoding functions
  \<open>gate_offset\<close>, \<open>int_target\<close>, \<open>tss_base\<close> and \<open>tss_limit\<close>.
\<close>

subsection \<open>The interrupt table\<close>

record idt_entry =
  offset_1 :: u16
  selector :: u16
  ist :: u8
  type_attr :: u8
  offset_2 :: u16
  offset_3 :: u32
  idt_zero :: u32

record idt_ptr =
  idt_limit :: u16
  idt_base :: u64

definition zero_gate :: idt_entry where
  "zero_gate = \<lparr>offset_1 = 0, selector = 0, ist = 0, type_attr = 0, offset_2 = 0, offset_3 = 0, idt_zero = 0\<rparr>"

text \<open>The table has 256 entries; an index outside it is a fault.\<close>

definition idt_set_gate :: "u64 \<Rightarrow> u64 \<Rightarrow> u16 \<Rightarrow> u8 \<Rightarrow> idt_entry list \<Rightarrow> idt_entry list option" where
  "idt_set_gate num base sel flags idt =
     (if num < 256 then
        Some (idt[unat num := \<lparr>offset_1 = ucast (base AND 0xFFFF), selector = sel, ist = 0, type_attr = flags,
                offset_2 = ucast (drop_bit 16 base AND 0xFFFF),
                offset_3 = ucast (drop_bit 32 base AND 0xFFFFFFFF), idt_zero = 0\<rparr>])
      else None)"

definition init_isr :: "u64 \<Rightarrow> u64 \<Rightarrow> u64 \<Rightarrow> u64 \<Rightarrow> idt_entry list \<Rightarrow> idt_entry list option" where
  "init_isr isr_timer isr_keyboard isr_syscall page_fault_handler idt = do {
     idt \<leftarrow> idt_set_gate 32 isr_timer 0x08 0x8E idt;
     idt \<leftarrow> idt_set_gate 33 isr_keyboard 0x08 0x8E idt;
     idt \<leftarrow> idt_set_gate 128 isr_syscall 0x08 0xEE idt;
     idt_set_gate 14 page_fault_handler 0x08 0x8E idt }"

definition reload_idt ::
    "u64 \<Rightarrow> u64 \<Rightarrow> u64 \<Rightarrow> u64 \<Rightarrow> u64 \<Rightarrow> (idt_ptr \<times> idt_entry list) option" where
  "reload_idt idt_addr isr_timer isr_keyboard isr_syscall page_fault_handler = do {
     let idtp = \<lparr>idt_limit = 16 * 256 - 1, idt_base = idt_addr\<rparr>;
     let idt = replicate 256 zero_gate;
     idt \<leftarrow> init_isr isr_timer isr_keyboard isr_syscall page_fault_handler idt;
     Some (idtp, idt) }"

definition reinit_PIC :: "'a kbd_scheme \<Rightarrow> 'a kbd_scheme" where
  "reinit_PIC s = fold (\<lambda>(p, v). outb p v)
     [(0x20, 0x11), (0xA0, 0x11), (0x21, 0x20), (0xA1, 0x28), (0x21, 0x04), (0xA1, 0x02), (0x21, 0x01),
      (0xA1, 0x01), (0x21, 0x0), (0xA1, 0x0)] s"

definition interrupt_handler_key :: "u8 \<Rightarrow> 'a kbd_scheme \<Rightarrow> 'a kbd_scheme option" where
  "interrupt_handler_key code s = keyboard_inter_key code s"

definition interrupt_handler_timer :: "'a kbd_scheme \<Rightarrow> 'a kbd_scheme" where
  "interrupt_handler_timer s = tick_timer s"

text \<open>What the processor reads from a gate: the handler's address, and whether an \<open>int\<close> instruction at
  privilege level \<open>cpl\<close> may use it.\<close>

definition gate_offset :: "idt_entry \<Rightarrow> u64" where
  "gate_offset g = ucast (offset_1 g) OR push_bit 16 (ucast (offset_2 g)) OR push_bit 32 (ucast (offset_3 g))"

definition int_target :: "idt_ptr \<times> idt_entry list \<Rightarrow> nat \<Rightarrow> nat \<Rightarrow> u64 option" where
  "int_target t cpl n =
     (let g = snd t ! n in
      if n < 256 \<and> 16 * n + 15 \<le> unat (idt_limit (fst t)) \<and> bit (type_attr g) 7 \<and>
         cpl \<le> unat (drop_bit 5 (type_attr g) AND 3)
      then Some (gate_offset g) else None)"

lemma gate_offset_split:
  "(ucast (ucast (b AND 0xFFFF) :: u16) OR push_bit 16 (ucast (ucast (drop_bit 16 b AND 0xFFFF) :: u16)) OR
    push_bit 32 (ucast (ucast (drop_bit 32 b AND 0xFFFFFFFF) :: u32)) :: u64) = b"
proof -
  have m: "(0xFFFF :: u64) = mask 16" "(0xFFFFFFFF :: u64) = mask 32" by (simp_all add: mask_eq_exp_minus_1)
  show ?thesis unfolding m
  proof (rule bit_eqI)
    fix n assume n: "possible_bit TYPE(u64) n"
    consider "n < 16" | "16 \<le> n" "n < 32" | "32 \<le> n" by linarith
    then show "bit (ucast (ucast (b AND mask 16) :: u16) OR push_bit 16 (ucast (ucast (drop_bit 16 b AND mask 16) :: u16)) OR
        push_bit 32 (ucast (ucast (drop_bit 32 b AND mask 32) :: u32)) :: u64) n = bit b n"
      using n by cases (auto simp: bit_simps)
  qed
qed

text \<open>The interrupt table: after \<open>reload_idt\<close> the hardware interrupts 32 and 33 and the page fault 14
  go to their handlers, the software interrupt 128 to \<open>isr_syscall\<close>, for any 64-bit addresses of
  the handlers; from user mode no \<open>int\<close> instruction but \<open>int 0x80\<close> reaches a handler.\<close>

lemma reload_idt_targets:
  "\<exists>t. reload_idt a timer kb sysc pf = Some t \<and> idt_base (fst t) = a \<and>
    (\<forall>n. int_target t 0 n =
       (if n = 32 then Some timer else if n = 33 then Some kb else if n = 128 then Some sysc
        else if n = 14 then Some pf else None)) \<and>
    (\<forall>n. int_target t 3 n = (if n = 128 then Some sysc else None))"
  by (auto simp: reload_idt_def init_isr_def idt_set_gate_def int_target_def zero_gate_def gate_offset_def
      gate_offset_split nth_list_update Let_def)

subsection \<open>The segment table\<close>

definition set_field :: "nat \<Rightarrow> nat \<Rightarrow> u64 \<Rightarrow> u64 \<Rightarrow> u64" where
  "set_field pos len v w = (w AND NOT (push_bit pos (mask len))) OR push_bit pos (v AND mask len)"

abbreviation GDT_CS :: u64 where "GDT_CS \<equiv> 0x00180000000000"
abbreviation GDT_DS :: u64 where "GDT_DS \<equiv> 0x00100000000000"
abbreviation GDT_DPL0 :: u64 where "GDT_DPL0 \<equiv> 0"
abbreviation GDT_DPL3 :: u64 where "GDT_DPL3 \<equiv> 0x00600000000000"
abbreviation GDT_P :: u64 where "GDT_P \<equiv> 0x00800000000000"
abbreviation GDT_L :: u64 where "GDT_L \<equiv> 0x20000000000000"
abbreviation GDT_W :: u64 where "GDT_W \<equiv> 0x00020000000000"

definition gdt0 :: "u64 list" where
  "gdt0 = [0, GDT_CS OR GDT_P OR GDT_DPL0 OR GDT_L, GDT_DS OR GDT_P OR GDT_W OR GDT_DPL0, 0,
     GDT_DS OR GDT_P OR GDT_W OR GDT_DPL3, GDT_CS OR GDT_P OR GDT_DPL3 OR GDT_L, 0, 0] @ replicate 24 0"

abbreviation sizeof_tss :: u64 where "sizeof_tss \<equiv> 104"

text \<open>The two words of the TSS descriptor. \<open>sd_hibase\<close> has 40 bits: 8 in the first word, 32 in the
  second.\<close>

definition init_gdt :: "u64 \<Rightarrow> u64 list \<Rightarrow> u64 list" where
  "init_gdt tss gdt =
     (let hibase = drop_bit 24 tss;
          lo = set_field 0 16 (sizeof_tss - 1) (gdt ! 6);
          lo = set_field 16 24 tss lo;
          lo = set_field 40 5 9 lo;
          lo = set_field 45 2 0 lo;
          lo = set_field 47 1 1 lo;
          lo = set_field 48 4 0 lo;
          lo = set_field 55 1 0 lo;
          lo = set_field 56 8 hibase lo;
          hi = set_field 0 32 (drop_bit 8 hibase) (gdt ! 7)
      in gdt[6 := lo, 7 := hi])"

definition tss_base :: "u64 list \<Rightarrow> u64" where
  "tss_base gdt =
     take_bit 24 (drop_bit 16 (gdt ! 6)) OR push_bit 24 (drop_bit 56 (gdt ! 6)) OR push_bit 32 (gdt ! 7)"

definition tss_limit :: "u64 list \<Rightarrow> u64" where
  "tss_limit gdt = take_bit 16 (gdt ! 6) OR push_bit 16 (take_bit 4 (drop_bit 48 (gdt ! 6)))"

lemma bit_set_field:
  "bit (set_field pos len v w) n \<longleftrightarrow>
     (if pos \<le> n \<and> n < pos + len then n < 64 \<and> bit v (n - pos) else bit w n)"
  by (auto simp: set_field_def bit_simps dest: bit_imp_le_length)

text \<open>The descriptor that \<open>init_gdt\<close> writes describes the TSS, wherever it is.\<close>

lemma init_gdt_tss:
  "tss_base (init_gdt tss gdt0) = tss" "tss_limit (init_gdt tss gdt0) = sizeof_tss - 1"
proof -
  have g: "gdt0 ! 6 = 0" "gdt0 ! 7 = 0" "length gdt0 = 32" by (simp_all add: gdt0_def)
  show "tss_base (init_gdt tss gdt0) = tss"
  proof (rule bit_eqI)
    fix n assume n: "possible_bit TYPE(u64) n"
    consider "n < 24" | "24 \<le> n" "n < 32" | "32 \<le> n" "n < 64" using n by fastforce
    then show "bit (tss_base (init_gdt tss gdt0)) n = bit tss n"
      by cases (auto simp: tss_base_def init_gdt_def bit_simps bit_set_field g Let_def)
  qed
  have small: "n < 16" if "bit (103 :: int) n" for n
  proof -
    have "take_bit 16 (103 :: int) = 103" by simp
    with that show ?thesis by (metis bit_take_bit_iff)
  qed
  show "tss_limit (init_gdt tss gdt0) = sizeof_tss - 1"
    by (rule bit_eqI) (auto simp: tss_limit_def init_gdt_def bit_simps bit_set_field g Let_def dest: small)
qed


end
