(* ===== verification/Syscall.thy ===== *)
theory Syscall
  imports Process Interrupts
begin

unbundle bit_operations_syntax

text \<open>
  System calls: the dispatcher of \<^verbatim>\<open>sys/syscall.c\<close>, entered and left through \<open>isr_syscall\<close>, and the
  user side of it, the wrappers of \<^verbatim>\<open>include/syscall.h\<close>.

  The state joins the processes (\<open>proc_state\<close>), the console and keyboard (\<open>con\<close>) and the file table
  (\<open>fs\<close>). Strings and buffers are read and written in \<open>cmem (con s)\<close>, the memory as the kernel sees it in
  the current address space. \<open>keys\<close> are the scan codes still to come.
\<close>

record sysstate = proc_state +
  con :: kbd
  fs :: tarfs
  keys :: "u8 list"

text \<open>Addresses fixed by the linker, and what other tasks do to the state until the caller runs again.\<close>

record env =
  isr_addr :: u64
  tar_start :: u64
  tar_end :: u64
  filebuf :: u64
  others :: "sysstate \<Rightarrow> sysstate option"

abbreviation umemory :: "sysstate \<Rightarrow> bytes" where "umemory s \<equiv> cmem (con s)"

abbreviation set_umemory :: "bytes \<Rightarrow> sysstate \<Rightarrow> sysstate" where
  "set_umemory m s \<equiv> s\<lparr>con := (con s)\<lparr>cmem := m\<rparr>\<rparr>"

definition to_string :: "u8 list \<Rightarrow> string" where
  "to_string xs = map (\<lambda>b. char_of (unat b)) xs"

definition of_string :: "string \<Rightarrow> u8 list" where
  "of_string xs = map (\<lambda>c. of_nat (of_char c)) xs"

subsection \<open>The calls\<close>

definition sys_fork :: "env \<Rightarrow> sysstate \<Rightarrow> (u64 \<times> sysstate) option" where
  "sys_fork e s = do { (i, s) \<leftarrow> proc_fork (isr_addr e) (others e) s; Some (scast i, s) }"

definition sys_exit :: "sysstate \<Rightarrow> sysstate option" where
  "sys_exit s = syss_exit s"

text \<open>The text to write is used as a format: a \<open>%\<close> in it asks for an argument that is not there.\<close>

definition sys_write :: "u64 \<Rightarrow> u64 \<Rightarrow> u32 \<Rightarrow> sysstate \<Rightarrow> (u64 \<times> sysstate) option" where
  "sys_write fd_count addr len s =
     (let len = (0 :: u32) in
      if fd_count = 0 \<or> fd_count = 1 then do {
        c \<leftarrow> kprintf addr [] (con s);
        Some (scast len, s\<lparr>con := c\<rparr>) }
      else Some (0, s))"

definition sys_read :: "u64 \<Rightarrow> u64 \<Rightarrow> u64 \<Rightarrow> sysstate \<Rightarrow> (u64 \<times> sysstate) option" where
  "sys_read par1 par2 par3 s = do {
     let len = (- 1 :: u32);
     (len, s) \<leftarrow> (if par1 = 0 then do {
                   (r, ks, c) \<leftarrow> scanf par2 (ucast par3) (keys s) (con s);
                   Some (ucast r, s\<lparr>con := c, keys := ks\<rparr>) }
                 else Some (len, s));
     (len, s) \<leftarrow> (if par1 > 2 then do {
                   (r, m) \<leftarrow> readfile (umemory s) par1 (ucast par3) par2;
                   Some (r, set_umemory m s) }
                 else Some (len, s));
     Some (scast len, s) }"

text \<open>A file that is not found is reported on the console.\<close>

definition openfile_out :: "u64 \<Rightarrow> sysstate \<Rightarrow> (u64 \<times> sysstate) option" where
  "openfile_out name s = do {
     xs \<leftarrow> get_str (umemory s) name;
     r \<leftarrow> openfile (fs s) xs;
     Some (r, if r = 0 then s\<lparr>con := kp_lit [10] (kp_s xs (kp_lit
                [10, 32, 78, 111, 32, 115, 117, 99, 104, 32, 102, 105, 108, 101, 32] (con s)))\<rparr>
              else s) }"

definition opendirect_out :: "u64 \<Rightarrow> sysstate \<Rightarrow> (u64 \<times> sysstate) option" where
  "opendirect_out name s = do {
     xs \<leftarrow> get_str (umemory s) name;
     r \<leftarrow> opendirect (fs s) xs;
     Some (r, if r = 0 then s\<lparr>con := kp_lit
                [78, 111, 32, 115, 117, 99, 104, 32, 100, 105, 114, 101, 99, 116, 111, 114, 121, 10] (con s)\<rparr>
              else s) }"

text \<open>Closing is reported, with the address of the header.\<close>

definition closefile_out :: "u64 \<Rightarrow> sysstate \<Rightarrow> sysstate" where
  "closefile_out file_addr s =
     (let s = set_umemory (closefile (umemory s) file_addr) s
      in s\<lparr>con := kp_lit (of_string '' has been closed'') (print_char file_addr (kp_lit (10 # of_string ''File at '') (con s)))\<rparr>)"

definition closedirect_out :: "u64 \<Rightarrow> sysstate \<Rightarrow> sysstate" where
  "closedirect_out dir_addr s =
     (let s = set_umemory (closedirect (umemory s) dir_addr) s
      in s\<lparr>con := kp_lit (of_string '' has been closed'') (print_char dir_addr (kp_lit (10 # of_string ''Directory at '') (con s)))\<rparr>)"

definition sys_open :: "u64 \<Rightarrow> u64 \<Rightarrow> sysstate \<Rightarrow> (u64 \<times> sysstate) option" where
  "sys_open par1 par2 s = do {
     (r, s) \<leftarrow> openfile_out par1 s;
     let fno = (ucast r :: u32);
     Some (scast fno, s) }"

definition sys_echofiles :: "u64 \<Rightarrow> u32 \<Rightarrow> sysstate \<Rightarrow> (u64 \<times> sysstate) option" where
  "sys_echofiles arg pipe s = do {
     xs \<leftarrow> get_str (umemory s) arg;
     Some (0, s\<lparr>con := kp_lit [10] (kp_s xs (con s))\<rparr>) }"

definition sys_sleep :: "u64 \<Rightarrow> u64" where "sys_sleep seconds = 0"
definition sys_getpid :: u64 where "sys_getpid = 0"
definition sys_getppid :: u64 where "sys_getppid = 0"

definition sys_listprocess :: "sysstate \<Rightarrow> (u64 \<times> sysstate) option" where
  "sys_listprocess s = do { s \<leftarrow> proc_ps s; Some (0, s) }"

definition sys_killprocess :: "u64 \<Rightarrow> sysstate \<Rightarrow> (u64 \<times> sysstate) option" where
  "sys_killprocess p s = do { s \<leftarrow> killprocess s p; Some (0, s) }"

definition sys_listfiles :: "u64 \<Rightarrow> u32 \<Rightarrow> sysstate \<Rightarrow> (u64 \<times> sysstate) option" where
  "sys_listfiles path pipe s = do {
     direct \<leftarrow> get_str (umemory s) path;
     names \<leftarrow> readdirect (fs s) direct;
     let c = (if length direct = 0
              then kp_lit [98, 105, 110, 47, 32, 32, 32, 101, 116, 99, 47, 32, 32, 98, 111, 111, 116, 47, 32,
                     32, 32, 108, 105, 98, 47, 32, 32, 32, 117, 115, 114, 47] (con s)
              else fold (\<lambda>n c. kp_lit [32, 32, 32, 32, 32] (kp_s n c)) names (con s));
     Some (0, s\<lparr>con := kp_lit [10] c\<rparr>) }"

definition sys_catfiles :: "env \<Rightarrow> u64 \<Rightarrow> u32 \<Rightarrow> sysstate \<Rightarrow> (u64 \<times> sysstate) option" where
  "sys_catfiles e path pipe s = do {
     m \<leftarrow> memset (umemory s) (filebuf e) 0 2048;
     let s = set_umemory m s;
     (fno, s) \<leftarrow> openfile_out path s;
     if fno \<noteq> 0 then do {
       (_, m) \<leftarrow> readfile (umemory s) fno 2048 (filebuf e);
       xs \<leftarrow> get_str m (filebuf e);
       let s = set_umemory m s;
       Some (0, s\<lparr>con := kp_lit [8, 10] (kp_s xs (con s))\<rparr>) }
     else Some (0, s) }"

definition sys_waitpid :: "env \<Rightarrow> u64 \<Rightarrow> u64 \<Rightarrow> u64 \<Rightarrow> sysstate \<Rightarrow> (u64 \<times> sysstate) option" where
  "sys_waitpid e childpid status options s = do {
     s \<leftarrow> SYSS_waitpid (others e) s (ucast childpid);
     Some (0, s) }"

definition sys_close :: "u32 \<Rightarrow> sysstate \<Rightarrow> sysstate" where "sys_close fd_count s = s"

definition sys_getcwd :: "u64 \<Rightarrow> u64 \<Rightarrow> sysstate \<Rightarrow> (u64 \<times> sysstate) option" where
  "sys_getcwd buf sz s = do {
     c \<leftarrow> SYSS_getcwd s;
     Some (buf, set_umemory (blit (umemory s) buf (of_string c @ [0])) s) }"

definition sys_chdir :: "u64 \<Rightarrow> sysstate \<Rightarrow> (u64 \<times> sysstate) option" where
  "sys_chdir path s = do {
     (r, s) \<leftarrow> opendirect_out path s;
     let fno = (ucast r :: u32);
     Some (scast fno, s) }"

definition sys_changedir :: "u64 \<Rightarrow> sysstate \<Rightarrow> sysstate option" where
  "sys_changedir path s = do {
     xs \<leftarrow> get_str (umemory s) path;
     SYSS_changedir s (to_string xs) }"

definition sys_execve :: "env \<Rightarrow> u64 \<Rightarrow> u64 \<Rightarrow> u64 \<Rightarrow> sysstate \<Rightarrow> (u64 \<times> sysstate) option" where
  "sys_execve e par1 par2 par3 s = do {
     xs \<leftarrow> get_str (umemory s) par1;
     s \<leftarrow> sanexecve (umemory s) (tar_start e) (tar_end e) par1 (to_string xs) par2 s;
     Some (0, s) }"

subsection \<open>Dispatch\<close>

abbreviation SYS_read :: u64 where "SYS_read \<equiv> 0"
abbreviation SYS_write :: u64 where "SYS_write \<equiv> 1"
abbreviation SYS_open :: u64 where "SYS_open \<equiv> 2"
abbreviation SYS_close :: u64 where "SYS_close \<equiv> 3"
abbreviation SYS_listprocess :: u64 where "SYS_listprocess \<equiv> 7"
abbreviation SYS_killprocess :: u64 where "SYS_killprocess \<equiv> 13"
abbreviation SYS_listfiles :: u64 where "SYS_listfiles \<equiv> 16"
abbreviation SYS_catfiles :: u64 where "SYS_catfiles \<equiv> 17"
abbreviation SYS_echofiles :: u64 where "SYS_echofiles \<equiv> 18"
abbreviation SYS_nanosleep :: u64 where "SYS_nanosleep \<equiv> 35"
abbreviation SYS_getpid :: u64 where "SYS_getpid \<equiv> 39"
abbreviation SYS_fork :: u64 where "SYS_fork \<equiv> 57"
abbreviation SYS_execve :: u64 where "SYS_execve \<equiv> 59"
abbreviation SYS_exit :: u64 where "SYS_exit \<equiv> 60"
abbreviation SYS_wait4 :: u64 where "SYS_wait4 \<equiv> 61"
abbreviation SYS_getcwd :: u64 where "SYS_getcwd \<equiv> 79"
abbreviation SYS_chdir :: u64 where "SYS_chdir \<equiv> 80"
abbreviation SYS_getppid :: u64 where "SYS_getppid \<equiv> 110"
abbreviation SYS_changedir :: u64 where "SYS_changedir \<equiv> 150"
abbreviation SYS_brk :: u64 where "SYS_brk \<equiv> 12"

definition syscall_caller :: "env \<Rightarrow> u64 \<Rightarrow> u64 \<Rightarrow> u64 \<Rightarrow> u64 \<Rightarrow> sysstate \<Rightarrow> (u64 \<times> sysstate) option" where
  "syscall_caller e no_returned par1 par2 par3 s =
     (if no_returned = SYS_open then sys_open par1 par2 s
      else if no_returned = SYS_read then sys_read par1 par2 par3 s
      else if no_returned = SYS_write then sys_write par1 par2 (ucast par3) s
      else if no_returned = SYS_close then Some (0, sys_close (ucast par1) s)
      else if no_returned = SYS_listfiles then sys_listfiles par1 (ucast par2) s
      else if no_returned = SYS_catfiles then sys_catfiles e par1 (ucast par2) s
      else if no_returned = SYS_echofiles then sys_echofiles par1 (ucast par2) s
      else if no_returned = SYS_chdir then sys_chdir par1 s
      else if no_returned = SYS_getcwd then sys_getcwd par1 par2 s
      else if no_returned = SYS_fork then sys_fork e s
      else if no_returned = SYS_execve then sys_execve e par1 par2 par3 s
      else if no_returned = SYS_wait4 then sys_waitpid e par1 par2 par3 s
      else if no_returned = SYS_exit then map_option (Pair 0) (sys_exit s)
      else if no_returned = SYS_changedir then map_option (Pair 0) (sys_changedir par1 s)
      else if no_returned = SYS_listprocess then sys_listprocess s
      else if no_returned = SYS_killprocess then sys_killprocess par1 s
      else Some (- 1, s))"

text \<open>\<open>reg\<close> is the address of the saved registers: \<open>r9\<close>, \<open>r8\<close>, \<open>rsi\<close>, \<open>rbp\<close>, \<open>rdx\<close>, \<open>rcx\<close>,
  \<open>rbx\<close>, \<open>rax\<close>, \<open>rdi\<close>, one word each.\<close>

definition syscall_handler :: "env \<Rightarrow> u64 \<Rightarrow> sysstate \<Rightarrow> sysstate option" where
  "syscall_handler e reg s = do {
     let no_returned = mem s (reg + 56);
     (return_value, s) \<leftarrow> syscall_caller e no_returned (mem s (reg + 64)) (mem s (reg + 16)) (mem s (reg + 32)) s;
     Some (s\<lparr>mem := (mem s)(reg + 56 := return_value)\<rparr>) }"

definition interrupt_handler_syscall :: "env \<Rightarrow> u64 \<Rightarrow> sysstate \<Rightarrow> sysstate option" where
  "interrupt_handler_syscall e reg s = syscall_handler e reg s"

text \<open>\<open>int 0x80\<close> from user mode, up to the return to it.\<close>

definition int_syscall :: "env \<Rightarrow> sysstate \<Rightarrow> sysstate option" where
  "int_syscall e s = do {
     let s = isr_syscall_entry (isr_addr e) 0x08 0 s;
     s \<leftarrow> interrupt_handler_syscall e (rsp (cpu_state s) + 8) s;
     let s = pop (\<lambda>v. rip_update (\<lambda>_. v)) s;
     Some (isr_syscall_exit s) }"

subsection \<open>The wrappers\<close>

text \<open>\<open>syscall_1\<close> and \<open>syscall_2\<close> pass their arguments in \<open>rbx\<close> and \<open>rcx\<close>, where the kernel does not look
  for them.\<close>

definition syscall_with :: "env \<Rightarrow> (cpu \<Rightarrow> cpu) \<Rightarrow> sysstate \<Rightarrow> (u64 \<times> sysstate) option" where
  "syscall_with e reg s = do {
     s \<leftarrow> int_syscall e (s\<lparr>cpu_state := reg (cpu_state s)\<rparr>);
     Some (rax (cpu_state s), s) }"

definition syscall_0 :: "env \<Rightarrow> u64 \<Rightarrow> sysstate \<Rightarrow> (u64 \<times> sysstate) option" where
  "syscall_0 e n = syscall_with e (\<lambda>c. c\<lparr>rax := n\<rparr>)"

definition syscall_1 :: "env \<Rightarrow> u64 \<Rightarrow> u64 \<Rightarrow> sysstate \<Rightarrow> (u64 \<times> sysstate) option" where
  "syscall_1 e n a1 = syscall_with e (\<lambda>c. c\<lparr>rax := n, rbx := a1\<rparr>)"

definition syscall_2 :: "env \<Rightarrow> u64 \<Rightarrow> u64 \<Rightarrow> u64 \<Rightarrow> sysstate \<Rightarrow> (u64 \<times> sysstate) option" where
  "syscall_2 e n a1 a2 = syscall_with e (\<lambda>c. c\<lparr>rax := n, rbx := a1, rcx := a2\<rparr>)"

definition syscall_3 :: "env \<Rightarrow> u64 \<Rightarrow> u64 \<Rightarrow> u64 \<Rightarrow> u64 \<Rightarrow> sysstate \<Rightarrow> (u64 \<times> sysstate) option" where
  "syscall_3 e n a1 a2 a3 = syscall_with e (\<lambda>c. c\<lparr>rax := n, rdi := a1, rsi := a2, rdx := a3\<rparr>)"

subsection \<open>The path of a system call\<close>

text \<open>A call is quiet when it touches neither the kernel stacks nor the processor state, the address space
  or the choice of the running task.\<close>

definition quiet :: "sysstate \<Rightarrow> sysstate \<Rightarrow> bool" where
  "quiet s s' \<longleftrightarrow> mem s' = mem s \<and> cpu_state s' = cpu_state s \<and> CR3 s' = CR3 s \<and> tss_rsp0 s' = tss_rsp0 s \<and>
     current s' = current s \<and> currentRunningTask s' = currentRunningTask s"

lemma quiet_refl [simp]: "quiet s s"
  by (simp add: quiet_def)

lemma quiet_update [simp]:
  "quiet s (s'\<lparr>con := c\<rparr>) = quiet s s'" "quiet s (s'\<lparr>keys := k\<rparr>) = quiet s s'"
  "quiet s (upd_task t f s') = quiet s s'" "quiet s (s'\<lparr>kout := u\<rparr>) = quiet s s'"
  by (simp_all add: quiet_def upd_task_def)

lemma quiet_emit [simp]: "quiet s (emit v s') = quiet s s'"
  by (simp add: emit_def)

lemma proc_ps_loop_quiet:
  assumes "proc_ps_loop s cur = Some s'" "quiet s0 s"
  shows "quiet s0 s'"
proof -
  have "quiet s0 s \<longrightarrow> quiet s0 s'"
  proof (rule proc_ps_loop.raw_induct [OF _ assms(1)])
    fix loop :: "sysstate \<Rightarrow> u64 option \<Rightarrow> sysstate option" and s cur s'
    assume IH: "\<And>s cur s'. loop s cur = Some s' \<Longrightarrow> quiet s0 s \<longrightarrow> quiet s0 s'"
      and step: "(case cur of None \<Rightarrow> Some s
        | Some t \<Rightarrow> let k = tasks s t;
              s = (if length (task_name k) \<noteq> 0 \<and> state k \<noteq> TASK_ENDED
                   then emit (Ps_line (pid k) (ppid k) (task_name k) (getTaskState (ucast (state k)))) s
                   else s)
          in loop s (task_next (tasks s t))) = Some s'"
    then show "quiet s0 s \<longrightarrow> quiet s0 s'" by (auto simp: Let_def split: option.splits if_splits dest!: IH)
  qed
  with assms(2) show ?thesis by simp
qed

lemma proc_ps_quiet: "proc_ps s = Some s' \<Longrightarrow> quiet s s'"
  by (auto simp: proc_ps_def intro: proc_ps_loop_quiet)

lemma syscall_quiet:
  assumes "syscall_caller e n a b c s = Some (r, s')" "n \<notin> {SYS_fork, SYS_execve, SYS_wait4, SYS_exit, SYS_killprocess}"
  shows "quiet s s'"
  using assms
  by (auto simp: syscall_caller_def sys_open_def sys_read_def sys_write_def sys_close_def sys_listfiles_def
      sys_catfiles_def sys_echofiles_def sys_chdir_def sys_getcwd_def sys_changedir_def sys_listprocess_def
      openfile_out_def opendirect_out_def SYSS_changedir_def Let_def
      intro: proc_ps_quiet
      split: if_splits bind_splits option.splits)

lemma int_syscall_returns:
  fixes s :: sysstate and e :: env
  defines "c \<equiv> cpu_state s" and "s1 \<equiv> isr_syscall_entry (isr_addr e) 0x08 0 s"
  assumes "syscall_caller e (rax c) (rdi c) (rsi c) (rdx c) s1 = Some (r, s2)" "mem s2 = mem s1" "cpu_state s2 = cpu_state s1"
  shows "\<exists>s'. int_syscall e s = Some s' \<and> cpu_state s' = c\<lparr>rax := r\<rparr> \<and>
    s' = s2\<lparr>mem := mem s', cpu_state := cpu_state s'\<rparr>"
proof -
  define q where "q = tss_rsp0 s - 112"
  have rsp1: "rsp (cpu_state s1) = q - 8" by (simp add: s1_def isr_syscall_entry_def Let_def q_def)
  have m: "map (\<lambda>i. mem s1 (q + 8 * i)) [0, 1, 2, 3, 4, 5, 6, 7, 8, 9, 10, 11, 12, 13] =
      [r9 c, r8 c, rsi c, rbp c, rdx c, rcx c, rbx c, rax c, rdi c, rip c, cs c, rflags c, rsp c, ss c]"
    by (simp add: s1_def isr_syscall_entry_def Let_def q_def c_def)
  define s3 where "s3 = pop (\<lambda>v. rip_update (\<lambda>_. v)) (s2\<lparr>mem := (mem s2)(q + 56 := r)\<rparr>)"
  have h: "syscall_handler e q s1 = Some (s2\<lparr>mem := (mem s2)(q + 56 := r)\<rparr>)"
    using assms(3) m by (simp add: syscall_handler_def)
  have i: "int_syscall e s = Some (isr_syscall_exit s3)"
    using h rsp1 by (simp add: int_syscall_def interrupt_handler_syscall_def s1_def [symmetric] s3_def)
  have s3: "rsp (cpu_state s3) = q" "mem s3 = (mem s1)(q + 56 := r)"
    using rsp1 assms(4,5) by (simp_all add: s3_def pop_def)
  have "cpu_state (isr_syscall_exit s3) = c\<lparr>rax := r\<rparr>"
    using isr_syscall_exit_frame [of s3 q] s3 m by simp
  moreover have "isr_syscall_exit s3 = s2\<lparr>mem := mem (isr_syscall_exit s3), cpu_state := cpu_state (isr_syscall_exit s3)\<rparr>"
    by (simp add: isr_syscall_exit_def iretq_def pop_def s3_def Let_def del: pop_sel)
  ultimately show ?thesis using i by blast
qed


lemma int_syscall_cases:
  assumes "int_syscall e s = Some s'"
  obtains r s2 where "syscall_caller e (rax (cpu_state s)) (rdi (cpu_state s)) (rsi (cpu_state s)) (rdx (cpu_state s))
    (isr_syscall_entry (isr_addr e) 0x08 0 s) = Some (r, s2)"
proof -
  have "map (\<lambda>i. mem (isr_syscall_entry (isr_addr e) 0x08 0 s) (tss_rsp0 s - 112 + i)) [56, 64, 16, 32] =
      [rax (cpu_state s), rdi (cpu_state s), rsi (cpu_state s), rdx (cpu_state s)]"
    "rsp (cpu_state (isr_syscall_entry (isr_addr e) 0x08 0 s)) = tss_rsp0 s - 120"
    by (simp_all add: isr_syscall_entry_def Let_def)
  with assms that show ?thesis
    by (auto simp: int_syscall_def interrupt_handler_syscall_def syscall_handler_def Let_def split: bind_splits)
qed

lemma entry_sel [simp]:
  "con (isr_syscall_entry i k l s) = con s" "fs (isr_syscall_entry i k l s) = fs s"
  "tasks (isr_syscall_entry i k l s) = tasks s" "CR3 (isr_syscall_entry i k l s) = CR3 s"
  "currentRunningTask (isr_syscall_entry i k l s) = currentRunningTask s" "keys (isr_syscall_entry i k l s) = keys s"
  by (simp_all add: isr_syscall_entry_def push_def Let_def)


text \<open>A wrapper around a quiet call.\<close>

lemma syscall_with_returns:
  fixes s :: sysstate and e :: env and reg :: "cpu \<Rightarrow> cpu"
  defines "c \<equiv> reg (cpu_state s)" and "s1 \<equiv> isr_syscall_entry (isr_addr e) 0x08 0 (s\<lparr>cpu_state := reg (cpu_state s)\<rparr>)"
  assumes "syscall_caller e (rax c) (rdi c) (rsi c) (rdx c) s1 = Some (r, s2)" "mem s2 = mem s1" "cpu_state s2 = cpu_state s1"
  shows "\<exists>s'. syscall_with e reg s = Some (r, s') \<and> cpu_state s' = c\<lparr>rax := r\<rparr> \<and>
    s' = s2\<lparr>mem := mem s', cpu_state := cpu_state s'\<rparr>"
proof -
  let ?s = "s\<lparr>cpu_state := c\<rparr>"
  obtain s' where s': "int_syscall e ?s = Some s'" "cpu_state s' = c\<lparr>rax := r\<rparr>" "s' = s2\<lparr>mem := mem s', cpu_state := cpu_state s'\<rparr>"
    using int_syscall_returns [of e ?s r s2] assms by auto
  then show ?thesis by (intro exI [of _ s']) (simp add: syscall_with_def c_def)
qed

text \<open>Writing a text to the console.\<close>

lemma sys_write_text:
  assumes "term_rel (con s) t" "cstr (umemory s) buf xs" "fits (tcol t) xs" "8 \<notin> set xs" "37 \<notin> set xs"
    and "\<forall>j \<le> length xs. \<not> on_screen (buf + of_nat j)"
  shows "\<exists>s' c. syscall_3 e SYS_write 1 buf n s = Some (0, s') \<and> con s' = c \<and> term_rel c (fold term_putc xs t) \<and>
    (\<forall>a. \<not> on_screen a \<longrightarrow> cmem c a = umemory s a) \<and>
    cpu_state s' = (cpu_state s)\<lparr>rax := 0, rdi := 1, rsi := buf, rdx := n\<rparr>"
proof -
  let ?c = "(cpu_state s)\<lparr>rax := SYS_write, rdi := 1, rsi := buf, rdx := n\<rparr>"
  let ?s1 = "isr_syscall_entry (isr_addr e) 0x08 0 (s\<lparr>cpu_state := ?c\<rparr>)"
  obtain c where c: "kprintf buf [] (con s) = Some c" "term_rel c (fold term_putc xs t)"
    "\<forall>a. \<not> on_screen a \<longrightarrow> cmem c a = umemory s a"
    using kprintf_text [OF assms, of "[]"] by blast
  have "syscall_caller e (rax ?c) (rdi ?c) (rsi ?c) (rdx ?c) ?s1 = Some (0, ?s1\<lparr>con := c\<rparr>)"
    using c(1) by (simp add: syscall_caller_def sys_write_def)
  then obtain s' where s': "syscall_3 e SYS_write 1 buf n s = Some (0, s')" "cpu_state s' = ?c\<lparr>rax := 0\<rparr>"
    "s' = ?s1\<lparr>con := c, mem := mem s', cpu_state := cpu_state s'\<rparr>"
    using syscall_with_returns [of e "\<lambda>c. c\<lparr>rax := SYS_write, rdi := 1, rsi := buf, rdx := n\<rparr>" s 0 "?s1\<lparr>con := c\<rparr>"]
    unfolding syscall_3_def by auto
  have "con s' = c" by (subst s'(3)) simp
  with s'(1,2) c(2,3) show ?thesis by simp
qed

text \<open>Showing a file: the bytes of the file appear as glyphs on the current line, the last one is erased, and a new
  line begins.\<close>

lemma sys_catfiles_shows:
  assumes "term_rel (con s) t" "cstr (umemory s) path name" "openfile (fs s) name = Some h" "h \<noteq> 0"
    and "size_field (umemory s) h (length xs)" "arr (umemory s) (h + 512) xs" "0 \<notin> set xs" "xs \<noteq> []" "tcol t + length xs < 80"
    and "region (filebuf e) 2048 \<inter> region path (Suc (length name)) = {}" "region (filebuf e) 2048 \<inter> region h (512 + length xs) = {}"
    and "\<forall>a \<in> region (filebuf e) 2048. \<not> on_screen a"
  shows "\<exists>c. sys_catfiles e path pipe s = Some (0, s\<lparr>con := c\<rparr>) \<and> term_rel c (term_putc 10 (term_back (fold term_glyph xs t))) \<and>
    (\<forall>a. \<not> on_screen a \<longrightarrow> a \<notin> region (filebuf e) 2048 \<longrightarrow> cmem c a = umemory s a)"
proof -
  let ?m1 = "\<lambda>a. if a \<in> region (filebuf e) 2048 then 0 else umemory s a"
  let ?m2 = "blit ?m1 (filebuf e) (xs @ [0])"
  let ?c1 = "(con s)\<lparr>cmem := ?m2\<rparr>"
  have ms: "memset (umemory s) (filebuf e) 0 2048 = Some ?m1" using memset_spec [of 2048 "umemory s" "filebuf e" 0] by (simp cong: if_cong)
  have name: "get_str ?m1 path = Some name"
    by (intro get_str_spec cstr_cong [OF assms(2)]) (use assms(10) in auto)
  have sub: "region h 512 \<subseteq> region h (512 + length xs)" "region (h + 512) (length xs) \<subseteq> region h (512 + length xs)"
    using region_sub [of 512 "length xs" "512 + length xs" h] assms(9) by (simp_all add: region_mono)
  have sz: "size_field ?m1 h (length xs)" by (rule size_field_cong [OF assms(5)]) (use assms(11) sub(1) in auto)
  have xs: "arr ?m1 (h + 512) xs"
    by (subst arr_cong [where m' = "umemory s"]) (use assms(6,9,11) sub(2) in auto)
  have "region (filebuf e) (length xs) \<subseteq> region (filebuf e) 2048" by (rule region_mono) (use assms(9) in simp)
  then have rd: "readfile ?m1 h 2048 (filebuf e) = Some (- 1, ?m2)"
    using readfile_blit [OF sz _ xs, of 2048 "filebuf e"] assms(9,11) sub(2) by fastforce
  have out: "a \<notin> region (filebuf e) 2048 \<Longrightarrow> ?m2 a = umemory s a" for a
    using region_mono [of "length (xs @ [0])" 2048 "filebuf e"] assms(9) by (subst blit_outside) auto
  have "cstr ?m2 (filebuf e) xs" by (rule cstr_blit) (use assms(7,9) in simp_all)
  then have str: "get_str ?m2 (filebuf e) = Some xs" by (rule get_str_spec)
  have r1: "term_rel ?c1 t" by (rule term_rel_cmem [OF assms(1)]) (use out assms(12) in blast)
  note r2 = term_rel_s [OF r1 assms(9,7)]
  have "tcol (fold term_glyph xs t) = tcol t + length xs" by (induction xs arbitrary: t) (simp_all add: term_glyph_def)
  with assms(8) have "0 < tcol (fold term_glyph xs t)" by simp
  note r3 = term_rel_back_newline [OF r2(1) this]
  have "sys_catfiles e path pipe s = Some (0, s\<lparr>con := kp_lit [8, 10] (kp_s xs ?c1)\<rparr>)"
    using ms name assms(3,4) rd str by (simp add: sys_catfiles_def openfile_out_def Let_def del: kp_lit.simps)
  with r3 r2(2) out show ?thesis by (intro exI [of _ "kp_lit [8, 10] (kp_s xs ?c1)"]) (simp del: kp_lit.simps)
qed

subsection \<open>Witnesses\<close>

text \<open>A call of number 12, \<open>brk\<close>, which has no handler.\<close>

definition demo_env :: env where
  "demo_env = \<lparr>isr_addr = 0xFFFFFFFF80200100, tar_start = 0, tar_end = 0, filebuf = 0, others = Some\<rparr>"

definition demo_sys :: sysstate where
  "demo_sys = (proc_state.extend demo_proc
     (sysstate.fields demo_kbd \<lparr>tarfs_fs = (\<lambda>_. undefined), num_files = 0, tarfs_cwd = []\<rparr> []))
     \<lparr>tss_rsp0 := kstack_addr 0x6000 511, cpu_state := demo_cpu\<lparr>rax := SYS_brk\<rparr>\<rparr>"



end
