(* ===== verification/PageFault.thy ===== *)
theory PageFault
  imports Process
begin

unbundle bit_operations_syntax

text \<open>
  Page faults: the handler of \<^verbatim>\<open>sys/isr.c\<close>, which gives a process its own copy of a page it shares
  since \<open>fork\<close>, and the entry and exit code around it (\<open>page_fault_handler\<close> of \<^verbatim>\<open>sys/isr.s\<close>).
\<close>

subsection \<open>The handler\<close>

text \<open>The copy of the page: \<open>memcpy\<close> by virtual addresses. Both blocks are whole pages, so they do not
  overlap unless they are equal, and the direction of the copy makes no difference.\<close>

definition vmove_page :: "u64 \<Rightarrow> u64 \<Rightarrow> 'a proc_state_scheme \<Rightarrow> 'a proc_state_scheme option" where
  "vmove_page dest src s = vmove dest src 4096 s"

definition pg_fault_handler :: "u64 \<Rightarrow> 'a proc_state_scheme \<Rightarrow> 'a proc_state_scheme option" where
  "pg_fault_handler faultAddr s = do {
     pte_entry \<leftarrow> phyAddr s faultAddr;
     if pte_entry AND PTE_COW \<noteq> 0 then do {
       (temp_vaddr, s) \<leftarrow> kmalloc s 4096;
       paddr \<leftarrow> phyAddr s (get_address temp_vaddr);
       let faultAddr = (faultAddr div 4096) * 4096;
       s \<leftarrow> vmove_page temp_vaddr faultAddr s;
       map_process s faultAddr paddr }
     else Some s }"

text \<open>A fault in user mode: the processor also pushes an error code, which the exit code drops again.
  \<open>cr2\<close> is the faulting address.\<close>

definition page_fault_entry :: "u64 \<Rightarrow> u64 \<Rightarrow> u64 \<Rightarrow> u64 \<Rightarrow> 'a kernel_scheme \<Rightarrow> 'a kernel_scheme" where
  "page_fault_entry isr kcs kss err s =
     push (0x13 + isr) (push_regs (cpu_state s) (push err (int_frame isr kcs kss s)))"

definition page_fault_exit :: "'a kernel_scheme \<Rightarrow> 'a kernel_scheme" where
  "page_fault_exit s =
     iretq (let s = pop_regs s in s\<lparr>cpu_state := (cpu_state s)\<lparr>rsp := rsp (cpu_state s) + 8\<rparr>\<rparr>)"

definition page_fault_handler ::
    "u64 \<Rightarrow> u64 \<Rightarrow> u64 \<Rightarrow> u64 \<Rightarrow> u64 \<Rightarrow> 'a proc_state_scheme \<Rightarrow> 'a proc_state_scheme option" where
  "page_fault_handler isr kcs kss err cr2 s = do {
     s \<leftarrow> pg_fault_handler cr2 (page_fault_entry isr kcs kss err s);
     let s = pop (\<lambda>v. rip_update (\<lambda>_. v)) s;
     Some (page_fault_exit s) }"

subsection \<open>Bytes of a page\<close>

lemma page_byte:
  assumes "aligned a" "k < 4096"
  shows "unat (a + of_nat k :: u64) = unat a + k" "vpath (a + of_nat k) = vpath a" "a + of_nat k AND 0xFFF = of_nat k"
proof -
  have k: "of_nat k AND 0xFFF = (of_nat k :: u64)" "unat (of_nat k :: u64) = k"
    using assms(2) by (simp_all add: word_unat_eq_iff unat_and_page_mask unsigned_of_nat take_bit_nat_eq_self)
  show u: "unat (a + of_nat k) = unat a + k"
    using unat_frame_offset [OF assms(1), of "of_nat k"] assms(2) by (simp add: k)
  obtain q where "unat a = 4096 * q" using assms(1) by (rule aligned_obtain)
  then have q: "(unat a + k) div 4096 = unat a div 4096" "(unat a + k) mod 4096 = k"
    using assms(2) by simp_all
  show "vpath (a + of_nat k) = vpath a" by (rule vpath_page_eq) (simp add: u q)
  show "a + of_nat k AND 0xFFF = of_nat k" by (simp add: word_unat_eq_iff unat_and_page_mask u q k(2))
qed

lemma page_start:
  "aligned (a div 4096 * 4096)" "vpath (a div 4096 * 4096) = vpath a"
  using unat_page_start [of a] by (auto simp: aligned_iff_mod intro: vpath_page_eq)

text \<open>The bytes of a frame.\<close>

definition frame_bytes :: "u64 \<Rightarrow> u64 set" where
  "frame_bytes f = (\<lambda>k. f + of_nat k) ` {..<4096}"

lemma get_address_aligned [simp]: "aligned (get_address e)"
  by (simp add: get_address_def frame_aligned)

lemma frame_byte_inj:
  assumes "aligned f" "aligned g" "k < 4096" "l < 4096" "f + of_nat k = g + of_nat l"
  shows "f = g \<and> k = l"
proof -
  obtain q r where q: "unat f = 4096 * q" "unat g = 4096 * r" using assms(1,2) by (metis aligned_obtain)
  have e: "4096 * q + k = 4096 * r + l"
    using arg_cong [OF assms(5), of unat] page_byte(1) [OF assms(1,3)] page_byte(1) [OF assms(2,4)] q by simp
  then have "(4096 * q + k) div 4096 = (4096 * r + l) div 4096" by simp
  then have "q = r" using assms(3,4) by simp
  then show ?thesis using e q by (simp add: word_unat_eq_iff)
qed

lemma vmove_page_steps:
  assumes "aligned dest" "translate s (CR3 s) dest = Some d" "aligned src" "translate s (CR3 s) src = Some e"
    and "get_address d \<noteq> get_address e" "n \<le> 4096"
  shows "\<exists>m. vmove dest src n s = Some (s\<lparr>umem := m\<rparr>) \<and>
    (\<forall>k < n. m (get_address d + of_nat k) = umem s (get_address e + of_nat k)) \<and>
    (\<forall>p. p \<notin> frame_bytes (get_address d) \<longrightarrow> m p = umem s p)"
  using assms(6)
proof (induction n)
  case 0
  show ?case by (intro exI [of _ "umem s"]) (simp add: vmove_def)
next
  case (Suc n)
  then obtain m where m: "vmove dest src n s = Some (s\<lparr>umem := m\<rparr>)"
    "\<And>k. k < n \<Longrightarrow> m (get_address d + of_nat k) = umem s (get_address e + of_nat k)"
    "\<And>p. p \<notin> frame_bytes (get_address d) \<Longrightarrow> m p = umem s p"
    by auto
  have n: "n < 4096" using Suc.prems by simp
  let ?m = "m(get_address d + of_nat n := umem s (get_address e + of_nat n))"
  have "get_address e + of_nat n \<notin> frame_bytes (get_address d)"
    using frame_byte_inj [of "get_address e" "get_address d" n] n assms(5) by (auto simp: frame_bytes_def)
  then have "m (get_address e + of_nat n) = umem s (get_address e + of_nat n)" by (rule m(3))
  then have "vmove dest src (Suc n) s = Some (s\<lparr>umem := ?m\<rparr>)"
    using m(1) page_byte [OF assms(1) n] page_byte [OF assms(3) n] assms(2,4)
    by (simp add: vmove_def for_each_append vload_def vstore_def translate_def)
  moreover have "?m (get_address d + of_nat k) = umem s (get_address e + of_nat k)" if "k < Suc n" for k
    using that m(2) [of k] frame_byte_inj [of "get_address d" "get_address d" k n] n by (cases "k = n") auto
  moreover have "?m p = umem s p" if "p \<notin> frame_bytes (get_address d)" for p
    using m(3) [OF that] that n by (auto simp: frame_bytes_def)
  ultimately show ?case by blast
qed

lemma vmove_page_spec:
  assumes "aligned dest" "translate s (CR3 s) dest = Some d" "aligned src" "translate s (CR3 s) src = Some e"
    and "get_address d \<noteq> get_address e"
  obtains m where "vmove_page dest src s = Some (s\<lparr>umem := m\<rparr>)"
    "\<And>k. k < 4096 \<Longrightarrow> m (get_address d + of_nat k) = umem s (get_address e + of_nat k)"
    "\<And>p. p \<notin> frame_bytes (get_address d) \<Longrightarrow> m p = umem s p"
  using vmove_page_steps [OF assms order_refl] unfolding vmove_page_def by blast

lemma vm_wf_umem [simp]: "vm_wf own fl (s\<lparr>umem := m\<rparr>) = vm_wf own fl s"
  by (simp add: vm_wf_def tables_ok_def free_ok_def flist_def pt_entry_def)


lemma get_address_flags [simp]: "get_address (e OR 7) = get_address e"
proof -
  have "(7 :: u64) AND FRAME = 0" by simp
  then show ?thesis unfolding get_address_def bit.conj_disj_distrib2 by simp
qed

lemma get_address_idem: "aligned a \<Longrightarrow> get_address a = a"
  using address_or_flags [of a] by simp

subsection \<open>Page tables that are not shared\<close>

lemma vm_grows_walk:
  assumes "vm_grows own s own' s'" "tables_ok own s" "own r = Some q" "set is \<subseteq> {..<512}" "length q + length is \<le> 3"
    and "walk s r is = Some e"
  shows "walk s' r is = Some e"
  using assms(3-6)
proof (induction "is" arbitrary: r q)
  case (Cons i js)
  have i: "present (pt_entry s r i)" "i < 512" using Cons.prems by (cases js; auto split: if_splits)+
  have e: "pt_entry s' r i = pt_entry s r i" by (rule vm_growsD(3) [OF assms(1) Cons.prems(1) i(2,1)])
  show ?case
  proof (cases "js = []")
    case False
    have "own (get_address (pt_entry s r i)) = Some (q @ [i])"
      by (rule tables_ok_next [OF assms(2) Cons.prems(1) _ i(2,1)]) (use Cons.prems(3) in simp)
    from Cons.IH [OF this] Cons.prems False i e show ?thesis by (simp add: walk_Cons)
  qed (use Cons.prems(4) e i in simp)
qed simp

text \<open>A mapping leaves another address space's translation of the same address alone when that goes
  through a page table of its own.\<close>

lemma map_at_other_table:
  assumes "vm_wf own fl s" "own root = Some []" "3 \<le> length fl" "map_at s root va pa = Some s'" "own r = Some []"
    and "walk s root (upath va) = Some u" "walk s r (upath va) = Some u'" "get_address u' \<noteq> get_address u"
  shows "translate s' r va = translate s r va"
proof -
  obtain t1 s3 own3 fl3 e where
    3: "leaf_table s root va = Some (t1, s3)" "vm_wf own3 fl3 s3" "vm_grows own s own3 s3" "own3 t1 = Some (upath va)"
      "walk s3 root (upath va) = Some e" "get_address e = t1"
    by (rule leaf_table_spec [OF assms(1-3)])
  have ok: "tables_ok own s" using assms(1) by (simp add: vm_wf_def)
  have w: "walk s3 root (upath va) = Some u" "walk s3 r (upath va) = Some u'"
    by (rule vm_grows_walk [OF 3(3) ok]; use assms(2,5-7) in \<open>simp add: upath_def\<close>)+
  have s': "s' = pt_write s3 t1 (getPTIndex va) (pa OR 7)"
    using assms(4) by (auto simp: map_at_leaf 3(1) pt_set_def split: if_splits)
  note own3 = vm_growsD(1) [OF 3(3)]
  have "walk s' r (upath va) = Some u'"
    using leaf_write_spec(4) [OF 3(2) own3 [OF assms(2)] 3(4-6) s' own3 [OF assms(5)]] w(2) by simp
  moreover have "pt_entry s' (get_address u') (getPTIndex va) = pt_entry s3 (get_address u') (getPTIndex va)"
    using 3(5,6) w(1) assms(8) get_address_aligned [of e] by (simp add: s' pt_entry_update)
  ultimately have "translate s' r va = translate s3 r va"
    using w(2) by (simp add: translate_def vpath_upath walk_snoc)
  then show ?thesis using vm_growsD(2) [OF 3(3) assms(5)] by simp
qed

subsection \<open>Copy on write\<close>

text \<open>The handler copies the shared page to the page at the head of the free list and maps that.\<close>

lemma cow_fault_copy:
  assumes "vm_wf own (x # fl) s" "own (CR3 s) = Some []" "3 \<le> length fl"
    and "translate s (CR3 s) va = Some e" "e AND PTE_COW \<noteq> 0" "own (get_address e) \<noteq> None"
    and "f = page_addr (pages s x)" "translate s (CR3 s) f = Some ef" "get_address ef = f"
  obtains s' own' fl' where "pg_fault_handler va s = Some s'" "vm_wf own' fl' s'" "own \<subseteq>\<^sub>m own'"
    "CR3 s' = CR3 s" "cpu_state s' = cpu_state s" "tss_rsp0 s' = tss_rsp0 s"
    "translate s' (CR3 s) va = Some (ef OR 7)" "get_address e \<noteq> f"
    "\<And>k. k < 4096 \<Longrightarrow> umem s' (f + of_nat k) = umem s (get_address e + of_nat k)"
    "\<And>p. p \<notin> frame_bytes f \<Longrightarrow> umem s' p = umem s p"
    "\<And>r va'. own r = Some [] \<Longrightarrow> vpath va' \<noteq> vpath va \<Longrightarrow> translate s' r va' = translate s r va'"
    "\<And>u q j. own u = Some q \<Longrightarrow> length q = 3 \<Longrightarrow> q \<noteq> upath va \<Longrightarrow> j < 512 \<Longrightarrow> pt_entry s' u j = pt_entry s u j"
    "\<And>r u u'. own r = Some [] \<Longrightarrow> walk s (CR3 s) (upath va) = Some u \<Longrightarrow> walk s r (upath va) = Some u' \<Longrightarrow>
      get_address u' \<noteq> get_address u \<Longrightarrow> translate s' r va = translate s r va"
proof -
  let ?a = "va div 4096 * 4096"
  have ok: "tables_ok own s" "free_ok own (x # fl) s" using assms(1) by (auto simp: vm_wf_def)
  have f: "aligned f" "own f = None" using free_okD [OF ok(2), of x] assms(7) by simp_all
  have ne: "get_address e \<noteq> f" using f(2) assms(6) by auto
  have pa: "vpath ?a = vpath va" "upath ?a = upath va" using page_start(2) [of va] by (simp_all add: vpath_upath)
  define s0 where "s0 = s\<lparr>free_list := nxt (pages s x)\<rparr>"
  define own0 where "own0 = own(f \<mapsto> [0, 0, 0])"
  have le0: "own \<subseteq>\<^sub>m own0" using f(2) by (auto simp: own0_def map_le_def)
  have wf0: "vm_wf own0 fl s0" using vm_wf_take_page [OF assms(1)] by (simp add: own0_def s0_def assms(7))
  have s0: "translate s0 r a = translate s r a" "CR3 s0 = CR3 s" "umem s0 = umem s" for r a by (simp_all add: s0_def)
  have o0: "own0 (CR3 s) = Some []" using map_le_Some [OF le0 assms(2)] .
  have ph: "phyAddr s va = Some e" using phyAddr_translate [OF ok(1) assms(2,4)] .
  have "tables_ok own0 s0" using wf0 by (simp add: vm_wf_def)
  then have ph0: "phyAddr s0 f = Some ef" by (rule phyAddr_translate) (simp_all add: o0 s0 assms(8))
  have al: "kmalloc s 4096 = Some (f, s0)" using page_alloc_addr_head [OF assms(1)] by (simp add: kmalloc_page s0_def assms(7))
  have ta: "translate s (CR3 s) ?a = Some e" using assms(4) pa by (simp add: translate_def)
  obtain m where m: "vmove_page f ?a s0 = Some (s0\<lparr>umem := m\<rparr>)"
    "\<And>k. k < 4096 \<Longrightarrow> m (f + of_nat k) = umem s (get_address e + of_nat k)"
    "\<And>p. p \<notin> frame_bytes f \<Longrightarrow> m p = umem s p"
    by (rule vmove_page_spec [of f s0 ef ?a e]) (use f page_start ta ne in \<open>auto simp: s0 assms(8,9)\<close>)
  define s1 where "s1 = s0\<lparr>umem := m\<rparr>"
  have wf1: "vm_wf own0 fl s1" and o1: "own0 (CR3 s1) = Some []" using wf0 o0 by (simp_all add: s1_def s0)
  obtain s' own' fl' where s': "map_at s1 (CR3 s1) ?a ef = Some s'" "vm_wf own' fl' s'" "own0 \<subseteq>\<^sub>m own'"
    "same_but_mem s1 s'" "translate s' (CR3 s1) ?a = Some (ef OR 7)"
    "\<And>r va'. own0 r = Some [] \<Longrightarrow> vpath va' \<noteq> vpath ?a \<Longrightarrow> translate s' r va' = translate s1 r va'"
    by (rule map_at_spec [OF wf1 o1 assms(3)]) blast
  have c: "CR3 s' = CR3 s" "umem s' = m" "cpu_state s' = cpu_state s" "tss_rsp0 s' = tss_rsp0 s"
    using s'(4) by (cases s; cases s'; simp add: same_but_mem_def s1_def s0_def)+
  have run: "pg_fault_handler va s = Some s'"
    using ph assms(5) al ph0 m(1) s'(1) f(1)
    by (simp add: pg_fault_handler_def get_address_idem map_process_def get_CR3_def s0 s1_def)
  have "pt_entry s' u j = pt_entry s u j" if "own u = Some q" "length q = 3" "q \<noteq> upath va" "j < 512" for u q j
    using map_at_keeps_leaf [OF wf1 o1 assms(3) s'(1) map_le_Some [OF le0 that(1)] that(2) _ that(4)] that(3)
    by (simp add: pa s1_def s0_def pt_entry_def)
  moreover have "translate s' r va' = translate s r va'" if "own r = Some []" "vpath va' \<noteq> vpath va" for r va'
    using s'(6) map_le_Some [OF le0 that(1)] that(2) pa by (simp add: s1_def s0)
  moreover have "translate s' r va = translate s r va" if "own r = Some []" "walk s (CR3 s) (upath va) = Some u"
    "walk s r (upath va) = Some u'" "get_address u' \<noteq> get_address u" for r u u'
    using map_at_other_table [OF wf1 o1 assms(3) s'(1) map_le_Some [OF le0 that(1)], of u u'] that(2-4) pa
    by (simp add: s1_def s0_def translate_def)
  moreover have "translate s' (CR3 s) va = Some (ef OR 7)" using s'(5) pa by (simp add: s1_def s0 translate_def)
  moreover have "own \<subseteq>\<^sub>m own'" using le0 s'(3) by (rule map_le_trans)
  ultimately show thesis using run s'(2) ne c m(2,3) by (intro that [of s' own' fl']) simp_all
qed

subsection \<open>The stack of the handler\<close>

text \<open>Pushes into a page at the lowest level that is not on the way to an address change neither the
  tables nor the translation of the address.\<close>

lemma push_keeps:
  assumes "vm_wf own fl s" "own k = Some q" "length q = 3" "rsp (cpu_state s) - 8 = k + 8 * j" "j < 512"
  shows "vm_wf own fl (push v s)"
    and "own r = Some [] \<Longrightarrow> upath va \<noteq> q \<Longrightarrow> translate (push v s) r va = translate s r va"
proof -
  have m: "mem (push v s) = mem (pt_write s k j v)" "pages (push v s) = pages (pt_write s k j v)"
    "free_list (push v s) = free_list (pt_write s k j v)"
    using assms(4) by (simp_all add: push_def pt_write_def)
  have "vm_wf own fl (push v s) = vm_wf own fl (pt_write s k j v)" by (rule vm_wf_cong [OF m])
  then show "vm_wf own fl (push v s)" using vm_wf_write_leaf [OF assms(1-3,5)] by simp
  assume r: "own r = Some []" and u: "upath va \<noteq> q"
  have ok: "tables_ok own s" using assms(1) by (simp add: vm_wf_def)
  have "walk (pt_write s k j v) r (vpath va) = walk s r (vpath va)"
  proof (rule walk_write_other [OF ok assms(2,5) r])
    show "\<not> prefix (q @ [j]) ([] @ vpath va)"
      using u assms(3) by (auto simp: vpath_upath upath_def prefix_def Cons_eq_append_conv)
  qed (auto dest: vpath_less)
  then show "translate (push v s) r va = translate s r va"
    using walk_mem_cong [OF m(1)] by (simp add: translate_def)
qed

lemma pushes_keep:
  assumes "vm_wf own fl s" "own k = Some q" "length q = 3"
    and "\<And>i. i < length vs \<Longrightarrow> \<exists>j < 512. rsp (cpu_state s) - 8 * of_nat (Suc i) = k + 8 * j"
  shows "vm_wf own fl (fold push vs s) \<and>
    (\<forall>r va. own r = Some [] \<longrightarrow> upath va \<noteq> q \<longrightarrow> translate (fold push vs s) r va = translate s r va)"
  using assms(1,4)
proof (induction vs arbitrary: s)
  case (Cons v vs)
  obtain j where j: "j < 512" "rsp (cpu_state s) - 8 = k + 8 * j" using Cons.prems(2) [of 0] by auto
  note p = push_keeps [OF Cons.prems(1) assms(2,3) j(2,1), where v = v]
  have "\<exists>j < 512. rsp (cpu_state (push v s)) - 8 * of_nat (Suc i) = k + 8 * j" if "i < length vs" for i
    using Cons.prems(2) [of "Suc i"] that by (simp add: push_def algebra_simps)
  from Cons.IH [OF p(1) this] p(2) show ?case by simp
qed simp

text \<open>The words on the stack after the entry, and what the exit code makes of them.\<close>

definition fault_words :: "u64 \<Rightarrow> u64 \<Rightarrow> cpu \<Rightarrow> u64 list" where
  "fault_words isr err c = [ss c, rsp c, rflags c, cs c, rip c, err, rdi c, rax c, rbx c, rcx c, rdx c, rbp c,
     rsi c, r8 c, r9 c, 0x13 + isr]"

lemma page_fault_entry_pushes:
  "page_fault_entry isr kcs kss err s = fold push (fault_words isr err (cpu_state s))
     (s\<lparr>cpu_state := (cpu_state s)\<lparr>rsp := tss_rsp0 s, cs := kcs, ss := kss, rip := isr\<rparr>\<rparr>)"
  by (simp add: page_fault_entry_def fault_words_def Let_def)

lemma fold_push_sel [simp]:
  "CR3 (fold push vs s) = CR3 s" "tasks (fold push vs s) = tasks s" "pages (fold push vs s) = pages s"
  "umem (fold push vs u) = umem u" "tss_rsp0 (fold push vs s) = tss_rsp0 s"
  by (induction vs arbitrary: s u) (simp_all add: push_def)

lemma fold_push_rsp [simp]: "rsp (cpu_state (fold push vs s)) = rsp (cpu_state s) - 8 * of_nat (length vs)"
  by (induction vs arbitrary: s) (simp_all add: distrib_left diff_diff_eq)

lemma page_fault_exit_frame:
  assumes "rsp (cpu_state s) = a - 120"
    and "map (\<lambda>i. mem s (a - 8 * i)) [1, 2, 3, 4, 5, 7, 8, 9, 10, 11, 12, 13, 14, 15] =
      [ss c, rsp c, rflags c, cs c, rip c, rdi c, rax c, rbx c, rcx c, rdx c, rbp c, rsi c, r8 c, r9 c]"
  shows "cpu_state (page_fault_exit s) = c" "mem (page_fault_exit s) = mem s"
  using assms by (cases "cpu_state s"; cases c; simp add: page_fault_exit_def iretq_def pop_def Let_def del: pop_sel)+

lemma fault_words_mem:
  "map (\<lambda>i. mem (page_fault_entry isr kcs kss err s) (tss_rsp0 s - 8 * i)) [1, 2, 3, 4, 5, 7, 8, 9, 10, 11, 12, 13, 14, 15] =
    (let c = cpu_state s in [ss c, rsp c, rflags c, cs c, rip c, rdi c, rax c, rbx c, rcx c, rdx c, rbp c, rsi c, r8 c, r9 c])"
  by (simp add: page_fault_entry_def Let_def)

lemma page_fault_exit_sel [simp]:
  "CR3 (page_fault_exit s) = CR3 s" "umem (page_fault_exit u) = umem u" "mem (page_fault_exit s) = mem s"
  by (simp_all add: page_fault_exit_def iretq_def pop_def Let_def)

text \<open>C5. Copy on write: a process writes to a page that it shares since a fork, so that the page is
  marked, and the processor enters \<open>page_fault_handler\<close> from user mode; the kernel stack lies in a page \<open>k\<close>
  of its own and the next free page \<open>f\<close> is mapped at its own address. Then the handler returns to the
  faulting instruction with every register as it was, the page is present and writable for the user in
  the frame \<open>f\<close> alone, which holds the same 4096 bytes, the frame shared so far and all other user memory
  is unchanged, and no other page's translation is, in any address space.\<close>

theorem cow_fault_resumes:
  assumes "vm_wf own (x # fl) s" "own (CR3 s) = Some []" "3 \<le> length fl"
    and "translate s (CR3 s) va = Some e" "e AND PTE_COW \<noteq> 0" "own (get_address e) \<noteq> None"
    and "f = page_addr (pages s x)" "translate s (CR3 s) f = Some ef" "get_address ef = f"
    and "own k = Some q" "length q = 3" "q \<noteq> upath va" "q \<noteq> upath f"
    and "\<forall>i \<in> {1..16}. \<exists>j < 512. tss_rsp0 s - 8 * i = k + 8 * j"
  shows "\<exists>s'. page_fault_handler isr kcs kss err va s = Some s' \<and>
    cpu_state s' = cpu_state s \<and> CR3 s' = CR3 s \<and>
    translate s' (CR3 s') va = Some (ef OR (PTE_P OR PTE_W OR PTE_U)) \<and>
    get_address (ef OR (PTE_P OR PTE_W OR PTE_U)) = f \<and> get_address e \<noteq> f \<and>
    (\<forall>k < 4096. vload (va div 4096 * 4096 + of_nat k) s' = vload (va div 4096 * 4096 + of_nat k) s) \<and>
    (\<forall>p. p \<notin> frame_bytes f \<longrightarrow> umem s' p = umem s p) \<and>
    (\<forall>r va'. own r = Some [] \<longrightarrow> vpath va' \<noteq> vpath va \<longrightarrow> upath va' \<noteq> q \<longrightarrow> translate s' r va' = translate s r va')"
proof -
  define w where "w = s\<lparr>cpu_state := (cpu_state s)\<lparr>rsp := tss_rsp0 s, cs := kcs, ss := kss, rip := isr\<rparr>\<rparr>"
  define s1 where "s1 = page_fault_entry isr kcs kss err s"
  have w: "vm_wf own (x # fl) w = vm_wf own (x # fl) s" "translate w r a = translate s r a" for r a
    by (rule vm_wf_cong translate_mem_cong; simp add: w_def)+
  have s1: "s1 = fold push (fault_words isr err (cpu_state s)) w"
    by (simp add: s1_def w_def page_fault_entry_pushes)
  have slots: "\<exists>j < 512. rsp (cpu_state w) - 8 * of_nat (Suc i) = k + 8 * j"
    if "i < length (fault_words isr err (cpu_state s))" for i
  proof -
    have "i < 16" using that by (simp add: fault_words_def)
    then have "of_nat (Suc i) \<in> {1 .. 16 :: u64}" by (auto simp: word_le_nat_alt unsigned_of_nat take_bit_nat_eq_self simp del: of_nat_Suc)
    then show ?thesis using assms(14) by (auto simp: w_def simp del: of_nat_Suc)
  qed
  have keep: "vm_wf own (x # fl) s1" "own r = Some [] \<Longrightarrow> upath a \<noteq> q \<Longrightarrow> translate s1 r a = translate s r a" for r a
    using pushes_keep [of own "x # fl" w k q, OF _ assms(10,11) slots] assms(1) w by (auto simp: s1)
  have sel: "CR3 s1 = CR3 s" "pages s1 = pages s" "umem s1 = umem s" "tss_rsp0 s1 = tss_rsp0 s"
    by (simp_all add: s1 w_def)
  have top: "rsp (cpu_state s1) = tss_rsp0 s - 128" by (simp add: s1 w_def) (simp add: fault_words_def)
  obtain s2 own' fl' where s2: "pg_fault_handler va s1 = Some s2" "CR3 s2 = CR3 s1" "cpu_state s2 = cpu_state s1"
    "translate s2 (CR3 s1) va = Some (ef OR 7)" "get_address e \<noteq> f"
    "\<And>k. k < 4096 \<Longrightarrow> umem s2 (f + of_nat k) = umem s1 (get_address e + of_nat k)"
    "\<And>p. p \<notin> frame_bytes f \<Longrightarrow> umem s2 p = umem s1 p"
    "\<And>r va'. own r = Some [] \<Longrightarrow> vpath va' \<noteq> vpath va \<Longrightarrow> translate s2 r va' = translate s1 r va'"
    "\<And>u q j. own u = Some q \<Longrightarrow> length q = 3 \<Longrightarrow> q \<noteq> upath va \<Longrightarrow> j < 512 \<Longrightarrow> pt_entry s2 u j = pt_entry s1 u j"
    by (rule cow_fault_copy [OF keep(1), of va e f ef]) (use assms keep(2) sel in auto)
  have stk: "mem s2 (tss_rsp0 s - 8 * i) = mem s1 (tss_rsp0 s - 8 * i)" if "i \<in> {1..16}" for i
    using assms(14) [rule_format, OF that] s2(9) [OF assms(10-12)] by (auto simp: pt_entry_def)
  define s3 where "s3 = pop (\<lambda>v. rip_update (\<lambda>_. v)) s2"
  have s3: "rsp (cpu_state s3) = tss_rsp0 s - 120" "mem s3 = mem s2" "CR3 s3 = CR3 s2" "umem s3 = umem s2"
    using s2(3) top by (simp_all add: s3_def pop_def)
  have "map (\<lambda>i. mem s3 (tss_rsp0 s - 8 * i)) [1, 2, 3, 4, 5, 7, 8, 9, 10, 11, 12, 13, 14, 15] =
      map (\<lambda>i. mem s1 (tss_rsp0 s - 8 * i)) [1, 2, 3, 4, 5, 7, 8, 9, 10, 11, 12, 13, 14, 15]"
    unfolding s3(2) by (rule map_cong [OF refl], rule stk) auto
  then have fr: "cpu_state (page_fault_exit s3) = cpu_state s"
    using page_fault_exit_frame [OF s3(1)] fault_words_mem [of isr kcs kss err s] by (simp only: s1_def Let_def)
  have run: "page_fault_handler isr kcs kss err va s = Some (page_fault_exit s3)"
    using s2(1) by (simp add: page_fault_handler_def s1_def [symmetric] s3_def)
  have t3: "translate (page_fault_exit s3) r a = translate s2 r a" for r a
    by (rule translate_mem_cong) (simp add: s3)
  have "vload (va div 4096 * 4096 + of_nat k) (page_fault_exit s3) = vload (va div 4096 * 4096 + of_nat k) s"
    if "k < 4096" for k
    using page_byte [OF page_start(1) that, of va] page_start(2) [of va] s2(2,4) assms(4,9) s2(6) [OF that] s3(3,4) sel(1,3)
    by (simp add: vload_def t3, simp add: translate_def)
  then show ?thesis
    using run fr t3 s2(2,4,5,7,8) s3(3,4) sel(1,3) assms(9) keep(2) by (intro exI [of _ "page_fault_exit s3"]) simp
qed

subsection \<open>Witnesses\<close>

text \<open>Below the root table at 0x1000 there are a page table at 0x4000, a shared page at 0x5000, seen at
  0x10000, and a kernel stack in the page 0x6000; page 7 is the next free one and is mapped at its address.\<close>

definition demo_cow :: proc_state where
  "demo_cow = demo_proc\<lparr>free_list := Some 7, tss_rsp0 := 0x6800,
     mem := (\<lambda>_. 0)(0x1000 := 0x2007, 0x2000 := 0x3007, 0x3000 := 0x4007, 0x4080 := 0x5105, 0x4038 := 0x7003),
     umem := (\<lambda>a. ucast a)\<rparr>"

definition demo_cow_own :: "u64 \<Rightarrow> u64 list option" where
  "demo_cow_own = [0x1000 \<mapsto> [], 0x2000 \<mapsto> [0], 0x3000 \<mapsto> [0, 0], 0x4000 \<mapsto> [0, 0, 0], 0x5000 \<mapsto> [0, 0, 0],
     0x6000 \<mapsto> [1, 1, 1]]"

lemma demo_page: "i < 16 \<Longrightarrow> page_addr (pages demo_vm i) = of_nat i * 4096"
  using demo_alloc_addr by (simp add: demo_vm_def)

lemma demo_nxt: "i \<in> set [2..<15] \<Longrightarrow> nxt (pages demo_vm i) = Some (Suc i)"
proof -
  have "chain (\<lambda>i. nxt (pages demo_vm i)) (free_list demo_vm) [2..<16]"
    using demo_vm_wf by (simp add: vm_wf_def free_ok_def flist_def del: upt_Suc)
  moreover assume "i \<in> set [2..<15]"
  ultimately show ?thesis by (auto simp: upt_rec simp del: set_upt)
qed

lemma demo_cow_wf: "vm_wf demo_cow_own (7 # [8..<16]) demo_cow"
proof -
  define s1 where "s1 = pt_write (demo_proc\<lparr>free_list := Some 3\<rparr>) 0x1000 0 (0x2000 OR 7)"
  define s2 where "s2 = pt_write (s1\<lparr>free_list := Some 4\<rparr>) 0x2000 0 (0x3000 OR 7)"
  define s3 where "s3 = pt_write (s2\<lparr>free_list := Some 5\<rparr>) 0x3000 0 (0x4000 OR 7)"
  define s4 where "s4 = s3\<lparr>free_list := Some 6\<rparr>\<lparr>free_list := Some 7\<rparr>"
  define s5 where "s5 = pt_write (pt_write s4 0x4000 16 0x5105) 0x4000 7 0x7003"
  have m: "mem demo_vm = (\<lambda>_. 0)" by (simp add: demo_vm_def)
  note sel = demo_page demo_nxt present_def pt_entry_def pt_write_def m
  have 0: "vm_wf [0x1000 \<mapsto> []] (2 # 3 # 4 # 5 # 6 # 7 # [8..<16]) demo_proc"
    using demo_proc_wf by (simp add: upt_rec)
  have 1: "vm_wf [0x1000 \<mapsto> [], 0x2000 \<mapsto> [0]] (3 # 4 # 5 # 6 # 7 # [8..<16]) s1"
    using vm_wf_add_table [OF 0, of "0x1000" "[]" 0 "0x2000" s1] by (simp add: s1_def sel)
  have 2: "vm_wf [0x1000 \<mapsto> [], 0x2000 \<mapsto> [0], 0x3000 \<mapsto> [0, 0]] (4 # 5 # 6 # 7 # [8..<16]) s2"
    using vm_wf_add_table [OF 1, of "0x2000" "[0]" 0 "0x3000" s2] by (simp add: s2_def s1_def sel)
  have 3: "vm_wf [0x1000 \<mapsto> [], 0x2000 \<mapsto> [0], 0x3000 \<mapsto> [0, 0], 0x4000 \<mapsto> [0, 0, 0]] (5 # 6 # 7 # [8..<16]) s3"
    using vm_wf_add_table [OF 2, of "0x3000" "[0, 0]" 0 "0x4000" s3] by (simp add: s3_def s2_def s1_def sel)
  have p: "pages s3 = pages demo_proc" by (simp add: s3_def s2_def s1_def)
  have 4: "vm_wf demo_cow_own (7 # [8..<16]) s4"
    using vm_wf_claim [OF vm_wf_take_page [OF 3], of "[1, 1, 1]"]
    by (simp add: s4_def p sel demo_cow_own_def)
  have 5: "vm_wf demo_cow_own (7 # [8..<16]) s5"
    unfolding s5_def by (intro vm_wf_write_leaf 4) (auto simp: demo_cow_own_def)
  have "vm_wf demo_cow_own (7 # [8..<16]) demo_cow = vm_wf demo_cow_own (7 # [8..<16]) s5"
    by (rule vm_wf_cong) (simp_all add: demo_cow_def s5_def s4_def s3_def s2_def s1_def pt_write_def demo_vm_def)
  with 5 show ?thesis by simp
qed

theorem cow_fault_resumes_witness:
  "\<exists>s'. page_fault_handler 0xFFFFFFFF80200200 8 16 7 0x10234 demo_cow = Some s' \<and>
     cpu_state s' = cpu_state demo_cow \<and> translate s' 0x1000 0x10234 = Some 0x7007 \<and> vload 0x10041 s' = Some 0x41"
proof -
  have t: "translate demo_cow 0x1000 0x10234 = Some 0x5105" "translate demo_cow 0x1000 0x7000 = Some 0x7003"
    "translate demo_cow 0x1000 0x10041 = Some 0x5105"
    by (simp_all add: translate_def vpath_def getPML4Index_def getPDPTIndex_def getPDTIndex_def getPTIndex_def
        pt_entry_def present_def get_address_def demo_cow_def)
  have stk: "\<forall>i \<in> {1..16}. \<exists>j < 512. tss_rsp0 demo_cow - 8 * i = 0x6000 + 8 * j"
  proof
    fix i :: u64 assume "i \<in> {1..16}"
    then have "256 - i < 512" by (auto simp: word_less_nat_alt word_le_nat_alt unat_sub)
    then show "\<exists>j < 512. tss_rsp0 demo_cow - 8 * i = 0x6000 + 8 * j"
      by (intro exI [of _ "256 - i"]) (simp add: demo_cow_def algebra_simps)
  qed
  have sel: "CR3 demo_cow = 0x1000" "pages demo_cow = pages demo_proc" "umem demo_cow = (\<lambda>a. ucast a)"
    by (simp_all add: demo_cow_def)
  have up: "upath 0x10234 = [0, 0, 0]" "upath 0x7000 = [0, 0, 0]"
    by (simp_all add: upath_def getPML4Index_def getPDPTIndex_def getPDTIndex_def)
  obtain s' where s': "page_fault_handler 0xFFFFFFFF80200200 8 16 7 0x10234 demo_cow = Some s'"
    "cpu_state s' = cpu_state demo_cow" "CR3 s' = CR3 demo_cow" "translate s' (CR3 s') 0x10234 = Some 0x7007"
    "\<forall>k < 4096. vload (0x10234 div 4096 * 4096 + of_nat k) s' = vload (0x10234 div 4096 * 4096 + of_nat k) demo_cow"
    using cow_fault_resumes [OF demo_cow_wf, where va = "0x10234" and f = "0x7000" and k = "0x6000" and q = "[1, 1, 1]"
        and e = "0x5105" and ef = "0x7003" and isr = "0xFFFFFFFF80200200" and kcs = 8 and kss = 16 and err = 7] t stk
    by (auto simp: sel up demo_cow_own_def demo_page get_address_def)
  have "vload 0x10041 s' = vload 0x10041 demo_cow" using s'(5) [rule_format, of "0x41"] by simp
  also have "\<dots> = Some 0x41" using t(3) by (simp add: vload_def sel get_address_def)
  finally show ?thesis using s' by (simp add: sel)
qed

end
