(* ===== verification/Boot.thy ===== *)
theory Boot
  imports Syscall PageFault
begin

unbundle bit_operations_syntax

text \<open>
  The kernel's entry: \<open>boot\<close> (\<^verbatim>\<open>sys/main.c\<close>), the loading of the descriptor tables (\<^verbatim>\<open>sys/gdt.s\<close>,
  \<^verbatim>\<open>sys/gdt.c\<close>, \<^verbatim>\<open>sys/isr.c\<close>), and the assembler stubs of the timer and keyboard interrupts
  (\<^verbatim>\<open>sys/isr.s\<close>). A machine is the system's state with the tables and the registers that hold them.
\<close>

record machine =
  sys :: sysstate
  gdt :: "u64 list"
  gdt_reg :: "u16 \<times> u64" \<comment> \<open>limit and address\<close>
  task_reg :: u16
  data_segs :: "u16 list" \<comment> \<open>es, fs, gs, ds\<close>
  idt :: "idt_entry list"
  idt_reg :: idt_ptr
  loader_stack :: u64

text \<open>Addresses fixed by the linker.\<close>

record layout =
  gdt_addr :: u64
  tss_addr :: u64
  idt_addr :: u64
  isr_timer_addr :: u64
  isr_keyboard_addr :: u64
  isr_syscall_addr :: u64
  page_fault_addr :: u64
  lgdt_done :: u64
  initial_stack :: u64
  tarfs_start :: u64
  tarfs_end :: u64
  sbush_name :: u64
  other_main :: u64

abbreviation upd_cpu :: "(cpu \<Rightarrow> cpu) \<Rightarrow> 'a kernel_scheme \<Rightarrow> 'a kernel_scheme" where
  "upd_cpu f s \<equiv> s\<lparr>cpu_state := f (cpu_state s)\<rparr>"

abbreviation IF :: u64 where "IF \<equiv> 0x200"

definition cli :: "'a kernel_scheme \<Rightarrow> 'a kernel_scheme" where
  "cli s = upd_cpu (rflags_update (\<lambda>f. f AND NOT IF)) s"

definition sti :: "'a kernel_scheme \<Rightarrow> 'a kernel_scheme" where
  "sti s = upd_cpu (rflags_update (\<lambda>f. f OR IF)) s"

subsection \<open>Descriptor tables\<close>

text \<open>The code selector is loaded by a far return to the label \<open>.done\<close>.\<close>

definition x86_64_asm_lgdt :: "u64 \<Rightarrow> u16 \<times> u64 \<Rightarrow> u64 \<Rightarrow> u64 \<Rightarrow> machine \<Rightarrow> machine" where
  "x86_64_asm_lgdt ldone gdtr cs_idx ds_idx m =
     (let m = m\<lparr>gdt_reg := gdtr\<rparr>;
          s = push ldone (push cs_idx (sys m));
          s = pop (\<lambda>v. cs_update (\<lambda>_. v)) (pop (\<lambda>v. rip_update (\<lambda>_. v)) s);
          m = m\<lparr>data_segs := replicate 4 (ucast ds_idx)\<rparr>;
          s = upd_cpu (ss_update (\<lambda>_. ds_idx)) s
      in m\<lparr>sys := s\<rparr>)"

definition x86_64_asm_ltr :: "u64 \<Rightarrow> machine \<Rightarrow> machine" where
  "x86_64_asm_ltr tss_idx m = m\<lparr>task_reg := ucast tss_idx\<rparr>"

definition init_gdt_regs :: "layout \<Rightarrow> machine \<Rightarrow> machine" where
  "init_gdt_regs l m =
     (let m = m\<lparr>gdt := init_gdt (tss_addr l) (gdt m)\<rparr>;
          m = x86_64_asm_lgdt (lgdt_done l) (8 * 32, gdt_addr l) 8 16 m
      in x86_64_asm_ltr 0x30 m)"

definition reload_idt_regs :: "layout \<Rightarrow> machine \<Rightarrow> machine option" where
  "reload_idt_regs l m = do {
     (p, t) \<leftarrow> reload_idt (idt_addr l) (isr_timer_addr l) (isr_keyboard_addr l) (isr_syscall_addr l) (page_fault_addr l);
     Some (m\<lparr>idt := t, idt_reg := p\<rparr>) }"

subsection \<open>boot\<close>

text \<open>Up to the call of \<open>start\<close>. \<open>img\<close> is the kernel's memory, \<open>e\<close> the uninitialised local of \<open>tarfs_init\<close>.\<close>

definition boot_init :: "layout \<Rightarrow> bytes \<Rightarrow> tarfs_entry \<Rightarrow> machine \<Rightarrow> machine option" where
  "boot_init l img e m = do {
     let m = m\<lparr>sys := cli (sys m)\<rparr>;
     let m = m\<lparr>loader_stack := rsp (cpu_state (sys m))\<rparr>;
     let m = m\<lparr>sys := upd_cpu (rsp_update (\<lambda>_. initial_stack l + 4096)) (sys m)\<rparr>;
     let m = init_gdt_regs l m;
     m \<leftarrow> reload_idt_regs l m;
     f \<leftarrow> tarfs_init img (tarfs_start l) e (fs (sys m));
     let m = m\<lparr>sys := (sys m)\<lparr>fs := f\<rparr>\<rparr>;
     Some (m\<lparr>sys := sti (sys m)\<rparr>) }"

text \<open>\<open>start\<close> ends in user mode, so the loop behind it is not reached.\<close>

definition boot :: "layout \<Rightarrow> bytes \<Rightarrow> tarfs_entry \<Rightarrow> u64 \<Rightarrow> u64 \<Rightarrow> machine \<Rightarrow> machine option" where
  "boot l img e kernmem physbase m = do {
     m \<leftarrow> boot_init l img e m;
     let modulep = ucast (rd32 img (loader_stack m + 12)) + kernmem - physbase;
     let physfree = ucast (rd32 img (loader_stack m + 16));
     s \<leftarrow> start img (tarfs_start l) (tarfs_end l) (sbush_name l) (other_main l) kernmem modulep physbase physfree (sys m);
     Some (m\<lparr>sys := s\<rparr>) }"

text \<open>The test of the task switch; \<open>rest\<close> is what other tasks do until it is switched back to.\<close>

definition testContextSwitch ::
    "u64 \<Rightarrow> u64 \<Rightarrow> u64 \<Rightarrow> (sysstate \<Rightarrow> sysstate option) \<Rightarrow> sysstate \<Rightarrow> sysstate option" where
  "testContextSwitch mainTask otherTask otherMain rest s = do {
     let s = s\<lparr>con := kp_lit (of_string ''Switching to Task2'' @ [10]) (con s)\<rparr>;
     s \<leftarrow> initTasking mainTask otherTask otherMain s;
     s \<leftarrow> yield s;
     s \<leftarrow> rest s;
     Some (s\<lparr>con := kp_lit (of_string ''Returned to Task1'' @ [10]) (con s)\<rparr>) }"

text \<open>The task it switches to: one turn of a loop without end.\<close>

definition otherMain_turn :: "(sysstate \<Rightarrow> sysstate option) \<Rightarrow> sysstate \<Rightarrow> sysstate option" where
  "otherMain_turn rest s = do {
     let s = s\<lparr>con := kp_lit (of_string ''Init Process Invoked!'' @ [10]) (con s)\<rparr>;
     s \<leftarrow> yield s;
     rest s }"

subsection \<open>The stubs of the hardware interrupts\<close>

definition inb :: "(u16 \<Rightarrow> u8) \<Rightarrow> u16 \<Rightarrow> u8" where
  "inb dev port = dev port"

text \<open>The stubs save no register: \<open>left\<close> is what the compiled handler leaves in them.\<close>

definition isr_timer :: "layout \<Rightarrow> u64 \<Rightarrow> u64 \<Rightarrow> (cpu \<Rightarrow> cpu) \<Rightarrow> sysstate \<Rightarrow> sysstate" where
  "isr_timer l kcs kss left s =
     (let s = push (isr_timer_addr l + 5) (int_frame (isr_timer_addr l) kcs kss s);
          s = upd_cpu left (s\<lparr>con := interrupt_handler_timer (con s)\<rparr>);
          s = pop (\<lambda>v. rip_update (\<lambda>_. v)) s
      in iretq s)"

definition isr_keyboard :: "layout \<Rightarrow> (u16 \<Rightarrow> u8) \<Rightarrow> u64 \<Rightarrow> u64 \<Rightarrow> (cpu \<Rightarrow> cpu) \<Rightarrow> sysstate \<Rightarrow> sysstate option" where
  "isr_keyboard l dev kcs kss left s = do {
     let s = push (isr_keyboard_addr l + 5) (int_frame (isr_keyboard_addr l) kcs kss s);
     c \<leftarrow> interrupt_handler_key (inb dev 0x60) (con s);
     let s = upd_cpu left (s\<lparr>con := c\<rparr>);
     let s = pop (\<lambda>v. rip_update (\<lambda>_. v)) s;
     Some (iretq s) }"

text \<open>The registers a compiled C function may change, and those it may not.\<close>

definition c_call :: "(cpu \<Rightarrow> cpu) \<Rightarrow> bool" where
  "c_call left \<longleftrightarrow> (\<forall>c. \<exists>a cx dx si di v8 v9 fl. left c =
     c\<lparr>rax := a, rcx := cx, rdx := dx, rsi := si, rdi := di, r8 := v8, r9 := v9, rflags := fl\<rparr>)"


text \<open>What the processor finds behind a selector: the descriptor it indexes.\<close>

definition descriptor :: "machine \<Rightarrow> u64 \<Rightarrow> u64" where
  "descriptor m sel = gdt m ! unat (drop_bit 3 sel)"

text \<open>C26. The machine when \<open>boot\<close> calls \<open>start\<close>: the kernel runs on its own stack with 64-bit code and data
  descriptors of privilege 0 and interrupts on, the stack of the loader is kept, the task register and
  the descriptor behind it describe the TSS, wherever it is; the selectors that \<open>jump_to_user_mode\<close> loads
  are the user's; the interrupts 32 and 33, the page fault and \<open>int 0x80\<close> go to their handlers, for any
  addresses of them, and from user mode no other \<open>int\<close> instruction reaches a handler; the file table is
  the one of the tar image.\<close>

theorem boot_ready:
  assumes "gdt m = gdt0" "tarfs_init img (tarfs_start l) e (fs (sys m)) = Some f"
  shows "\<exists>m'. boot_init l img e m = Some m' \<and> fs (sys m') = f \<and> loader_stack m' = rsp (cpu_state (sys m)) \<and>
    rsp (cpu_state (sys m')) = initial_stack l + 4096 \<and> bit (rflags (cpu_state (sys m'))) 9 \<and>
    tss_base (gdt m') = tss_addr l \<and> tss_limit (gdt m') = sizeof_tss - 1 \<and> task_reg m' = 0x30 \<and>
    descriptor m' (cs (cpu_state (sys m'))) = GDT_CS OR GDT_P OR GDT_DPL0 OR GDT_L \<and>
    descriptor m' (ss (cpu_state (sys m'))) = GDT_DS OR GDT_P OR GDT_W OR GDT_DPL0 \<and>
    descriptor m' 0x23 = GDT_DS OR GDT_P OR GDT_W OR GDT_DPL3 \<and>
    descriptor m' 0x2B = GDT_CS OR GDT_P OR GDT_DPL3 OR GDT_L \<and>
    (\<forall>n. int_target (idt_reg m', idt m') 0 n =
       (if n = 32 then Some (isr_timer_addr l) else if n = 33 then Some (isr_keyboard_addr l)
        else if n = 128 then Some (isr_syscall_addr l) else if n = 14 then Some (page_fault_addr l) else None)) \<and>
    (\<forall>n. int_target (idt_reg m', idt m') 3 n = (if n = 128 then Some (isr_syscall_addr l) else None))"
proof -
  obtain t where t: "reload_idt (idt_addr l) (isr_timer_addr l) (isr_keyboard_addr l) (isr_syscall_addr l) (page_fault_addr l) = Some t"
    "\<And>n. int_target t 0 n =
       (if n = 32 then Some (isr_timer_addr l) else if n = 33 then Some (isr_keyboard_addr l)
        else if n = 128 then Some (isr_syscall_addr l) else if n = 14 then Some (page_fault_addr l) else None)"
    "\<And>n. int_target t 3 n = (if n = 128 then Some (isr_syscall_addr l) else None)"
    using reload_idt_targets [of "idt_addr l" "isr_timer_addr l" "isr_keyboard_addr l" "isr_syscall_addr l" "page_fault_addr l"] by blast
  let ?s = "upd_cpu (rsp_update (\<lambda>_. initial_stack l + 4096)) (cli (sys m))"
  define m1 where "m1 = init_gdt_regs l (m\<lparr>loader_stack := rsp (cpu_state (sys m)), sys := ?s\<rparr>)"
  define m' where "m' = m1\<lparr>idt := snd t, idt_reg := fst t, sys := sti ((sys m1)\<lparr>fs := f\<rparr>)\<rparr>"
  have sel: "fs (sys m1) = fs (sys m)" "loader_stack m1 = rsp (cpu_state (sys m))" "task_reg m1 = 0x30"
    "rsp (cpu_state (sys m1)) = initial_stack l + 4096" "cs (cpu_state (sys m1)) = 8" "ss (cpu_state (sys m1)) = 16"
    "gdt m1 = init_gdt (tss_addr l) gdt0"
    by (simp_all add: m1_def init_gdt_regs_def x86_64_asm_lgdt_def x86_64_asm_ltr_def cli_def push_def pop_def assms(1) Let_def)
  have run: "boot_init l img e m = Some m'"
    using t(1) assms(2) sel(1) by (simp add: boot_init_def reload_idt_regs_def m1_def m'_def Let_def cli_def split: prod.splits)
  have g: "init_gdt (tss_addr l) gdt0 ! i = gdt0 ! i" if "i < 6" for i
    using that by (simp add: init_gdt_def Let_def)
  have "bit (rflags (cpu_state (sys m'))) 9" by (simp add: m'_def sti_def bit_or_iff)
  moreover have "descriptor m' 8 = gdt0 ! 1" "descriptor m' 16 = gdt0 ! 2" "descriptor m' 0x23 = gdt0 ! 4" "descriptor m' 0x2B = gdt0 ! 5"
    by (simp_all add: descriptor_def m'_def sel g)
  ultimately show ?thesis
    using run t(2,3) sel init_gdt_tss [of "tss_addr l"]
    by (intro exI [of _ m']) (simp add: m'_def sti_def gdt0_def)
qed


subsection \<open>The saved registers\<close>

text \<open>\<open>struct isr_regs\<close> as the handlers declare it.\<close>

record isr_regs =
  reg_r9 :: u64 reg_r8 :: u64 reg_rsi :: u64 reg_rbp :: u64 reg_rdx :: u64 reg_rcx :: u64
  reg_rbx :: u64 reg_rax :: u64 reg_rdi :: u64
  int_no :: u64 err_code :: u64
  reg_rip :: u64 reg_cs :: u64 reg_rflags :: u64 reg_rsp :: u64 reg_ss :: u64

definition regs_at :: "(u64 \<Rightarrow> u64) \<Rightarrow> u64 \<Rightarrow> isr_regs" where
  "regs_at m a =
     \<lparr>reg_r9 = m a, reg_r8 = m (a + 8), reg_rsi = m (a + 16), reg_rbp = m (a + 24), reg_rdx = m (a + 32),
      reg_rcx = m (a + 40), reg_rbx = m (a + 48), reg_rax = m (a + 56), reg_rdi = m (a + 64),
      int_no = m (a + 72), err_code = m (a + 80), reg_rip = m (a + 88), reg_cs = m (a + 96),
      reg_rflags = m (a + 104), reg_rsp = m (a + 112), reg_ss = m (a + 120)\<rparr>"

text \<open>The stubs push neither an interrupt number nor, for a system call, an error code: behind the nine
  registers the structure does not describe the stack. On a page fault the field \<open>err_code\<close> holds the
  faulting instruction's address, and the error code is found in \<open>int_no\<close>.\<close>

lemma isr_regs_page_fault:
  assumes "r = regs_at (mem (page_fault_entry isr kcs kss err s)) (tss_rsp0 s - 120)"
  shows "reg_rax r = rax (cpu_state s)" "reg_rdi r = rdi (cpu_state s)" "reg_r9 r = r9 (cpu_state s)"
    and "int_no r = err" "err_code r = rip (cpu_state s)" "reg_rip r = cs (cpu_state s)"
  by (simp_all add: assms regs_at_def page_fault_entry_def Let_def)

lemma isr_regs_syscall:
  assumes "r = regs_at (mem (isr_syscall_entry isr kcs kss s)) (tss_rsp0 s - 112)"
  shows "reg_rax r = rax (cpu_state s)" "reg_rdi r = rdi (cpu_state s)" "reg_rsi r = rsi (cpu_state s)" "reg_rdx r = rdx (cpu_state s)"
    and "int_no r = rip (cpu_state s)" "reg_rip r = rflags (cpu_state s)" "reg_ss r = mem s (8 + tss_rsp0 s)"
  by (simp_all add: assms regs_at_def isr_syscall_entry_def Let_def)

subsection \<open>Witnesses\<close>

definition demo_layout :: layout where
  "demo_layout = \<lparr>gdt_addr = 0xFFFFFFFF80208000, tss_addr = 0xFFFFFFFF80209000, idt_addr = 0xFFFFFFFF8020A000,
     isr_timer_addr = 0xFFFFFFFF80200000, isr_keyboard_addr = 0xFFFFFFFF80200010, isr_syscall_addr = 0xFFFFFFFF80200020,
     page_fault_addr = 0xFFFFFFFF80200040, lgdt_done = 0xFFFFFFFF80201000, initial_stack = 0xFFFFFFFF8020C000,
     tarfs_start = 0xFFFFFFFF8020E000, tarfs_end = 0xFFFFFFFF8020E400, sbush_name = 0, other_main = 0\<rparr>"

definition demo_mach :: machine where
  "demo_mach = \<lparr>sys = demo_sys, gdt = gdt0, gdt_reg = (0, 0), task_reg = 0, data_segs = [], idt = [],
     idt_reg = \<lparr>idt_limit = 0, idt_base = 0\<rparr>, loader_stack = 0\<rparr>"

lemma tarfs_init_empty:
  "tarfs_init (\<lambda>_. 0) a e f = Some (f\<lparr>tarfs_cwd := [98, 105, 110, 47], num_files := 0\<rparr>)"
proof -
  have "get_str (\<lambda>_. 0) b = Some []" for b by (subst get_str.simps) simp
  then show ?thesis unfolding tarfs_init_def by (subst tarfs_init_loop.simps) simp
qed

theorem boot_ready_witness:
  "\<exists>m'. boot_init demo_layout (\<lambda>_. 0) undefined demo_mach = Some m' \<and> tss_base (gdt m') = 0xFFFFFFFF80209000 \<and>
     int_target (idt_reg m', idt m') 3 128 = Some 0xFFFFFFFF80200020 \<and> int_target (idt_reg m', idt m') 3 14 = None"
proof -
  have g: "gdt demo_mach = gdt0" by (simp add: demo_mach_def)
  from boot_ready [OF g tarfs_init_empty, of demo_layout undefined] obtain m' where
    "boot_init demo_layout (\<lambda>_. 0) undefined demo_mach = Some m'" "tss_base (gdt m') = tss_addr demo_layout"
    "\<forall>n. int_target (idt_reg m', idt m') 3 n = (if n = 128 then Some (isr_syscall_addr demo_layout) else None)"
    by blast
  then show ?thesis by (simp add: demo_layout_def)
qed

lemma c_call_rax: "c_call (rax_update (\<lambda>_. 0))"
  unfolding c_call_def
proof
  fix c :: cpu
  have "rax_update (\<lambda>_. 0) c = c\<lparr>rax := 0, rcx := rcx c, rdx := rdx c, rsi := rsi c, rdi := rdi c, r8 := r8 c,
      r9 := r9 c, rflags := rflags c\<rparr>" by simp
  then show "\<exists>a cx dx si di v8 v9 fl. rax_update (\<lambda>_. 0) c =
      c\<lparr>rax := a, rcx := cx, rdx := dx, rsi := si, rdi := di, r8 := v8, r9 := v9, rflags := fl\<rparr>" by blast
qed


end
