(* ===== verification/Libc.thy ===== *)
theory Libc
  imports Syscall
begin

unbundle bit_operations_syntax

text \<open>
  The user side: the system call wrappers of \<^verbatim>\<open>libc/files.c\<close>, the output routines of
  \<^verbatim>\<open>libc/printf.c\<close>, \<^verbatim>\<open>libc/puts.c\<close>, \<^verbatim>\<open>libc/gets.c\<close> and \<^verbatim>\<open>libc/putchar.c\<close>, and the start-up code
  \<^verbatim>\<open>crt/crt1.c\<close>. \<open>loc\<close> is the address of the local character array of the routine that is running.
\<close>

subsection \<open>Wrappers\<close>

definition libc_write :: "env \<Rightarrow> u32 \<Rightarrow> u64 \<Rightarrow> u64 \<Rightarrow> sysstate \<Rightarrow> (u64 \<times> sysstate) option" where
  "libc_write e arg1 arg2 arg3 s =
     (if sint arg1 < 0 then Some (0, s) else syscall_3 e SYS_write (scast arg1) arg2 arg3 s)"

definition read :: "env \<Rightarrow> u32 \<Rightarrow> u64 \<Rightarrow> u64 \<Rightarrow> sysstate \<Rightarrow> (u64 \<times> sysstate) option" where
  "read e fd buf count s = syscall_3 e SYS_read (scast fd) buf count s"

text \<open>The result of most calls is cut to an \<open>int\<close>.\<close>

definition to_int :: "(u64 \<times> sysstate) option \<Rightarrow> (u32 \<times> sysstate) option" where
  "to_int r = map_option (\<lambda>(v, s). (ucast v, s)) r"

definition open_file :: "env \<Rightarrow> u64 \<Rightarrow> u32 \<Rightarrow> sysstate \<Rightarrow> (u32 \<times> sysstate) option" where
  "open_file e pathname flags s = to_int (syscall_2 e SYS_open pathname (scast flags) s)"

definition close_file :: "env \<Rightarrow> u32 \<Rightarrow> sysstate \<Rightarrow> (u32 \<times> sysstate) option" where
  "close_file e fd s = to_int (syscall_1 e SYS_close (scast fd) s)"

definition listfiles :: "env \<Rightarrow> u64 \<Rightarrow> u32 \<Rightarrow> sysstate \<Rightarrow> (u32 \<times> sysstate) option" where
  "listfiles e path pipe s = to_int (syscall_2 e SYS_listfiles path (scast pipe) s)"

definition catfiles :: "env \<Rightarrow> u64 \<Rightarrow> u32 \<Rightarrow> sysstate \<Rightarrow> (u32 \<times> sysstate) option" where
  "catfiles e path pipe s = to_int (syscall_2 e SYS_catfiles path (scast pipe) s)"

definition echofiles :: "env \<Rightarrow> u64 \<Rightarrow> u32 \<Rightarrow> sysstate \<Rightarrow> (u32 \<times> sysstate) option" where
  "echofiles e path pipe s = to_int (syscall_2 e SYS_echofiles path (scast pipe) s)"

definition ps :: "env \<Rightarrow> sysstate \<Rightarrow> sysstate option" where
  "ps e s = map_option snd (syscall_0 e SYS_listprocess s)"

definition getcwd :: "env \<Rightarrow> u64 \<Rightarrow> u64 \<Rightarrow> sysstate \<Rightarrow> (u64 \<times> sysstate) option" where
  "getcwd e buf sz s = syscall_2 e SYS_getcwd buf sz s"

definition chdir :: "env \<Rightarrow> u64 \<Rightarrow> sysstate \<Rightarrow> (u32 \<times> sysstate) option" where
  "chdir e path s = to_int (syscall_1 e SYS_chdir path s)"

definition fork :: "env \<Rightarrow> sysstate \<Rightarrow> (u32 \<times> sysstate) option" where
  "fork e s = to_int (syscall_0 e SYS_fork s)"

definition getpid :: "env \<Rightarrow> sysstate \<Rightarrow> (u32 \<times> sysstate) option" where
  "getpid e s = to_int (syscall_0 e SYS_getpid s)"

definition getppid :: "env \<Rightarrow> sysstate \<Rightarrow> (u32 \<times> sysstate) option" where
  "getppid e s = to_int (syscall_0 e SYS_getppid s)"

definition waitpid :: "env \<Rightarrow> u32 \<Rightarrow> u64 \<Rightarrow> u32 \<Rightarrow> sysstate \<Rightarrow> (u32 \<times> sysstate) option" where
  "waitpid e p status options s = to_int (syscall_3 e SYS_wait4 (scast p) status (scast options) s)"

text \<open>\<open>execve\<close> looks for \<open>bin\<close> in the name, however far it has to go.\<close>

partial_function (option) find_bin :: "bytes \<Rightarrow> u64 \<Rightarrow> u64 option" where
  "find_bin m temp =
     (if temp \<noteq> 0 \<and> \<not> (m temp = 98 \<and> m (temp + 1) = 105 \<and> m (temp + 2) = 110) then find_bin m (temp + 1)
      else Some temp)"

definition exec_code :: "u32 \<Rightarrow> u32" where
  "exec_code rc = (if - 125 \<le> sint rc \<and> sint rc < 0 then - 1 else rc)"

definition execve :: "env \<Rightarrow> u64 \<Rightarrow> u64 \<Rightarrow> u64 \<Rightarrow> sysstate \<Rightarrow> (u32 \<times> sysstate) option" where
  "execve e filename argv envp s = do {
     temp \<leftarrow> find_bin (umemory s) filename;
     if umemory s temp = 0 \<or> umemory s (temp + 4) = 0 then Some (- 1, s)
     else do {
       (rc, s) \<leftarrow> to_int (syscall_3 e SYS_execve temp argv envp s);
       Some (exec_code rc, s) } }"

definition execvpe :: "env \<Rightarrow> u64 \<Rightarrow> u64 \<Rightarrow> u64 \<Rightarrow> sysstate \<Rightarrow> (u32 \<times> sysstate) option" where
  "execvpe e filename argv envp s = do {
     (rc, s) \<leftarrow> to_int (syscall_3 e SYS_execve filename argv envp s);
     Some (exec_code rc, s) }"

definition sleep :: "env \<Rightarrow> u32 \<Rightarrow> sysstate \<Rightarrow> (u32 \<times> sysstate) option" where
  "sleep e seconds s = to_int (syscall_1 e SYS_nanosleep (ucast (seconds * 1000)) s)"

definition kill :: "env \<Rightarrow> u32 \<Rightarrow> sysstate \<Rightarrow> (u32 \<times> sysstate) option" where
  "kill e p s = to_int (syscall_1 e SYS_killprocess (scast p) s)"

definition exit :: "env \<Rightarrow> u32 \<Rightarrow> sysstate \<Rightarrow> sysstate option" where
  "exit e arg1 s = map_option snd (syscall_0 e SYS_exit s)"

definition changedir :: "env \<Rightarrow> u64 \<Rightarrow> sysstate \<Rightarrow> sysstate option" where
  "changedir e path s = map_option snd (syscall_1 e SYS_changedir path s)"

subsection \<open>Output and input\<close>

definition printf_str :: "env \<Rightarrow> u64 \<Rightarrow> sysstate \<Rightarrow> sysstate option" where
  "printf_str e str s = do {
     n \<leftarrow> strlen (umemory s) str;
     (_, s) \<leftarrow> libc_write e 1 str (scast n) s;
     Some s }"

text \<open>A local string, stored at \<open>loc\<close> and written.\<close>

definition printf_local :: "env \<Rightarrow> u64 \<Rightarrow> u8 list \<Rightarrow> sysstate \<Rightarrow> sysstate option" where
  "printf_local e loc xs s = printf_str e loc (set_umemory (blit (umemory s) loc (xs @ [0])) s)"

definition printf_int :: "env \<Rightarrow> u64 \<Rightarrow> u64 \<Rightarrow> sysstate \<Rightarrow> sysstate option" where
  "printf_int e loc tarf s = printf_local e loc (rev (dec_loop tarf [])) s"

definition printf_char :: "env \<Rightarrow> u64 \<Rightarrow> u64 \<Rightarrow> sysstate \<Rightarrow> sysstate option" where
  "printf_char e loc decimal s = printf_local e loc (rev (hex_loop decimal [])) s"

definition printf_def_char :: "env \<Rightarrow> u64 \<Rightarrow> u8 \<Rightarrow> sysstate \<Rightarrow> sysstate option" where
  "printf_def_char e loc c s = printf_local e loc [c] s"

definition printf_conv :: "env \<Rightarrow> u64 \<Rightarrow> u8 \<Rightarrow> u64 list \<Rightarrow> sysstate \<Rightarrow> (u64 list \<times> sysstate) option" where
  "printf_conv e loc c args s =
     (if c \<in> {112, 100, 99, 115, 120} then
        (case args of
           [] \<Rightarrow> None
         | a # args \<Rightarrow>
             map_option (Pair args)
               (if c = 112 \<or> c = 120 then printf_char e loc a s
                else if c = 100 then printf_int e loc a s
                else if c = 99 then printf_def_char e loc (ucast a) s
                else printf_str e a s))
      else Some (args, s))"

partial_function (option) printf_loop ::
    "env \<Rightarrow> u64 \<Rightarrow> u64 \<Rightarrow> nat \<Rightarrow> u64 list \<Rightarrow> sysstate \<Rightarrow> sysstate option" where
  "printf_loop e loc fmt i args s =
     (let c = umemory s (fmt + of_nat i) in
      if c = 37 then do {
        (args, s) \<leftarrow> printf_conv e loc (umemory s (fmt + of_nat (i + 1))) args s;
        printf_loop e loc fmt (i + 2) args s }
      else if c = 0 then Some s
      else do {
        s \<leftarrow> printf_def_char e loc c s;
        printf_loop e loc fmt (i + 1) args s })"

definition printf :: "env \<Rightarrow> u64 \<Rightarrow> u64 \<Rightarrow> u64 list \<Rightarrow> sysstate \<Rightarrow> sysstate option" where
  "printf e loc fmt args s = printf_loop e loc fmt 0 args s"

definition puts :: "env \<Rightarrow> u64 \<Rightarrow> sysstate \<Rightarrow> (u32 \<times> sysstate) option" where
  "puts e str s = do {
     n \<leftarrow> strlen (umemory s) str;
     (r, s) \<leftarrow> libc_write e 1 str (scast n) s;
     Some (if r = 1 then 1 else 0, s) }"

definition gets :: "env \<Rightarrow> u64 \<Rightarrow> sysstate \<Rightarrow> (u64 \<times> sysstate) option" where
  "gets e str s = do { (_, s) \<leftarrow> read e 0 str 1 s; Some (str, s) }"

definition putchar :: "u32 \<Rightarrow> u32" where "putchar c = c"

text \<open>The copies of \<open>execve\<close> and \<open>execvpe\<close> in \<^verbatim>\<open>sys/process.h\<close> print a message, stored at \<open>fmt\<close>, for a path that they
  refuse.\<close>

definition process_execve :: "env \<Rightarrow> u64 \<Rightarrow> u64 \<Rightarrow> u64 \<Rightarrow> u64 \<Rightarrow> u64 \<Rightarrow> sysstate \<Rightarrow> (u32 \<times> sysstate) option" where
  "process_execve e loc fmt filename argv envp s = do {
     temp \<leftarrow> find_bin (umemory s) filename;
     if umemory s temp = 0 \<or> umemory s (temp + 4) = 0 then do {
       s \<leftarrow> printf e loc fmt [] s;
       Some (- 1, s) }
     else do {
       (rc, s) \<leftarrow> to_int (syscall_3 e SYS_execve temp argv envp s);
       Some (exec_code rc, s) } }"

definition process_execvpe :: "env \<Rightarrow> u64 \<Rightarrow> u64 \<Rightarrow> u64 \<Rightarrow> u64 \<Rightarrow> u64 \<Rightarrow> sysstate \<Rightarrow> (u32 \<times> sysstate) option" where
  "process_execvpe e loc fmt filename argv envp s = do {
     temp \<leftarrow> find_bin (umemory s) filename;
     if umemory s temp = 0 \<or> umemory s (temp + 4) = 0 then do {
       s \<leftarrow> printf e loc fmt [] s;
       Some (- 1, s) }
     else do {
       (rc, s) \<leftarrow> to_int (syscall_3 e SYS_execve temp argv envp s);
       Some (exec_code rc, s) } }"

subsection \<open>Start-up\<close>

text \<open>The arguments \<open>_start\<close> passes to \<open>main\<close>: the count is read from the word above the stack pointer, the
  strings stand 64 bytes apart from the one above that on.\<close>

definition start_args :: "bytes \<Rightarrow> u64 \<Rightarrow> u32 \<times> u64 list" where
  "start_args m sp =
     (let argc = rd32 m (sp + 8) in
      if 0 < sint argc \<and> sint argc < 5
      then (argc, map (\<lambda>i. sp + 8 * (2 + 8 * of_nat i)) [0..<nat (sint argc)]) else (0, []))"

definition start_main :: "env \<Rightarrow> (u32 \<Rightarrow> u64 list \<Rightarrow> sysstate \<Rightarrow> sysstate option) \<Rightarrow> sysstate \<Rightarrow> sysstate option" where
  "start_main e main s = do {
     let (argc, argv) = start_args (umemory s) (rsp (cpu_state s));
     s \<leftarrow> main argc argv s;
     exit e 0 s }"

subsection \<open>The search for the program name\<close>

text \<open>The search stops at the first \<open>bin\<close> or, since addresses wrap around, at the null pointer: it always ends.\<close>

definition bin_at :: "bytes \<Rightarrow> u64 \<Rightarrow> bool" where
  "bin_at m p \<longleftrightarrow> m p = 98 \<and> m (p + 1) = 105 \<and> m (p + 2) = 110"

lemma find_bin_first:
  assumes "p + of_nat k = 0 \<or> bin_at m (p + of_nat k)" "\<forall>j < k. p + of_nat j \<noteq> 0 \<and> \<not> bin_at m (p + of_nat j)"
  shows "find_bin m p = Some (p + of_nat k)"
  using assms
proof (induction k arbitrary: p)
  case 0
  then show ?case by (auto simp: find_bin.simps [of m p] bin_at_def)
next
  case (Suc k)
  have "p \<noteq> 0 \<and> \<not> bin_at m p" using Suc.prems(2) by auto
  moreover have "find_bin m (p + 1) = Some (p + 1 + of_nat k)"
  proof (rule Suc.IH)
    show "p + 1 + of_nat k = 0 \<or> bin_at m (p + 1 + of_nat k)" using Suc.prems(1) by (simp add: ac_simps)
    show "\<forall>j < k. p + 1 + of_nat j \<noteq> 0 \<and> \<not> bin_at m (p + 1 + of_nat j)"
    proof (intro allI impI)
      fix j assume "j < k"
      with Suc.prems(2) show "p + 1 + of_nat j \<noteq> 0 \<and> \<not> bin_at m (p + 1 + of_nat j)"
        by (auto dest: spec [of _ "Suc j"] simp: ac_simps)
    qed
  qed
  ultimately show ?case by (simp add: find_bin.simps [of m p] bin_at_def ac_simps)
qed

lemma find_bin_ends: "\<exists>t. find_bin m p = Some t \<and> (t = 0 \<or> bin_at m t)"
proof -
  let ?P = "\<lambda>k. p + of_nat k = 0 \<or> bin_at m (p + of_nat k)"
  have "?P (unat (- p))" by simp
  then have "?P (LEAST k. ?P k)" "\<forall>j < (LEAST k. ?P k). \<not> ?P j" by (rule LeastI) (blast dest: not_less_Least)
  then show ?thesis using find_bin_first [of p "LEAST k. ?P k" m] by blast
qed

lemma process_execve_execve:
  assumes "find_bin (umemory s) filename = Some t" "umemory s t \<noteq> 0" "umemory s (t + 4) \<noteq> 0"
  shows "process_execve e loc fmt filename argv envp s = execve e filename argv envp s"
  using assms by (simp add: process_execve_def execve_def)

lemma process_execve_invalid:
  assumes "find_bin (umemory s) filename = Some t" "umemory s t = 0 \<or> umemory s (t + 4) = 0"
  shows "execve e filename argv envp s = Some (- 1, s)"
    and "process_execve e loc fmt filename argv envp s = map_option (Pair (- 1)) (printf e loc fmt [] s)"
  using assms by (simp_all add: process_execve_def execve_def map_option_case split: option.split)

subsection \<open>What \<open>printf\<close> shows\<close>

lemma blit_off:
  "length xs \<le> 2 ^ 64 \<Longrightarrow> \<forall>j < length xs. a \<noteq> p + of_nat j \<Longrightarrow> blit m p xs a = m a"
  by (metis blit_def of_nat_unat ucast_id diff_add_cancel add.commute)

lemma blit_on_screen:
  assumes "term_rel (con s) t" "\<forall>j < length xs. \<not> on_screen (p + of_nat j)" "length xs \<le> 2 ^ 64"
  shows "term_rel (con (set_umemory (blit (umemory s) p xs) s)) t"
proof -
  have "blit (umemory s) p xs (cell r c) = umemory s (cell r c)" if "r < 25" "c < 80" for r c
    using cell_on_screen(1) [OF that] assms(2,3) by (intro blit_off) auto
  then show ?thesis using assms(1) by (simp add: term_rel_def)
qed

lemma printf_char_shown:
  assumes "term_rel (con s) t" "c \<notin> {0, 8, 37}" "fits (tcol t) [c]" "\<not> on_screen loc" "\<not> on_screen (loc + 1)"
  shows "\<exists>s'. printf_def_char e loc c s = Some s' \<and> term_rel (con s') (term_putc c t) \<and>
    (\<forall>a. \<not> on_screen a \<longrightarrow> a \<noteq> loc \<longrightarrow> a \<noteq> loc + 1 \<longrightarrow> umemory s' a = umemory s a)"
proof -
  let ?s = "set_umemory (blit (umemory s) loc [c, 0]) s"
  have r: "term_rel (con ?s) t"
    using assms(1,4,5) by (intro blit_on_screen) (auto simp: less_Suc_eq)
  have cs: "cstr (umemory ?s) loc [c]" using arr_blit [of "[c, 0]" "umemory s" loc] assms(2) by (simp add: cstr_def)
  obtain s' where s': "syscall_3 e SYS_write 1 loc 1 ?s = Some (0, s')" "term_rel (con s') (term_putc c t)"
    "\<forall>a. \<not> on_screen a \<longrightarrow> cmem (con s') a = umemory ?s a"
    using sys_write_text [OF r cs assms(3), of e 1] assms(2,4,5) by (auto simp: le_Suc_eq)
  have l: "strlen (umemory ?s) loc = Some 1" using strlen_spec [OF cs] by simp
  have "printf_def_char e loc c s = Some s'"
    using s'(1) l by (simp add: printf_def_char_def printf_local_def printf_str_def libc_write_def)
  moreover have "umemory s' a = umemory s a" if "\<not> on_screen a" "a \<noteq> loc" "a \<noteq> loc + 1" for a
    using s'(3) that blit_off [of "[c, 0]" a loc "umemory s"] by (auto simp: less_Suc_eq)
  ultimately show ?thesis using s'(2) by blast
qed

lemma printf_loop_shown:
  assumes "term_rel (con s) t" "fits (tcol t) ds" "\<forall>c \<in> set ds. c \<notin> {0, 8, 37}"
    and "\<forall>j < length ds. umemory s (fmt + of_nat (i + j)) = ds ! j" "umemory s (fmt + of_nat (i + length ds)) = 0"
    and "\<not> on_screen loc" "\<not> on_screen (loc + 1)"
    and "\<forall>j \<le> length ds. fmt + of_nat (i + j) \<noteq> loc \<and> fmt + of_nat (i + j) \<noteq> loc + 1 \<and> \<not> on_screen (fmt + of_nat (i + j))"
  shows "\<exists>s'. printf_loop e loc fmt i args s = Some s' \<and> term_rel (con s') (fold term_putc ds t) \<and>
    (\<forall>a. \<not> on_screen a \<longrightarrow> a \<noteq> loc \<longrightarrow> a \<noteq> loc + 1 \<longrightarrow> umemory s' a = umemory s a)"
  using assms(1-5,8)
proof (induction ds arbitrary: s t i)
  case Nil
  then show ?case by (simp add: printf_loop.simps Let_def)
next
  case (Cons c ds)
  have c: "umemory s (fmt + of_nat i) = c" "c \<notin> {0, 8, 37}" using Cons.prems(3,4) by auto
  have f: "fits (tcol t) [c]" using Cons.prems(2) by (cases ds) (auto split: if_splits)
  obtain s1 where s1: "printf_def_char e loc c s = Some s1" "term_rel (con s1) (term_putc c t)"
    "\<And>a. \<not> on_screen a \<Longrightarrow> a \<noteq> loc \<Longrightarrow> a \<noteq> loc + 1 \<Longrightarrow> umemory s1 a = umemory s a"
    using printf_char_shown [OF Cons.prems(1) c(2) f assms(6,7)] by blast
  have loop: "printf_loop e loc fmt i args s = printf_loop e loc fmt (i + 1) args s1"
    using c s1(1) by (subst printf_loop.simps) (simp add: Let_def)
  have off: "fmt + of_nat (i + j) \<noteq> loc" "fmt + of_nat (i + j) \<noteq> loc + 1" "\<not> on_screen (fmt + of_nat (i + j))"
    if "j \<le> Suc (length ds)" for j
    using Cons.prems(6) [rule_format, of j] that by simp_all
  have m: "umemory s1 (fmt + of_nat (i + j)) = umemory s (fmt + of_nat (i + j))" if "j \<le> Suc (length ds)" for j
    using s1(3) off that by blast
  have "\<exists>s'. printf_loop e loc fmt (i + 1) args s1 = Some s' \<and> term_rel (con s') (fold term_putc ds (term_putc c t)) \<and>
    (\<forall>a. \<not> on_screen a \<longrightarrow> a \<noteq> loc \<longrightarrow> a \<noteq> loc + 1 \<longrightarrow> umemory s' a = umemory s1 a)"
  proof (rule Cons.IH [OF s1(2)])
    show "fits (tcol (term_putc c t)) ds" using Cons.prems(2) by (simp add: term_putc_def split: if_splits)
    show "\<forall>c\<in>set ds. c \<notin> {0, 8, 37}" using Cons.prems(3) by simp
    have "umemory s (fmt + of_nat (i + Suc j)) = ds ! j" if "j < length ds" for j
      using Cons.prems(4) [rule_format, of "Suc j"] that by simp
    then show "\<forall>j<length ds. umemory s1 (fmt + of_nat (i + 1 + j)) = ds ! j"
      using m [of "Suc _"] by auto
    show "umemory s1 (fmt + of_nat (i + 1 + length ds)) = 0" using Cons.prems(5) m [of "Suc (length ds)"] by simp
    show "\<forall>j\<le>length ds. fmt + of_nat (i + 1 + j) \<noteq> loc \<and> fmt + of_nat (i + 1 + j) \<noteq> loc + 1 \<and>
        \<not> on_screen (fmt + of_nat (i + 1 + j))"
      using off [of "Suc _"] by simp
  qed
  then show ?case using loop s1(3) by auto
qed


end
