(* ===== verification/Exec.thy ===== *)
theory Exec
  imports Libc PageFault
begin

unbundle bit_operations_syntax

text \<open>
  Starting a program: what \<open>elf_load\<close> of \<^verbatim>\<open>sys/elf.c\<close>, \<open>sanexecve\<close> of \<^verbatim>\<open>sys/task.c\<close> and \<open>_start\<close> of
  \<^verbatim>\<open>crt/crt1.c\<close> do together. The loader is a sequence of steps, each of which adds bytes to the new address
  space and keeps those that are already there; the stack block that it leaves is the one \<open>_start\<close> reads.
\<close>

subsection \<open>Steps that keep the bytes of other pages\<close>

text \<open>\<open>X\<close> is a set of page numbers of user space.\<close>

definition keeps_bytes ::
    "nat set \<Rightarrow> (u64 \<Rightarrow> u64 list option) \<Rightarrow> 'a proc_state_scheme \<Rightarrow> (u64 \<Rightarrow> u64 list option) \<Rightarrow> 'a proc_state_scheme \<Rightarrow> bool" where
  "keeps_bytes X own s own' s' \<longleftrightarrow> own \<subseteq>\<^sub>m own' \<and> CR3 s' = CR3 s \<and>
     (\<forall>va b. unat va < 2 ^ 47 \<longrightarrow> unat va div 4096 \<notin> X \<longrightarrow> holds own s va b \<longrightarrow> holds own' s' va b)"

lemma keeps_bytesD:
  "keeps_bytes X own s own' s' \<Longrightarrow> own \<subseteq>\<^sub>m own'"
  "keeps_bytes X own s own' s' \<Longrightarrow> CR3 s' = CR3 s"
  "keeps_bytes X own s own' s' \<Longrightarrow> unat va < 2 ^ 47 \<Longrightarrow> unat va div 4096 \<notin> X \<Longrightarrow> holds own s va b \<Longrightarrow> holds own' s' va b"
  by (auto simp: keeps_bytes_def)

lemma keeps_bytes_refl [simp]: "keeps_bytes X own s own s"
  by (simp add: keeps_bytes_def)

lemma keeps_bytes_trans:
  "keeps_bytes X own s own1 s1 \<Longrightarrow> keeps_bytes Y own1 s1 own2 s2 \<Longrightarrow> keeps_bytes (X \<union> Y) own s own2 s2"
  by (auto simp: keeps_bytes_def intro: map_le_trans)

lemma aligned_get_address [simp]: "aligned (get_address e)"
proof -
  have "e AND (FRAME AND 0xFFF) = 0" by simp
  then show ?thesis unfolding get_address_def aligned_def by (simp add: and.assoc)
qed

lemma keeps_bytesI:
  assumes "own \<subseteq>\<^sub>m own'" "CR3 s' = CR3 s"
    and "\<And>va. unat va < 2 ^ 47 \<Longrightarrow> unat va div 4096 \<notin> X \<Longrightarrow> translate s' (CR3 s) va = translate s (CR3 s) va"
    and "\<And>f x. aligned f \<Longrightarrow> own f \<noteq> None \<Longrightarrow> umem s' (f + (x AND 0xFFF)) = umem s (f + (x AND 0xFFF))"
  shows "keeps_bytes X own s own' s'"
proof -
  have "own' f \<noteq> None" if "own f \<noteq> None" for f using that map_le_Some [OF assms(1)] by auto
  with assms show ?thesis by (auto simp: keeps_bytes_def holds_def)
qed

lemma holds_moved:
  assumes "holds own s va b" "own \<subseteq>\<^sub>m own'" "translate s' (CR3 s') va = translate s (CR3 s) va" "umem s' = umem s"
  shows "holds own' s' va b"
proof -
  obtain e p where "translate s (CR3 s) va = Some e" "own (get_address e) = Some p" "umem s (get_address e + (va AND 0xFFF)) = b"
    using assms(1) by (auto simp: holds_def)
  then show ?thesis using assms(3,4) map_le_Some [OF assms(2)] by (simp add: holds_def)
qed

text \<open>A change of kernel data.\<close>

lemma holds_kernel [simp]:
  "holds own (s\<lparr>vmas := v\<rparr>) va b = holds own s va b"
  "holds own (s\<lparr>tasks := k\<rparr>) va b = holds own s va b" "holds own (upd_task t f s) va b = holds own s va b"
  by (simp_all add: holds_def upd_task_def)

lemma keeps_bytes_kernel [simp]:
  "keeps_bytes X own s own' (s'\<lparr>vmas := v\<rparr>) = keeps_bytes X own s own' s'"
  "keeps_bytes X own s own' (upd_task t f s') = keeps_bytes X own s own' s'"
  by (simp_all add: keeps_bytes_def upd_task_def)

subsection \<open>The program headers\<close>

definition phdr_at :: "bytes \<Rightarrow> u64 \<Rightarrow> nat \<Rightarrow> Phdr" where
  "phdr_at img hdr i = read_phdr img (hdr + e_phoff img hdr + of_nat i * 56)"

text \<open>The pages of a segment, and the pages of memory that loading it takes at most: the record of the area,
  and for each page a frame and three tables.\<close>

definition seg_pages :: "Phdr \<Rightarrow> nat set" where
  "seg_pages ph = (if p_type ph = 1
     then {unat (p_vaddr ph) div 4096..(unat (p_vaddr ph) + unat (p_memsz ph)) div 4096} else {})"

definition seg_cost :: "Phdr \<Rightarrow> nat" where
  "seg_cost ph = (if p_type ph = 1 then 4 * segment_pages (p_vaddr ph) (p_memsz ph) + 1 else 0)"

definition seg_ok :: "Phdr \<Rightarrow> bool" where
  "seg_ok ph \<longleftrightarrow> (p_type ph = 1 \<longrightarrow> 0x200000 \<le> p_vaddr ph \<and> unat (p_vaddr ph) + unat (p_memsz ph) < 2 ^ 47 \<and>
     p_filesz ph \<le> p_memsz ph)"

definition seg_there :: "bytes \<Rightarrow> u64 \<Rightarrow> (u64 \<Rightarrow> u64 list option) \<Rightarrow> 'a proc_state_scheme \<Rightarrow> Phdr \<Rightarrow> bool" where
  "seg_there img hdr own s ph \<longleftrightarrow> (p_type ph = 1 \<longrightarrow> p_flags ph = 5 \<or> p_flags ph = 6 \<longrightarrow>
     (\<forall>k < unat (p_filesz ph). holds own s (p_vaddr ph + of_nat k) (img (hdr + p_offset ph + of_nat k))))"

text \<open>An address outside the pages of a segment.\<close>

lemma other_page_path:
  assumes "unat va + unat memsz < 2 ^ 47" "unat a < 2 ^ 47"
    and "unat a div 4096 \<notin> {unat va div 4096..(unat va + unat memsz) div 4096}" "k < segment_pages va memsz"
  shows "vpath a \<noteq> vpath (page_from (va div 0x1000 * 0x1000) k)"
proof
  let ?p = "page_from (va div 0x1000 * 0x1000) k"
  have le: "unat va div 4096 + k \<le> (unat va + unat memsz) div 4096"
    using assms(4) by (simp add: segment_pages_def less_Suc_eq_le)
  then have "(unat va div 4096 + k) * 4096 \<le> unat va + unat memsz"
    using div_times_less_eq_dividend [of "unat va + unat memsz" 4096] by (meson mult_le_mono1 order_trans)
  then have b: "(unat va div 4096 + k) * 4096 < 2 ^ 47" using assms(1) by linarith
  then have u: "unat ?p = (unat va div 4096 + k) * 4096"
    using unat_page_from [of "va div 0x1000 * 0x1000" k] by (simp add: unat_page_start)
  assume "vpath a = vpath ?p"
  then have "unat a div 4096 = unat ?p div 4096" using vpath_low_eq [of a ?p] assms(2) b u by simp
  then have "unat a div 4096 = unat va div 4096 + k" using u by simp
  with le assms(3) show False by simp
qed

lemma seg_byte_in:
  assumes "seg_ok ph" "p_type ph = 1" "k < unat (p_filesz ph)"
  shows "unat (p_vaddr ph + of_nat k) < 2 ^ 47" "unat (p_vaddr ph + of_nat k) div 4096 \<in> seg_pages ph"
    "0x200000 \<le> unat (p_vaddr ph + of_nat k)"
proof -
  have k: "k < unat (p_memsz ph)" and m: "unat (p_vaddr ph) + unat (p_memsz ph) < 2 ^ 47" and l: "0x200000 \<le> unat (p_vaddr ph)"
    using assms by (auto simp: seg_ok_def word_le_nat_alt)
  have u: "unat (p_vaddr ph + of_nat k) = unat (p_vaddr ph) + k" by (rule segment_byte_page(3) [OF m k])
  with k m l show "unat (p_vaddr ph + of_nat k) < 2 ^ 47" "0x200000 \<le> unat (p_vaddr ph + of_nat k)" by simp_all
  show "unat (p_vaddr ph + of_nat k) div 4096 \<in> seg_pages ph"
    using u k assms(2) by (simp add: seg_pages_def div_le_mono)
qed

text \<open>One header, of any type.\<close>

lemma load_phdr_step:
  assumes "vm_wf own fl s" "own (CR3 s) = Some []" "seg_ok (phdr_at img hdr i)" "seg_cost (phdr_at img hdr i) \<le> length fl"
  obtains w' s' own' fl' where "load_phdr img hdr task i (w, s) = Some (w', s')" "vm_wf own' fl' s'"
    "length fl \<le> seg_cost (phdr_at img hdr i) + length fl'" "same_but_load task s s'"
    "keeps_bytes (seg_pages (phdr_at img hdr i)) own s own' s'" "seg_there img hdr own' s' (phdr_at img hdr i)"
proof (cases "p_type (phdr_at img hdr i) = 1")
  case False
  then have "load_phdr img hdr task i (w, s) = Some (w, s)" by (simp add: load_phdr_def phdr_at_def Let_def)
  then show thesis by (rule that [OF _ assms(1)]) (use False in \<open>simp_all add: seg_cost_def seg_there_def\<close>)
next
  case True
  let ?ph = "phdr_at img hdr i"
  have small: "unat (p_vaddr ?ph) + unat (p_memsz ?ph) < 2 ^ 47" "p_filesz ?ph \<le> p_memsz ?ph"
    "4 * segment_pages (p_vaddr ?ph) (p_memsz ?ph) < length fl"
    using assms(3,4) True by (simp_all add: seg_ok_def seg_cost_def)
  obtain v s' a own' fl' where
    1: "load_phdr img hdr task i (w, s) = Some (Some v, s')"
      "same_but_mem (upd_task task (vma_update (\<lambda>_. Some v)) (s\<lparr>vmas := vmas s', umem := umem s'\<rparr>)) s'"
      "vm_wf own' fl' s'" "own \<subseteq>\<^sub>m own'" "length fl \<le> 4 * segment_pages (p_vaddr ?ph) (p_memsz ?ph) + 1 + length fl'"
      "\<And>k. p_flags ?ph = 5 \<or> p_flags ?ph = 6 \<Longrightarrow> k < unat (p_filesz ?ph) \<Longrightarrow>
         holds own' s' (p_vaddr ?ph + of_nat k) (img (hdr + p_offset ?ph + of_nat k))"
      "\<And>va. \<forall>k < segment_pages (p_vaddr ?ph) (p_memsz ?ph). vpath va \<noteq> vpath (page_from (p_vaddr ?ph div 0x1000 * 0x1000) k) \<Longrightarrow>
         translate s' (CR3 s) va = translate s (CR3 s) va"
      "\<And>f x. aligned f \<Longrightarrow> own f \<noteq> None \<Longrightarrow> umem s' (f + (x AND 0xFFF)) = umem s (f + (x AND 0xFFF))"
    by (rule load_phdr_spec [OF assms(1,2) phdr_at_def True small, of task w]) (rule that)
  have same: "same_but_load task s s'" by (rule same_but_loadI [OF 1(2)])
  have keep: "keeps_bytes (seg_pages ?ph) own s own' s'"
    using 1(7,8) True other_page_path [OF small(1)] by (intro keeps_bytesI [OF 1(4) same_but_loadD(1) [OF same]]) (simp_all add: seg_pages_def)
  show thesis
    by (rule that [OF 1(1,3) _ same keep]) (use 1(5,6) True in \<open>simp_all add: seg_cost_def seg_there_def\<close>)
qed

lemma seg_there_kept:
  assumes "seg_there img hdr own s ph" "keeps_bytes X own s own' s'" "seg_ok ph" "seg_pages ph \<inter> X = {}"
  shows "seg_there img hdr own' s' ph"
  using assms(1) seg_byte_in [OF assms(3)] keeps_bytesD(3) [OF assms(2)] assms(4)
  unfolding seg_there_def by blast

text \<open>All headers, in order.\<close>

lemma load_phdrs_step:
  assumes "vm_wf own fl s" "own (CR3 s) = Some []" "\<forall>i \<in> set is. seg_ok (phdr_at img hdr i)"
    and "(\<Sum>i \<leftarrow> is. seg_cost (phdr_at img hdr i)) \<le> length fl"
    and "sorted_wrt (\<lambda>i j. seg_pages (phdr_at img hdr i) \<inter> seg_pages (phdr_at img hdr j) = {}) is"
  obtains w' s' own' fl' where "for_each (load_phdr img hdr task) is (w, s) = Some (w', s')" "vm_wf own' fl' s'"
    "length fl \<le> (\<Sum>i \<leftarrow> is. seg_cost (phdr_at img hdr i)) + length fl'" "same_but_load task s s'"
    "keeps_bytes (\<Union>i \<in> set is. seg_pages (phdr_at img hdr i)) own s own' s'"
    "\<forall>i \<in> set is. seg_there img hdr own' s' (phdr_at img hdr i)"
  using assms
proof (induction "is" arbitrary: own fl s w thesis)
  case Nil
  show ?case by (rule Nil.prems(1) [of w s own fl]) (use Nil.prems in simp_all)
next
  case (Cons i "is")
  let ?ph = "phdr_at img hdr"
  obtain w1 s1 own1 fl1 where
    1: "load_phdr img hdr task i (w, s) = Some (w1, s1)" "vm_wf own1 fl1 s1" "length fl \<le> seg_cost (?ph i) + length fl1"
      "same_but_load task s s1" "keeps_bytes (seg_pages (?ph i)) own s own1 s1" "seg_there img hdr own1 s1 (?ph i)"
    by (rule load_phdr_step [OF Cons.prems(2,3), of img hdr i task w]) (use Cons.prems(4,5) in auto)
  have root: "own1 (CR3 s1) = Some []" using keeps_bytesD(2) [OF 1(5)] map_le_Some [OF keeps_bytesD(1) [OF 1(5)] Cons.prems(3)] by simp
  obtain w' s' own' fl' where
    2: "for_each (load_phdr img hdr task) is (w1, s1) = Some (w', s')" "vm_wf own' fl' s'"
      "length fl1 \<le> (\<Sum>i \<leftarrow> is. seg_cost (?ph i)) + length fl'" "same_but_load task s1 s'"
      "keeps_bytes (\<Union>i \<in> set is. seg_pages (?ph i)) own1 s1 own' s'"
      "\<forall>i \<in> set is. seg_there img hdr own' s' (?ph i)"
    by (rule Cons.IH [OF _ 1(2) root, of w1]) (use Cons.prems(4-6) 1(3) in auto)
  have "seg_there img hdr own' s' (?ph i)"
    by (rule seg_there_kept [OF 1(6) 2(5)]) (use Cons.prems(4,6) in auto)
  then show ?case
    using keeps_bytes_trans [OF 1(5) 2(5)] same_but_load_trans [OF 1(4) 2(4)] 1(1,3) 2(1-3,6)
    by (intro Cons.prems(1)) auto
qed

subsection \<open>The heap page, the stack page and the argument block\<close>

text \<open>A fresh page mapped at \<open>va\<close>.\<close>

lemma get_phy_addr_step:
  assumes "vm_wf own fl s" "own (CR3 s) = Some []" "4 \<le> length fl" "unat va < 2 ^ 47"
  obtains s' f own' fl' where "get_phy_addr s va = Some (va, s')" "vm_wf own' fl' s'" "length fl \<le> 4 + length fl'"
    "same_but_mem s s'" "own \<subseteq>\<^sub>m own'" "translate s' (CR3 s) va = Some (f OR 7)" "aligned f" "own f = None" "own' f = Some [0, 0, 0]"
    "\<And>a. unat a < 2 ^ 47 \<Longrightarrow> unat a div 4096 \<noteq> unat va div 4096 \<Longrightarrow> translate s' (CR3 s) a = translate s (CR3 s) a"
proof -
  obtain x fl0 where fl: "fl = x # fl0" "3 \<le> length fl0" using assms(3) by (cases fl) auto
  obtain s1 own1 fl1 where
    1: "map_at (s\<lparr>free_list := nxt (pages s x)\<rparr>) (CR3 s) va (page_addr (pages s x)) = Some s1" "vm_wf own1 fl1 s1"
      "own \<subseteq>\<^sub>m own1" "own1 (page_addr (pages s x)) = Some [0, 0, 0]" "same_but_mem s s1" "length fl0 \<le> 3 + length fl1"
      "translate s1 (CR3 s) va = Some (page_addr (pages s x) OR 7)" "aligned (page_addr (pages s x))" "own (page_addr (pages s x)) = None"
      "\<And>r va'. own r = Some [] \<Longrightarrow> vpath va' \<noteq> vpath va \<Longrightarrow> translate s1 r va' = translate s r va'"
    by (rule map_fresh_page [OF assms(1)[unfolded fl(1)] assms(2) fl(2) refl, of va]) (rule that)
  have g: "get_phy_addr s va = Some (va, s1)"
    using page_alloc_addr_head [OF assms(1)[unfolded fl(1)]] 1(1) by (simp add: get_phy_addr_def map_process_def get_CR3_def)
  have "translate s1 (CR3 s) a = translate s (CR3 s) a" if "unat a < 2 ^ 47" "unat a div 4096 \<noteq> unat va div 4096" for a
    using 1(10) [OF assms(2), of a] vpath_low_eq [of a va] that assms(4) by auto
  then show thesis using that [OF g 1(2) _ 1(5,3,7,8,9,4)] 1(6) by (simp add: fl(1))
qed

text \<open>A copy into one page.\<close>

lemma vcopy_page:
  assumes "translate s (CR3 s) pg = Some (f OR 7)" "aligned f" "aligned pg" "unat pg < 2 ^ 47"
    and "unat pg \<le> unat dest" "unat dest + n \<le> unat pg + 4096"
  obtains m where "vcopy img dest src n s = Some (s\<lparr>umem := m\<rparr>)"
    "\<And>k. k < n \<Longrightarrow> m (f + (dest + of_nat k AND 0xFFF)) = img (src + of_nat k)"
    "\<And>p. \<forall>k < n. p \<noteq> f + (dest + of_nat k AND 0xFFF) \<Longrightarrow> m p = umem s p"
proof -
  obtain q where q: "unat pg = 4096 * q" using aligned_obtain [OF assms(3)] by blast
  then have "q < 2 ^ 35" using assms(4) by simp
  then have b: "unat dest + n \<le> 2 ^ 47" using assms(6) q by simp
  have d: "(unat dest + k) div 4096 = q" if "k < n" for k
    using that assms(5,6) q by (intro div_nat_eqI) simp_all
  have "unat (dest + of_nat k) = unat dest + k" if "k < n" for k
    using that b by (simp add: unat_word_ariths unsigned_of_nat take_bit_nat_eq_self)
  then have "vpath (dest + of_nat k) = vpath pg" if "k < n" for k
    using d [OF that] that q by (intro vpath_page_eq) simp
  then have t: "translate s (CR3 s) (dest + of_nat k) = Some (f OR 7) \<and> aligned f" if "k < n" for k
    using assms(1,2) that by (simp add: translate_def)
  show thesis
    by (rule vcopy_mapped [OF b t, where img = img and src = src]) (simp_all add: d that)
qed

lemma same_but_load_mem: "same_but_mem s s' \<Longrightarrow> same_but_load task s s'"
  by (rule same_but_loadI [of _ "vma (tasks s task)"]) (cases s; cases s'; simp add: same_but_mem_def upd_task_def)

lemma same_but_load_area: "s' = s\<lparr>free_list := x, vmas := y\<rparr> \<Longrightarrow> same_but_load task s s'"
  by (rule same_but_loadI [of _ "vma (tasks s task)"]) (cases s; simp add: same_but_mem_def upd_task_def)

text \<open>A page and the record of its area, as for the heap and the stack.\<close>

lemma area_step:
  assumes "vm_wf own fl s" "own (CR3 s) = Some []" "5 \<le> length fl" "unat va < 2 ^ 47"
  obtains s1 v s2 f own' fl' where "get_phy_addr s va = Some (va, s1)" "addVMA st en flags type s1 = Some (v, s2)"
    "vm_wf own' fl' s2" "length fl \<le> 5 + length fl'" "own \<subseteq>\<^sub>m own'" "CR3 s2 = CR3 s" "umem s2 = umem s" "tasks s2 = tasks s"
    "\<And>task. same_but_load task s s2" "translate s2 (CR3 s) va = Some (f OR 7)" "aligned f" "own f = None" "own' f = Some [0, 0, 0]"
    "\<And>a. unat a < 2 ^ 47 \<Longrightarrow> unat a div 4096 \<noteq> unat va div 4096 \<Longrightarrow> translate s2 (CR3 s) a = translate s (CR3 s) a"
proof -
  have "4 \<le> length fl" using assms(3) by simp
  then obtain s1 f own1 fl1 where
    1: "get_phy_addr s va = Some (va, s1)" "vm_wf own1 fl1 s1" "length fl \<le> 4 + length fl1" "same_but_mem s s1" "own \<subseteq>\<^sub>m own1"
      "translate s1 (CR3 s) va = Some (f OR 7)" "aligned f" "own f = None" "own1 f = Some [0, 0, 0]"
      "\<And>a. unat a < 2 ^ 47 \<Longrightarrow> unat a div 4096 \<noteq> unat va div 4096 \<Longrightarrow> translate s1 (CR3 s) a = translate s (CR3 s) a"
    by (rule get_phy_addr_step [OF assms(1,2) _ assms(4)]) (rule that)
  have "fl1 \<noteq> []" using assms(3) 1(3) by auto
  then obtain v a s2 own' fl' where
    2: "addVMA st en flags type s1 = Some (v, s2)" "s2 = s1\<lparr>free_list := free_list s2, vmas := (vmas s1)(v := a)\<rparr>"
      "vm_wf own' fl' s2" "own1 \<subseteq>\<^sub>m own'" "length fl1 = Suc (length fl')" "\<And>r va. translate s2 r va = translate s1 r va"
    by (rule addVMA_claims [OF 1(2)]) (rule that)
  have s2: "CR3 s2 = CR3 s" "umem s2 = umem s" "tasks s2 = tasks s"
    using same_but_mem_proc [OF 1(4)] by (subst 2(2), simp)+
  have same: "same_but_load task s s2" for task
    by (rule same_but_load_trans [OF same_but_load_mem [OF 1(4)] same_but_load_area [OF 2(2)]])
  show thesis
    by (rule that [OF 1(1) 2(1,3) _ map_le_trans [OF 1(5) 2(4)] s2 same _ 1(7,8) map_le_Some [OF 2(4) 1(9)]])
       (use 1(3,6,10) 2(5,6) in simp_all)
qed

text \<open>The block that \<open>elf_load\<close> writes for a program with arguments: the count, and a row of 64 bytes for each.\<close>

definition args_there ::
    "bytes \<Rightarrow> u64 \<Rightarrow> u64 \<Rightarrow> nat \<Rightarrow> (u64 \<Rightarrow> u64 list option) \<Rightarrow> 'a proc_state_scheme \<Rightarrow> bool" where
  "args_there img args ptr n own s \<longleftrightarrow> (\<forall>i < 8. holds own s (ptr + of_nat i) (le_bytes (of_nat n) i)) \<and>
     (\<forall>k < 64 * n. holds own s (ptr + 8 + of_nat k) (img (args + of_nat k)))"

abbreviation stack_page :: u64 where "stack_page \<equiv> USER_STACK_TOP - 0x1000"

definition args_ptr :: "nat \<Rightarrow> u64" where
  "args_ptr n = stack_page + 0x1000 - 16 - of_nat (64 * n)"

lemma unat_args_ptr: "n \<le> 63 \<Longrightarrow> unat (args_ptr n) = 0xEFFFFFF0 - 64 * n"
  by (simp add: args_ptr_def unat_sub unat_word_ariths unsigned_of_nat take_bit_nat_eq_self word_le_nat_alt)

text \<open>The addresses of the block lie in the stack page.\<close>

lemma args_addr:
  assumes "n \<le> 63"
  shows "i \<le> 8 \<Longrightarrow> unat (args_ptr n + of_nat i) = 0xEFFFF000 + (4080 - 64 * n + i)"
    and "k < 64 * n \<Longrightarrow> unat (args_ptr n + 8 + of_nat k) = 0xEFFFF000 + (4088 - 64 * n + k)"
proof -
  have u: "unat (args_ptr n + of_nat i) = 0xEFFFFFF0 - 64 * n + i" if "i \<le> 4048" for i
    using that assms unat_args_ptr [OF assms] by (simp add: unat_word_ariths unsigned_of_nat take_bit_nat_eq_self)
  show "i \<le> 8 \<Longrightarrow> unat (args_ptr n + of_nat i) = 0xEFFFF000 + (4080 - 64 * n + i)" using u [of i] assms by simp
  show "k < 64 * n \<Longrightarrow> unat (args_ptr n + 8 + of_nat k) = 0xEFFFF000 + (4088 - 64 * n + k)"
    using u [of "8 + k"] assms by (simp add: add.assoc)
qed

lemma stack_byte:
  assumes "translate s (CR3 s) stack_page = Some (f OR 7)" "aligned f" "own f \<noteq> None"
    and "unat a = 0xEFFFF000 + j" "j < 4096" "m (f + (a AND 0xFFF)) = b"
  shows "holds own (s\<lparr>umem := m\<rparr>) a b"
proof -
  have "vpath a = vpath stack_page" using assms(4,5) by (intro vpath_page_eq) (simp add: div_nat_eqI)
  then show ?thesis using assms by (simp add: holds_def translate_def get_address_idem)
qed

text \<open>Bytes in a frame other than \<open>f\<close>.\<close>

definition outside :: "u64 \<Rightarrow> 'a proc_state_scheme \<Rightarrow> u64 \<Rightarrow> u8 \<Rightarrow> bool" where
  "outside f s a b \<longleftrightarrow> (\<exists>e. translate s (CR3 s) a = Some e \<and> get_address e \<noteq> f \<and> umem s (get_address e + (a AND 0xFFF)) = b)"

lemma outside_write:
  assumes "outside f s a b" "aligned f" "\<And>p. (\<And>y. p \<noteq> f + (y AND 0xFFF)) \<Longrightarrow> m p = umem s p"
  shows "outside f (s\<lparr>umem := m\<rparr>) a b"
proof -
  obtain e where e: "translate s (CR3 s) a = Some e" "get_address e \<noteq> f" "umem s (get_address e + (a AND 0xFFF)) = b"
    using assms(1) by (auto simp: outside_def)
  have "get_address e + (a AND 0xFFF) \<noteq> f + (y AND 0xFFF)" for y
    using frame_offset_inj(1) [OF aligned_get_address assms(2)] e(2) by blast
  then have "m (get_address e + (a AND 0xFFF)) = b" using assms(3) e(3) by simp
  with e(1,2) show ?thesis by (auto simp: outside_def)
qed

text \<open>A copy into the frame \<open>f\<close> from outside of it is one from an image of the source.\<close>

lemma vmove_vcopy:
  assumes "translate s (CR3 s) pg = Some (f OR 7)" "aligned f" "aligned pg" "unat pg < 2 ^ 47"
    and "unat pg \<le> unat dest" "unat dest + n \<le> unat pg + 4096"
    and "\<And>k. k < n \<Longrightarrow> outside f s (src + of_nat k) (img (src + of_nat k))"
  shows "vmove dest src n s = vcopy img dest src n s"
  using assms(6,7)
proof (induction n)
  case 0
  show ?case by (simp add: vmove_def vcopy_def)
next
  case (Suc n)
  have n: "unat dest + n \<le> unat pg + 4096" using Suc.prems(1) by simp
  obtain m where m: "vcopy img dest src n s = Some (s\<lparr>umem := m\<rparr>)" "\<And>p. \<forall>k < n. p \<noteq> f + (dest + of_nat k AND 0xFFF) \<Longrightarrow> m p = umem s p"
    by (rule vcopy_page [OF assms(1-5) n, where img = img and src = src]) (rule that)
  have "outside f (s\<lparr>umem := m\<rparr>) (src + of_nat n) (img (src + of_nat n))"
    by (rule outside_write [OF Suc.prems(2) assms(2)]) (use m(2) in auto)
  then have "vload (src + of_nat n) (s\<lparr>umem := m\<rparr>) = Some (img (src + of_nat n))" by (auto simp: outside_def vload_def)
  moreover have "vmove dest src n s = vcopy img dest src n s" using Suc by simp
  ultimately show ?case using m(1) by (simp add: vmove_def vcopy_def for_each_append split: bind_split)
qed

lemma push_args:
  assumes "translate s (CR3 s) stack_page = Some (f OR 7)" "aligned f" "own f \<noteq> None" "n \<le> 63"
    and "\<And>k. k < 64 * n \<Longrightarrow> outside f s (args + of_nat k) (img (args + of_nat k))"
  obtains m where "do {
      s \<leftarrow> for_each (\<lambda>i. vstore (args_ptr n + of_nat i) (le_bytes (of_nat n) i)) [0..<8] s;
      vmove (args_ptr n + 8) args (64 * n) s } = Some (s\<lparr>umem := m\<rparr>)"
    "args_there img args (args_ptr n) n own (s\<lparr>umem := m\<rparr>)"
    "\<And>g x. aligned g \<Longrightarrow> g \<noteq> f \<Longrightarrow> m (g + (x AND 0xFFF)) = umem s (g + (x AND 0xFFF))"
proof -
  let ?p = "args_ptr n"
  note u = args_addr [OF assms(4)]
  have pg: "aligned stack_page" "unat stack_page < 2 ^ 47" by (simp_all add: aligned_def)
  have in1: "unat stack_page \<le> unat ?p" "unat ?p + 8 \<le> unat stack_page + 4096"
    using unat_args_ptr [OF assms(4)] assms(4) by simp_all
  have in2: "unat stack_page \<le> unat (?p + 8)" "unat (?p + 8) + 64 * n \<le> unat stack_page + 4096"
    using u(1) [of 8] assms(4) by simp_all
  obtain m1 where m1: "vcopy (\<lambda>a. le_bytes (of_nat n) (unat a)) ?p 0 8 s = Some (s\<lparr>umem := m1\<rparr>)"
    "\<And>k. k < 8 \<Longrightarrow> m1 (f + (?p + of_nat k AND 0xFFF)) = le_bytes (of_nat n) (unat (0 + of_nat k :: u64))"
    "\<And>p. \<forall>k < 8. p \<noteq> f + (?p + of_nat k AND 0xFFF) \<Longrightarrow> m1 p = umem s p"
    by (rule vcopy_page [OF assms(1,2) pg in1]) (rule that)
  have t1: "translate (s\<lparr>umem := m1\<rparr>) (CR3 (s\<lparr>umem := m1\<rparr>)) stack_page = Some (f OR 7)" using assms(1) by simp
  obtain m where m: "vcopy img (?p + 8) args (64 * n) (s\<lparr>umem := m1\<rparr>) = Some (s\<lparr>umem := m1, umem := m\<rparr>)"
    "\<And>k. k < 64 * n \<Longrightarrow> m (f + (?p + 8 + of_nat k AND 0xFFF)) = img (args + of_nat k)"
    "\<And>p. \<forall>k < 64 * n. p \<noteq> f + (?p + 8 + of_nat k AND 0xFFF) \<Longrightarrow> m p = umem (s\<lparr>umem := m1\<rparr>) p"
    by (rule vcopy_page [OF t1 assms(2) pg in2]) (rule that)
  have "outside f (s\<lparr>umem := m1\<rparr>) (args + of_nat k) (img (args + of_nat k))" if "k < 64 * n" for k
    by (rule outside_write [OF assms(5) [OF that] assms(2)]) (use m1(3) in auto)
  then have move: "vmove (?p + 8) args (64 * n) (s\<lparr>umem := m1\<rparr>) = vcopy img (?p + 8) args (64 * n) (s\<lparr>umem := m1\<rparr>)"
    by (rule vmove_vcopy [OF t1 assms(2) pg in2])
  have md: "(0xEFFFF000 + x) mod 4096 = x mod 4096" for x :: nat using mod_mult_self4 [of 4096 "0xEFFFF" x] by simp
  have count: "m (f + (?p + of_nat i AND 0xFFF)) = le_bytes (of_nat n) i" if i: "i < 8" for i
  proof -
    have "f + (?p + of_nat i AND 0xFFF) \<noteq> f + (?p + 8 + of_nat k AND 0xFFF)" if k: "k < 64 * n" for k
    proof
      assume "f + (?p + of_nat i AND 0xFFF) = f + (?p + 8 + of_nat k AND 0xFFF)"
      from frame_offset_inj(2) [OF assms(2,2) this] have "(4080 - 64 * n + i) mod 4096 = (4088 - 64 * n + k) mod 4096"
        unfolding u(1) [OF less_imp_le [OF i]] u(2) [OF k] md .
      then show False using i k assms(4) by simp
    qed
    then show ?thesis using m(3) m1(2) [OF i] i by (simp add: unsigned_of_nat take_bit_nat_eq_self)
  qed
  have there: "args_there img args ?p n own (s\<lparr>umem := m\<rparr>)"
    unfolding args_there_def
  proof (intro conjI allI impI)
    show "holds own (s\<lparr>umem := m\<rparr>) (?p + of_nat i) (le_bytes (of_nat n) i)" if "i < 8" for i
      by (rule stack_byte [where own = own and m = m, OF assms(1-3) u(1) _ count]) (use that assms(4) in simp_all)
    show "holds own (s\<lparr>umem := m\<rparr>) (?p + 8 + of_nat k) (img (args + of_nat k))" if "k < 64 * n" for k
      by (rule stack_byte [where own = own and m = m, OF assms(1-3) u(2) _ m(2)]) (use that assms(4) in simp_all)
  qed
  have other: "m (g + (x AND 0xFFF)) = umem s (g + (x AND 0xFFF))" if "aligned g" "g \<noteq> f" for g x
  proof -
    have "g + (x AND 0xFFF) \<noteq> f + (y AND 0xFFF)" for y using frame_offset_inj(1) [OF that(1) assms(2)] that(2) by blast
    then show ?thesis using m(3) m1(3) by simp
  qed
  have "for_each (\<lambda>i. vstore (?p + of_nat i) (le_bytes (of_nat n) i)) [0..<8] s = Some (s\<lparr>umem := m1\<rparr>)"
    unfolding m1(1) [symmetric] vcopy_def
    by (rule for_each_cong) (simp add: unsigned_of_nat take_bit_nat_eq_self)
  then show thesis using that [OF _ there other] m(1) move by simp
qed

subsection \<open>The loader\<close>

text \<open>A program that can be loaded: its segments lie above the first two megabytes, have no page in common
  and leave the pages of the heap and of the stack free.\<close>

definition program_ok :: "bytes \<Rightarrow> u64 \<Rightarrow> bool" where
  "program_ok img hdr \<longleftrightarrow>
     (\<forall>i \<in> set [0..<unat (e_phnum img hdr)]. seg_ok (phdr_at img hdr i) \<and>
        0x8000 \<notin> seg_pages (phdr_at img hdr i) \<and> 0xEFFFF \<notin> seg_pages (phdr_at img hdr i)) \<and>
     sorted_wrt (\<lambda>i j. seg_pages (phdr_at img hdr i) \<inter> seg_pages (phdr_at img hdr j) = {}) [0..<unat (e_phnum img hdr)]"

text \<open>The argument rows lie outside the pages that the loader maps.\<close>

definition args_apart :: "bytes \<Rightarrow> u64 \<Rightarrow> u64 \<Rightarrow> nat \<Rightarrow> bool" where
  "args_apart img hdr args n \<longleftrightarrow> (\<forall>k < 64 * n. unat (args + of_nat k) < 2 ^ 47 \<and>
     unat (args + of_nat k) div 4096 \<notin> {0x8000, 0xEFFFF} \<union> (\<Union>i < unat (e_phnum img hdr). seg_pages (phdr_at img hdr i)))"

definition program_cost :: "bytes \<Rightarrow> u64 \<Rightarrow> nat" where
  "program_cost img hdr = (\<Sum>i \<leftarrow> [0..<unat (e_phnum img hdr)]. seg_cost (phdr_at img hdr i)) + 10"

definition program_there :: "bytes \<Rightarrow> u64 \<Rightarrow> (u64 \<Rightarrow> u64 list option) \<Rightarrow> 'a proc_state_scheme \<Rightarrow> bool" where
  "program_there img hdr own s \<longleftrightarrow> (\<forall>i < unat (e_phnum img hdr). seg_there img hdr own s (phdr_at img hdr i))"

lemma program_there_kept:
  assumes "program_there img hdr own s" "keeps_bytes X own s own' s'" "program_ok img hdr" "X \<subseteq> {0x8000, 0xEFFFF}"
  shows "program_there img hdr own' s'"
  unfolding program_there_def
proof (intro allI impI)
  fix i assume i: "i < unat (e_phnum img hdr)"
  then have "seg_pages (phdr_at img hdr i) \<inter> X = {}" "seg_ok (phdr_at img hdr i)"
    using assms(3,4) by (auto simp: program_ok_def)
  with seg_there_kept [OF _ assms(2)] assms(1) i show "seg_there img hdr own' s' (phdr_at img hdr i)"
    by (simp add: program_there_def)
qed

lemma argc_word:
  assumes "n \<le> 63"
  shows "sint (of_nat n :: u32) = int n" "scast (64 * of_nat n :: u32) = (of_nat (64 * n) :: u64)"
    "scast (of_nat n :: u32) = (of_nat n :: u64)" "unat (of_nat n * 64 :: u32) = 64 * n"
proof -
  have s: "sint (of_nat k :: u32) = int k" if "k < 2 ^ 31" for k
    using that by (subst sint_small) (simp_all add: unsigned_of_nat take_bit_nat_eq_self)
  have c: "scast (of_nat k :: u32) = (of_nat k :: u64)" if "k < 2 ^ 31" for k
    using s [OF that] by (metis of_int_of_nat_eq of_int_sint)
  show "sint (of_nat n :: u32) = int n" "scast (of_nat n :: u32) = (of_nat n :: u64)" using s c assms by simp_all
  show "scast (64 * of_nat n :: u32) = (of_nat (64 * n) :: u64)" using c [of "64 * n"] assms by simp
  show "unat (of_nat n * 64 :: u32) = 64 * n"
    using assms by (simp add: unat_word_ariths unsigned_of_nat take_bit_nat_eq_self)
qed

lemma same_but_load_umem [simp]: "same_but_load task s (s'\<lparr>umem := m\<rparr>) = same_but_load task s s'"
  by (cases s; cases s') (simp add: same_but_load_def same_but_mem_def)

lemma same_but_load_vmas [simp]: "same_but_load task s (s'\<lparr>vmas := v\<rparr>) = same_but_load task s s'"
  by (cases s; cases s') (simp add: same_but_load_def same_but_mem_def)

text \<open>The stack page with the argument block, from a state whose stack page need not be mapped.\<close>

lemma stack_step:
  fixes s :: "'a proc_state_scheme" and w :: "u64 \<Rightarrow> 'a proc_state_scheme \<Rightarrow> u64 \<Rightarrow> vma_struct"
  assumes "vm_wf own fl s" "own (CR3 s) = Some []" "5 \<le> length fl" "n \<le> 63"
    and "\<And>k. k < 64 * n \<Longrightarrow> unat (args + of_nat k) < 2 ^ 47 \<and> unat (args + of_nat k) div 4096 \<noteq> 0xEFFFF \<and>
      holds own s (args + of_nat k) (img (args + of_nat k))"
  obtains s1 v s2 s' own' fl' where "get_phy_addr s stack_page = Some (stack_page, s1)" "addVMA st en flags type s1 = Some (v, s2)"
    "(if 0 < n then do {
        u \<leftarrow> for_each (\<lambda>i. vstore (args_ptr n + of_nat i) (le_bytes (of_nat n) i)) [0..<8] (s2\<lparr>vmas := w v s2\<rparr>);
        vmove (args_ptr n + 8) args (64 * n) u } else Some (s2\<lparr>vmas := w v s2\<rparr>)) = Some s'"
    "vm_wf own' fl' s'" "\<And>task. same_but_load task s s'" "keeps_bytes {0xEFFFF} own s own' s'"
    "0 < n \<Longrightarrow> args_there img args (args_ptr n) n own' s'"
proof -
  have top: "unat stack_page < 2 ^ 47" by simp
  obtain s1 v s2 f own' fl' where
    1: "get_phy_addr s stack_page = Some (stack_page, s1)" "addVMA st en flags type s1 = Some (v, s2)" "vm_wf own' fl' s2"
      "length fl \<le> 5 + length fl'" "own \<subseteq>\<^sub>m own'" "CR3 s2 = CR3 s" "umem s2 = umem s" "tasks s2 = tasks s" "\<And>task. same_but_load task s s2"
      "translate s2 (CR3 s) stack_page = Some (f OR 7)" "aligned f" "own f = None" "own' f = Some [0, 0, 0]"
      "\<And>a. unat a < 2 ^ 47 \<Longrightarrow> unat a div 4096 \<noteq> unat stack_page div 4096 \<Longrightarrow> translate s2 (CR3 s) a = translate s (CR3 s) a"
    by (rule area_step [OF assms(1-3) top]) (rule that)
  define s3 where "s3 = s2\<lparr>vmas := w v s2\<rparr>"
  have f: "translate s3 (CR3 s3) stack_page = Some (f OR 7)" "own' f \<noteq> None" using 1(6,10,13) by (simp_all add: s3_def)
  have src: "outside f s3 (args + of_nat k) (img (args + of_nat k))" if "k < 64 * n" for k
    using assms(5) [OF that] 1(14) [of "args + of_nat k"] 1(6,7,12) by (auto simp: holds_def outside_def s3_def)
  obtain m where m: "do {
      u \<leftarrow> for_each (\<lambda>i. vstore (args_ptr n + of_nat i) (le_bytes (of_nat n) i)) [0..<8] s3;
      vmove (args_ptr n + 8) args (64 * n) u } = Some (s3\<lparr>umem := m\<rparr>)"
    "args_there img args (args_ptr n) n own' (s3\<lparr>umem := m\<rparr>)"
    "\<And>g x. aligned g \<Longrightarrow> g \<noteq> f \<Longrightarrow> m (g + (x AND 0xFFF)) = umem s3 (g + (x AND 0xFFF))"
    by (rule push_args [OF f(1) 1(11), where own = own' and args = args and img = img, OF f(2) assms(4) src]) (assumption, rule that)
  define s' where "s' = (if 0 < n then s3\<lparr>umem := m\<rparr> else s3)"
  have sel: "CR3 s' = CR3 s" "vm_wf own' fl' s'" "\<And>task. same_but_load task s s'" "\<And>r a. translate s' r a = translate s2 r a"
    using 1(3,6,9) by (simp_all add: s'_def s3_def)
  have keep: "keeps_bytes {0xEFFFF} own s own' s'"
  proof (rule keeps_bytesI [OF 1(5) sel(1)])
    fix g x assume g: "aligned g" "own g \<noteq> None"
    then have "g \<noteq> f" using 1(12) by auto
    then show "umem s' (g + (x AND 0xFFF)) = umem s (g + (x AND 0xFFF))"
      using m(3) [OF g(1)] 1(7) by (simp add: s'_def s3_def)
  qed (use 1(14) sel(4) in simp)
  show thesis
    by (rule that [OF 1(1,2) _ sel(2,3) keep, unfolded s3_def [symmetric]]) (use m(1,2) in \<open>simp_all add: s'_def\<close>)
qed

text \<open>The heap page; \<open>w v s\<close> are the areas after the new one, \<open>v\<close>, is linked.\<close>

lemma heap_step:
  fixes s :: "'a proc_state_scheme" and w :: "u64 \<Rightarrow> 'a proc_state_scheme \<Rightarrow> u64 \<Rightarrow> vma_struct"
  assumes "vm_wf own fl s" "own (CR3 s) = Some []" "5 \<le> length fl"
  obtains s1 v s2 s' own' fl' where "get_phy_addr s HEAP_START = Some (HEAP_START, s1)" "addVMA st en flags type s1 = Some (v, s2)"
    "s' = s2\<lparr>vmas := w v s2\<rparr>" "vm_wf own' fl' s'" "own' (CR3 s') = Some []" "length fl \<le> 5 + length fl'"
    "\<And>task. same_but_load task s s'" "keeps_bytes {0x8000} own s own' s'"
proof -
  have low: "unat HEAP_START < 2 ^ 47" by simp
  obtain s1 v s2 f own' fl' where
    1: "get_phy_addr s HEAP_START = Some (HEAP_START, s1)" "addVMA st en flags type s1 = Some (v, s2)" "vm_wf own' fl' s2"
      "length fl \<le> 5 + length fl'" "own \<subseteq>\<^sub>m own'" "CR3 s2 = CR3 s" "umem s2 = umem s" "\<And>task. same_but_load task s s2"
      "\<And>a. unat a < 2 ^ 47 \<Longrightarrow> unat a div 4096 \<noteq> unat HEAP_START div 4096 \<Longrightarrow> translate s2 (CR3 s) a = translate s (CR3 s) a"
    by (rule area_step [OF assms low]) (rule that)
  have "keeps_bytes {0x8000} own s own' s2" by (rule keeps_bytesI [OF 1(5,6)]) (use 1(7,9) in simp_all)
  then show thesis
    by (intro that [OF 1(1,2) refl _ _ 1(4)]) (use 1(3,6,8) map_le_Some [OF 1(5) assms(2)] in simp_all)
qed

text \<open>The whole loader.\<close>

lemma elf_load_step:
  assumes "vm_wf own fl s" "own (CR3 s) = Some []" "getElfHeader img tstart tend file = Some hdr" "hdr \<noteq> 0"
    and "program_ok img hdr" "program_cost img hdr \<le> length fl" "n \<le> 63" "args_apart img hdr args n"
    and "\<forall>k < 64 * n. holds own s (args + of_nat k) (img (args + of_nat k))"
  obtains s1 s' own' fl' where
    "elf_load img tstart tend task file (of_nat n) args s = Some s'"
    "same_but_load task (upd_task task (task_rip_update (\<lambda>_. e_entry img hdr)) s) s1"
    "s' = upd_task task (\<lambda>k. k\<lparr>task_rsp := args_ptr n, kernel_rsp := kstack_addr task 511\<rparr>) s1"
    "vm_wf own' fl' s'" "own \<subseteq>\<^sub>m own'" "program_there img hdr own' s'" "0 < n \<Longrightarrow> args_there img args (args_ptr n) n own' s'"
proof -
  let ?is = "[0..<unat (e_phnum img hdr)]"
  define s0 where "s0 = upd_task task (task_rip_update (\<lambda>_. e_entry img hdr)) s"
  have s0: "vm_wf own fl s0" "own (CR3 s0) = Some []" using assms(1,2) by (simp_all add: s0_def upd_task_def)
  obtain w s1 own1 fl1 where
    1: "for_each (load_phdr img hdr task) ?is (None, s0) = Some (w, s1)" "vm_wf own1 fl1 s1"
      "length fl \<le> (\<Sum>i \<leftarrow> ?is. seg_cost (phdr_at img hdr i)) + length fl1" "same_but_load task s0 s1"
      "keeps_bytes (\<Union>i \<in> set ?is. seg_pages (phdr_at img hdr i)) own s0 own1 s1"
      "\<forall>i \<in> set ?is. seg_there img hdr own1 s1 (phdr_at img hdr i)"
    by (rule load_phdrs_step [OF s0, of ?is img hdr task None]) (use assms(5,6) in \<open>simp_all add: program_ok_def program_cost_def\<close>)
  have root1: "own1 (CR3 s1) = Some []"
    using keeps_bytesD(2) [OF 1(5)] map_le_Some [OF keeps_bytesD(1) [OF 1(5)] s0(2)] by simp
  have len1: "10 \<le> length fl1" "5 \<le> length fl1" using 1(3) assms(6) by (simp_all add: program_cost_def)
  let ?link = "\<lambda>x v s. (vmas s)(x := (vmas s x)\<lparr>vma_next := Some v\<rparr>)"
  obtain s2 vh s3 s4 own4 fl4 where
    4: "get_phy_addr s1 HEAP_START = Some (HEAP_START, s2)" "addVMA HEAP_START (HEAP_START + 0x1000) (4 OR 2) VMA_HEAP s2 = Some (vh, s3)"
      "s4 = s3\<lparr>vmas := (case w of None \<Rightarrow> vmas s3 | Some x \<Rightarrow> ?link x vh s3)\<rparr>" "vm_wf own4 fl4 s4" "own4 (CR3 s4) = Some []"
      "length fl1 \<le> 5 + length fl4" "\<And>task. same_but_load task s1 s4" "keeps_bytes {0x8000} own1 s1 own4 s4"
    by (rule heap_step [OF 1(2) root1 len1(2), where w = "\<lambda>v s. case w of None \<Rightarrow> vmas s | Some x \<Rightarrow> ?link x v s"]) (rule that)
  have len4: "5 \<le> length fl4" using 4(6) len1(1) by simp
  have src: "unat (args + of_nat k) < 2 ^ 47 \<and> unat (args + of_nat k) div 4096 \<noteq> 0xEFFFF \<and>
      holds own4 s4 (args + of_nat k) (img (args + of_nat k))" if "k < 64 * n" for k
    using keeps_bytesD(3) [OF keeps_bytes_trans [OF 1(5) 4(8)]] assms(8,9) that by (auto simp: args_apart_def s0_def)
  obtain s5 vs s6 s7 own' fl' where
    7: "get_phy_addr s4 stack_page = Some (stack_page, s5)"
      "addVMA (stack_page + 0x1000) stack_page (4 OR 2) VMA_STACK s5 = Some (vs, s6)"
      "(if 0 < n then do {
        u \<leftarrow> for_each (\<lambda>i. vstore (args_ptr n + of_nat i) (le_bytes (of_nat n) i)) [0..<8] (s6\<lparr>vmas := ?link vh vs s6\<rparr>);
        vmove (args_ptr n + 8) args (64 * n) u } else Some (s6\<lparr>vmas := ?link vh vs s6\<rparr>)) = Some s7"
      "vm_wf own' fl' s7" "\<And>task. same_but_load task s4 s7" "keeps_bytes {0xEFFFF} own4 s4 own' s7"
      "0 < n \<Longrightarrow> args_there img args (args_ptr n) n own' s7"
    by (rule stack_step [OF 4(4,5) len4 assms(7), where w = "?link vh" and args = args and img = img, OF src]) (assumption, rule that)
  have "program_there img hdr own1 s1" using 1(6) by (simp add: program_there_def)
  then have "program_there img hdr own4 s4" by (rule program_there_kept [OF _ 4(8) assms(5)]) blast
  then have prog: "program_there img hdr own' s7" by (rule program_there_kept [OF _ 7(6) assms(5)]) blast
  have same: "same_but_load task s0 s7" by (rule same_but_load_trans [OF same_but_load_trans [OF 1(4) 4(7)] 7(5)])
  have le: "own \<subseteq>\<^sub>m own'"
    using keeps_bytesD(1) [OF 1(5)] keeps_bytesD(1) [OF 4(8)] keeps_bytesD(1) [OF 7(6)] by (meson map_le_trans)
  have linked: "(case w of None \<Rightarrow> s3 | Some x \<Rightarrow> s3\<lparr>vmas := ?link x vh s3\<rparr>) = s4" by (simp add: 4(3) split: option.split)
  have "elf_load img tstart tend task file (of_nat n) args s =
      Some (upd_task task (\<lambda>k. k\<lparr>task_rsp := args_ptr n, kernel_rsp := kstack_addr task 511\<rparr>) s7)"
    unfolding elf_load_def Let_def assms(3)
    by (simp only: Option.bind.bind_lunit assms(4) if_True not_False_eq_True s0_def [symmetric] 1(1) prod.case 4(1,2) linked 7(1,2)
        argc_word [OF assms(7)] args_ptr_def [symmetric] of_nat_0_less_iff 7(3)) (simp add: upd_task_def)
  then show thesis
    by (rule that [OF _ same [unfolded s0_def] refl _ le])
       (use 7(4,7) prog in \<open>simp_all add: upd_task_def program_there_def seg_there_def args_there_def\<close>)
qed

subsection \<open>The jump to user mode\<close>

lemma get_address_entry:
  assumes "aligned u" "i < 512"
  shows "get_address (u + 8 * i) = u"
proof -
  have i: "unat (8 * i) = 8 * unat i" "unat i < 512" using assms(2) by (simp_all add: word_less_nat_alt unat_word_ariths)
  then have "unat (8 * i AND 0xFFF) = unat (8 * i)" by (simp add: unat_and_page_mask)
  then have m: "8 * i AND 0xFFF = 8 * i" by (simp add: word_unat_eq_iff)
  have "u AND 8 * i = u AND (8 * i AND 0xFFF)" by (simp only: m)
  also have "\<dots> = (u AND 0xFFF) AND 8 * i" by (simp only: and.assoc and.commute and.left_commute)
  finally have "u AND 8 * i = 0" using assms(1) by (simp add: aligned_def)
  then have "u + 8 * i = u OR 8 * i" by (rule disjunctive_add_eq_or)
  moreover have "8 * i AND FRAME = (8 * i AND 0xFFF) AND FRAME" by (simp only: m)
  moreover have "(8 * i AND 0xFFF) AND FRAME = 0" unfolding and.assoc by simp
  ultimately have "get_address (u + 8 * i) = (u AND FRAME) OR 0"
    unfolding get_address_def by (simp only: bit.conj_disj_distrib2)
  then show ?thesis using get_address_idem [OF assms(1)] by (simp add: get_address_def)
qed

lemma upath_above: "0x200000 \<le> unat va \<Longrightarrow> unat va < 2 ^ 47 \<Longrightarrow> upath va \<noteq> [0, 0, 0]"
proof
  assume a: "0x200000 \<le> unat va" "unat va < 2 ^ 47" "upath va = [0, 0, 0]"
  then have "unat va div 2 ^ 39 mod 512 = 0" "unat va div 2 ^ 30 mod 512 = 0" "unat va div 2 ^ 21 mod 512 = 0"
    unfolding unat_index [symmetric] by (simp_all add: upath_def)
  then have z: "unat va div 2 ^ 21 mod 512 = 0" "unat va div 2 ^ 21 div 512 mod 512 = 0"
      "unat va div 2 ^ 21 div 512 div 512 mod 512 = 0"
    by (simp_all flip: div_mult2_eq)
  define q where "q = unat va div 2 ^ 21"
  have q: "0 < q" "q < 2 ^ 26" using a(1,2) by (simp_all add: q_def div_greater_zero_iff)
  obtain b where b: "q = 512 * b" using z(1) by (metis q_def mod_0_imp_dvd dvd_def)
  then obtain c where c: "b = 512 * c" using z(2) by (metis q_def mod_0_imp_dvd dvd_def nonzero_mult_div_cancel_left zero_neq_numeral)
  then have "c mod 512 = 0" "c < 512" using z(3) b q(2) unfolding q_def [symmetric] by simp_all
  then show False using b c q(1) by simp
qed

text \<open>Words pushed on a kernel stack, which lies in pages that the ghost map gives the path of data pages, change
  no translation of an address above the first two megabytes.\<close>

lemma translate_kstack:
  assumes "vm_wf own fl s" "own r = Some []" "0x200000 \<le> unat va" "unat va < 2 ^ 47"
    and "\<And>a. mem s' a \<noteq> mem s a \<Longrightarrow> own (get_address a) = Some [0, 0, 0]"
  shows "translate s' r va = translate s r va"
  unfolding translate_def
proof (rule walk_same_tables [where own = own and Q = "\<lambda>q. q \<noteq> [0, 0, 0]" and p = "[]"])
  show ok: "tables_ok own s" using assms(1) by (simp add: vm_wf_def)
  fix u q i assume u: "own u = Some q" "q \<noteq> [0, 0, 0]" "i < (512 :: u64)"
  then have "get_address (u + 8 * i) = u" using tables_okD(1) [OF ok u(1)] by (simp add: get_address_entry)
  then show "pt_entry s' u i = pt_entry s u i" using assms(5) [of "u + 8 * i"] u by (auto simp: pt_entry_def)
next
  show "\<forall>n<length (vpath va). [] @ take n (vpath va) \<noteq> [0, 0, 0]"
  proof (intro allI impI)
    fix n assume "n < length (vpath va)"
    then have "n = 0 \<or> n = 1 \<or> n = 2 \<or> n = 3" by auto
    then show "[] @ take n (vpath va) \<noteq> [0, 0, 0]"
      using upath_above [OF assms(3,4)] by (auto simp: vpath_upath upath_def numeral_eq_Suc)
  qed
qed (use vpath_less assms(2) in auto)

lemma jump_to_user_mode_step:
  "\<exists>s'. jump_to_user_mode s t = Some s' \<and> rip (cpu_state s') = task_rip (tasks s t) \<and> rsp (cpu_state s') = task_rsp (tasks s t) \<and>
     cs (cpu_state s') = 0x2B \<and> ss (cpu_state s') = 0x23 \<and> CR3 s' = task_cr3 (tasks s t) \<and> currentRunningTask s' = Some t \<and>
     current s' = current s \<and> tasks s' = (tasks s)(t := (tasks s t)\<lparr>state := TASK_RUNNING\<rparr>) \<and> kernel.more s' = kernel.more s \<and>
     tss_rsp0 s' = kstack_addr t 511 \<and>
     (\<forall>a. mem s' a \<noteq> mem s a \<longrightarrow> a \<in> (\<lambda>i. rsp (cpu_state s) - 8 * i) ` {1, 2, 3, 4, 5})"
  by (auto simp: jump_to_user_mode_def iretq_def push_def upd_task_def set_tss_rsp_def Let_def)

subsection \<open>The new task\<close>

lemma kmalloc_task_step:
  assumes "vm_wf own fl s" "2 \<le> length fl"
  obtains t s1 own1 fl1 where "kmalloc s sizeof_Task = Some (t, s1)" "s1 = s\<lparr>free_list := free_list s1\<rparr>" "vm_wf own1 fl1 s1"
    "own \<subseteq>\<^sub>m own1" "own t = None" "length fl = 2 + length fl1"
proof -
  obtain x y fl1 where fl: "fl = x # y # fl1" using assms(2) by (cases fl rule: list.exhaust [case_product list.exhaust]) (auto simp: Suc_le_length_iff numeral_2_eq_2)
  let ?t = "page_addr (pages s x)" and ?s0 = "s\<lparr>free_list := nxt (pages s x)\<rparr>"
  let ?s1 = "s\<lparr>free_list := nxt (pages s y)\<rparr>" and ?own0 = "own(page_addr (pages s x) \<mapsto> [0, 0, 0])"
  have wf0: "vm_wf ?own0 (y # fl1) ?s0" using vm_wf_take_page assms(1) unfolding fl by blast
  have wf1: "vm_wf (?own0(page_addr (pages s y) \<mapsto> [0, 0, 0])) fl1 ?s1" using vm_wf_take_page [OF wf0] by simp
  have o: "own ?t = None" "?own0 (page_addr (pages s y)) = None"
    using assms(1) wf0 free_okD(3) [of own fl s x] free_okD(3) [of ?own0 "y # fl1" ?s0 y] by (auto simp: vm_wf_def fl)
  have "own \<subseteq>\<^sub>m ?own0" "?own0 \<subseteq>\<^sub>m ?own0(page_addr (pages s y) \<mapsto> [0, 0, 0])" using o by (auto simp: map_le_def)
  then have le: "own \<subseteq>\<^sub>m ?own0(page_addr (pages s y) \<mapsto> [0, 0, 0])" by (rule map_le_trans)
  have "page_alloc_addr s = Some (?t, ?s0)" using page_alloc_addr_head assms(1) unfolding fl by blast
  moreover have "snd (page_alloc ?s0) = ?s1"
    using page_alloc_addr_head [OF wf0] by (auto simp: page_alloc_addr_def split: prod.splits option.splits)
  ultimately have "kmalloc s sizeof_Task = Some (?t, ?s1)" by (simp add: kmalloc_def kmalloc_cnt_def)
  then show thesis by (rule that [OF _ _ wf1 le o(1)]) (simp_all add: fl)
qed

lemma getProcessID_only: "\<exists>g. snd (getProcessID s) = s\<lparr>processID := g\<rparr>"
proof -
  have "\<exists>g. snd (getProcessID_loop s is) = s\<lparr>processID := g\<rparr>" for "is"
  proof (induction s "is" rule: getProcessID_loop.induct)
    case (1 s)
    show ?case by (intro exI [of _ "processID s"]) simp
  qed auto
  then show ?thesis by (simp add: getProcessID_def)
qed

lemma same_but_mem_sel:
  fixes s s' :: "'a kernel_scheme"
  assumes "same_but_mem s s'"
  shows "tasks s' = tasks s" "current s' = current s" "currentRunningTask s' = currentRunningTask s" "cpu_state s' = cpu_state s"
    "CR3 s' = CR3 s" "kernel.more s' = kernel.more s"
  using assms by (cases s; cases s'; simp add: same_but_mem_def)+

lemma same_but_load_sel:
  assumes "same_but_load task s s'"
  shows "current s' = current s" "currentRunningTask s' = currentRunningTask s" "cpu_state s' = cpu_state s" "CR3 s' = CR3 s"
  using assms by (cases s; cases s'; simp add: same_but_load_def same_but_mem_def)+

lemma new_task_step:
  fixes s :: "'a proc_state_scheme"
  assumes "vm_wf own fl s" "own (CR3 s) = Some []" "3 \<le> length fl" "own r \<noteq> None"
  obtains t n u s1 s2 s3 own' fl' where "kmalloc (upd_task r (state_update (\<lambda>_. TASK_ENDED)) s) sizeof_Task = Some (t, s1)"
    "getProcessID s1 = (n, s2)"
    "set_user_AddrSpace (upd_task t (ppid_update (\<lambda>_. ppid (tasks s r))) (upd_task t (pid_update (\<lambda>_. ucast n)) s2)) = Some (u, s3)"
    "own t = None" "own u = None" "vm_wf own' fl' s3" "own \<subseteq>\<^sub>m own'" "own' u = Some []" "length fl \<le> 3 + length fl'"
    "tasks s2 = (tasks s)(r := (tasks s r)\<lparr>state := TASK_ENDED\<rparr>)"
    "tasks s3 = (tasks s)(r := (tasks s r)\<lparr>state := TASK_ENDED\<rparr>, t := (tasks s t)\<lparr>pid := ucast n, ppid := ppid (tasks s r)\<rparr>)"
    "CR3 s3 = CR3 s" "cpu_state s3 = cpu_state s" "current s3 = current s" "umem s3 = umem s"
    "\<And>va. translate s3 u va = translate s (CR3 s) va"
proof -
  let ?s0 = "upd_task r (state_update (\<lambda>_. TASK_ENDED)) s"
  have wf0: "vm_wf own fl ?s0" using assms(1) by (simp add: upd_task_def)
  have "2 \<le> length fl" using assms(3) by simp
  then obtain t s1 own1 fl1 where
    1: "kmalloc ?s0 sizeof_Task = Some (t, s1)" "s1 = ?s0\<lparr>free_list := free_list s1\<rparr>" "vm_wf own1 fl1 s1" "own \<subseteq>\<^sub>m own1" "own t = None"
      "length fl = 2 + length fl1"
    by (rule kmalloc_task_step [OF wf0]) (rule that)
  obtain n s2 where n: "getProcessID s1 = (n, s2)" by fastforce
  then obtain g where s2: "s2 = s1\<lparr>processID := g\<rparr>" using getProcessID_only [of s1] by auto
  define s2' where "s2' = upd_task t (ppid_update (\<lambda>_. ppid (tasks s r))) (upd_task t (pid_update (\<lambda>_. ucast n)) s2)"
  have s1: "tasks s1 = tasks ?s0" "CR3 s1 = CR3 s" "cpu_state s1 = cpu_state s" "current s1 = current s"
    by (subst 1(2), simp)+
  have tr: "t \<noteq> r" using 1(5) assms(4) by auto
  have c: "CR3 s2' = CR3 s" by (simp add: s2'_def s2 s1)
  obtain x fl2 where fl1: "fl1 = x # fl2" using 1(6) assms(3) by (cases fl1) auto
  have wf2: "vm_wf own1 (x # fl2) s2'"
    using 1(3) unfolding fl1 by (subst vm_wf_cong [of _ s1]) (simp_all add: s2'_def s2 upd_task_def)
  have o2: "own1 (CR3 s2') = Some []" using map_le_Some [OF 1(4) assms(2)] c by simp
  obtain u s3 where 3: "set_user_AddrSpace s2' = Some (u, s3)" "vm_wf (own1(u \<mapsto> [])) fl2 s3" "same_but_mem s2' s3" "own1 u = None"
    "\<And>va. translate s3 u va = translate s2' (CR3 s2') va"
    by (rule set_user_AddrSpace_translates [OF wf2 o2]) (rule that)
  have um: "umem s3 = umem s" "mem s2' = mem s"
    using same_but_mem_proc [OF 3(3)] by (simp_all add: s2'_def upd_task_def s2) (subst 1(2), simp add: upd_task_def)+
  have tr3: "translate s3 u va = translate s (CR3 s) va" for va
    unfolding 3(5) c by (rule translate_mem_cong) (rule um(2))
  have "own \<subseteq>\<^sub>m own1(u \<mapsto> [])" using 1(4) 3(4) by (auto simp: map_le_def dom_def)
  moreover have "own u = None" using map_le_Some [OF 1(4), of u] 3(4) by (cases "own u") auto
  moreover note s3 = same_but_mem_sel [OF 3(3)]
  ultimately show thesis
    using tr c by (intro that [OF 1(1) n 3(1) [unfolded s2'_def] 1(5) _ 3(2)])
      (simp_all add: s3 s2'_def s2 s1 1(6) fl1 fun_upd_twist um(1) tr3)
qed

text \<open>\<open>sanexecve\<close> after the new task has its address space, and what the processor then sees.\<close>

lemma start_task_step:
  fixes s :: "'a proc_state_scheme"
  assumes "tlist s ts" "t \<notin> set ts" "task_next (tasks s t) = None" "task_cr3 (tasks s t) = CR3 s"
    and "vm_wf own fl s" "own (CR3 s) = Some []"
    and "\<forall>i \<in> {1, 2, 3, 4, 5}. own (get_address (rsp (cpu_state s) - 8 * i)) = Some [0, 0, 0]"
  obtains s1 s' where "addProcessToList s t = Some s1" "jump_to_user_mode (set_CR3 s1 c) t = Some s'" "tlist s' (ts @ [t])"
    "currentRunningTask s' = Some t" "CR3 s' = CR3 s" "rip (cpu_state s') = task_rip (tasks s t)"
    "rsp (cpu_state s') = task_rsp (tasks s t)" "cs (cpu_state s') = 0x2B" "ss (cpu_state s') = 0x23" "tss_rsp0 s' = kstack_addr t 511"
    "\<And>x. x \<noteq> t \<Longrightarrow> state (tasks s' x) = state (tasks s x)" "pid (tasks s' t) = pid (tasks s t)" "ppid (tasks s' t) = ppid (tasks s t)"
    "\<And>va b. 0x200000 \<le> unat va \<Longrightarrow> unat va < 2 ^ 47 \<Longrightarrow> holds own s va b \<Longrightarrow> vload va s' = Some b"
proof -
  obtain s1 where 1: "addProcessToList s t = Some s1" "tlist s1 (ts @ [t])" "s1 = upd_task (last ts) (task_next_update (\<lambda>_. Some t)) s"
    using addProcessToList_next [OF assms(1-3)] by blast
  have lt: "last ts \<noteq> t" using assms(1,2) last_in_set [of ts] by (auto simp: tlist_def)
  define s2 where "s2 = set_CR3 s1 c"
  have s2: "tasks s2 = tasks s1" "mem s2 = mem s" "cpu_state s2 = cpu_state s" "current s2 = current s1" "umem s2 = umem s"
    by (simp_all add: s2_def set_CR3_def 1(3)) (simp add: upd_task_def)
  obtain s' where 3: "jump_to_user_mode s2 t = Some s'" "rip (cpu_state s') = task_rip (tasks s2 t)"
    "rsp (cpu_state s') = task_rsp (tasks s2 t)" "cs (cpu_state s') = 0x2B" "ss (cpu_state s') = 0x23" "CR3 s' = task_cr3 (tasks s2 t)"
    "currentRunningTask s' = Some t" "current s' = current s2" "tasks s' = (tasks s2)(t := (tasks s2 t)\<lparr>state := TASK_RUNNING\<rparr>)"
    "kernel.more s' = kernel.more s2" "tss_rsp0 s' = kstack_addr t 511"
    "\<forall>a. mem s' a \<noteq> mem s2 a \<longrightarrow> a \<in> (\<lambda>i. rsp (cpu_state s2) - 8 * i) ` {1, 2, 3, 4, 5}"
    using jump_to_user_mode_step [of s2 t] by blast
  have k: "tasks s2 t = tasks s t" using lt by (simp add: s2 1(3))
  have c': "CR3 s' = CR3 s" using 3(6) k assms(4) by simp
  have "umem s' = umem s2" using 3(10) by (cases s'; cases s2) simp
  have um: "umem s' = umem s" by (simp add: \<open>umem s' = umem s2\<close> s2)
  have kst: "own (get_address a) = Some [0, 0, 0]" if "mem s' a \<noteq> mem s a" for a
    using 3(12) assms(7) that by (auto simp: s2)
  have tr: "translate s' (CR3 s) va = translate s (CR3 s) va" if "0x200000 \<le> unat va" "unat va < 2 ^ 47" for va
    by (rule translate_kstack [OF assms(5,6) that kst])
  have "tlist s' (ts @ [t])" by (rule tlist_cong [OF 1(2)]) (simp_all add: 3(8,9) s2)
  then show thesis
    by (rule that [OF 1(1) 3(1) [unfolded s2_def] _ 3(7) c' 3(2,3) [unfolded k] 3(4,5,11)])
       (use tr c' um k in \<open>auto simp: 3(9) s2 1(3) holds_def vload_def\<close>)
qed

lemma load_task_step:
  fixes s :: "'a proc_state_scheme"
  assumes "vm_wf own fl s" "own u = Some []" "getElfHeader img tstart tend file = Some hdr" "hdr \<noteq> 0"
    and "program_ok img hdr" "program_cost img hdr \<le> length fl" "n \<le> 63" "args_apart img hdr args n"
    and "\<forall>k < 64 * n. holds own (set_CR3 s u) (args + of_nat k) (img (args + of_nat k))"
  obtains s' own' fl' v where
    "elf_load img tstart tend t file (of_nat n) args (set_CR3 (upd_task t (task_cr3_update (\<lambda>_. u)) s) u) = Some s'"
    "tasks s' = (tasks s)(t := (tasks s t)\<lparr>task_cr3 := u, task_rip := e_entry img hdr, vma := v, task_rsp := args_ptr n,
       kernel_rsp := kstack_addr t 511\<rparr>)"
    "CR3 s' = u" "current s' = current s" "cpu_state s' = cpu_state s" "vm_wf own' fl' s'" "own \<subseteq>\<^sub>m own'"
    "program_there img hdr own' s'" "0 < n \<Longrightarrow> args_there img args (args_ptr n) n own' s'"
proof -
  define s0 where "s0 = set_CR3 (upd_task t (task_cr3_update (\<lambda>_. u)) s) u"
  have "vm_wf own fl s0 = vm_wf own fl s" by (rule vm_wf_cong) (simp_all add: s0_def set_CR3_def upd_task_def)
  then have s0: "vm_wf own fl s0" "own (CR3 s0) = Some []" using assms(1,2) by (simp_all add: s0_def set_CR3_def)
  have "\<forall>k < 64 * n. holds own s0 (args + of_nat k) (img (args + of_nat k))"
  proof -
    have "s0 = upd_task t (task_cr3_update (\<lambda>_. u)) (set_CR3 s u)" by (simp add: s0_def upd_task_def set_CR3_def)
    then show ?thesis using assms(9) by simp
  qed
  then obtain q s' own' fl' where
    1: "elf_load img tstart tend t file (of_nat n) args s0 = Some s'"
      "same_but_load t (upd_task t (task_rip_update (\<lambda>_. e_entry img hdr)) s0) q"
      "s' = upd_task t (\<lambda>k. k\<lparr>task_rsp := args_ptr n, kernel_rsp := kstack_addr t 511\<rparr>) q"
      "vm_wf own' fl' s'" "own \<subseteq>\<^sub>m own'" "program_there img hdr own' s'" "0 < n \<Longrightarrow> args_there img args (args_ptr n) n own' s'"
    by (rule elf_load_step [OF s0 assms(3-8)]) (rule that)
  obtain v where q: "tasks q = (tasks s0)(t := (tasks s0 t)\<lparr>task_rip := e_entry img hdr, vma := v\<rparr>)"
    using 1(2) by (auto simp: same_but_load_def)
  note q' = same_but_load_sel [OF 1(2)]
  show thesis
    by (rule that [OF 1(1) [unfolded s0_def] _ _ _ _ 1(4-6)]) (use 1(7) in \<open>simp_all add: 1(3) q q' s0_def set_CR3_def\<close>)
qed

lemma sanexecve_step:
  fixes s :: "'a proc_state_scheme"
  assumes wf: "vm_wf own fl s" "own (CR3 s) = Some []" "program_cost img hdr + 3 \<le> length fl"
    and list: "tlist s ts" "currentRunningTask s = Some r" "r \<in> set ts" "\<forall>t \<in> set ts. own t = Some [0, 0, 0]"
    and stack: "\<forall>i \<in> {1, 2, 3, 4, 5}. own (get_address (rsp (cpu_state s) - 8 * i)) = Some [0, 0, 0]"
    and prog: "getElfHeader img tstart tend binary = Some hdr" "hdr \<noteq> 0" "program_ok img hdr"
    and argc: "(if argv \<noteq> 0 then count_args img argv 0 else Some 0) = Some (of_nat n)" "n \<le> 63"
    and args: "args_apart img hdr argv n" "\<forall>k < 64 * n. holds own s (argv + of_nat k) (img (argv + of_nat k))"
    and names: "length name < 64" "length (cwd (tasks s r)) < 128"
  obtains t s' own5 and s5 :: "'a proc_state_scheme" where "sanexecve img tstart tend binary name argv s = Some s'" "tlist s' (ts @ [t])"
    "currentRunningTask s' = Some t" "CR3 s' \<noteq> CR3 s" "rip (cpu_state s') = e_entry img hdr" "rsp (cpu_state s') = args_ptr n"
    "cs (cpu_state s') = 0x2B" "ss (cpu_state s') = 0x23" "tss_rsp0 s' = kstack_addr t 511" "state (tasks s' r) = TASK_ENDED"
    "ppid (tasks s' t) = ppid (tasks s r)" "program_there img hdr own5 s5" "0 < n \<Longrightarrow> args_there img argv (args_ptr n) n own5 s5"
    "\<And>va b. 0x200000 \<le> unat va \<Longrightarrow> unat va < 2 ^ 47 \<Longrightarrow> holds own5 s5 va b \<Longrightarrow> vload va s' = Some b"
proof -
  have r: "own r \<noteq> None" and len: "3 \<le> length fl" using list(3,4) wf(3) by auto
  obtain t pn u s1 s2 s3 own3 fl3 where
    1: "kmalloc (upd_task r (state_update (\<lambda>_. TASK_ENDED)) s) sizeof_Task = Some (t, s1)" "getProcessID s1 = (pn, s2)"
      "set_user_AddrSpace (upd_task t (ppid_update (\<lambda>_. ppid (tasks s r))) (upd_task t (pid_update (\<lambda>_. ucast pn)) s2)) = Some (u, s3)"
      "own t = None" "own u = None" "vm_wf own3 fl3 s3" "own \<subseteq>\<^sub>m own3" "own3 u = Some []" "length fl \<le> 3 + length fl3"
      "tasks s2 = (tasks s)(r := (tasks s r)\<lparr>state := TASK_ENDED\<rparr>)"
      "tasks s3 = (tasks s)(r := (tasks s r)\<lparr>state := TASK_ENDED\<rparr>, t := (tasks s t)\<lparr>pid := ucast pn, ppid := ppid (tasks s r)\<rparr>)"
      "CR3 s3 = CR3 s" "cpu_state s3 = cpu_state s" "current s3 = current s" "umem s3 = umem s"
      "\<And>va. translate s3 u va = translate s (CR3 s) va"
    by (rule new_task_step [OF wf(1,2) len r]) (rule that)
  have t: "t \<notin> set ts" "t \<noteq> r" using 1(4) list(3,4) r by auto
  have cost: "program_cost img hdr \<le> length fl3" using 1(9) wf(3) by simp
  have "holds own3 (set_CR3 s3 u) a b" if "holds own s a b" for a b
    by (rule holds_moved [OF that 1(7)]) (use translate_mem_cong [of "set_CR3 s3 u" s3 u] 1(15,16) in \<open>simp_all add: set_CR3_def\<close>)
  then have src: "\<forall>k < 64 * n. holds own3 (set_CR3 s3 u) (argv + of_nat k) (img (argv + of_nat k))" using args(2) by blast
  obtain s5 own5 fl5 v where
    5: "elf_load img tstart tend t binary (of_nat n) argv (set_CR3 (upd_task t (task_cr3_update (\<lambda>_. u)) s3) u) = Some s5"
      "tasks s5 = (tasks s3)(t := (tasks s3 t)\<lparr>task_cr3 := u, task_rip := e_entry img hdr, vma := v, task_rsp := args_ptr n,
         kernel_rsp := kstack_addr t 511\<rparr>)"
      "CR3 s5 = u" "current s5 = current s3" "cpu_state s5 = cpu_state s3" "vm_wf own5 fl5 s5" "own3 \<subseteq>\<^sub>m own5"
      "program_there img hdr own5 s5" "0 < n \<Longrightarrow> args_there img argv (args_ptr n) n own5 s5"
    by (rule load_task_step [OF 1(6,8) prog cost argc(2) args(1) src]) (rule that)
  define s6 where "s6 = upd_task t (cwd_update (\<lambda>_. cwd (tasks s r)))
    (upd_task t (task_name_update (\<lambda>_. name)) (upd_task t (task_next_update (\<lambda>_. None)) s5))"
  have s6: "CR3 s6 = u" "task_cr3 (tasks s6 t) = u" "task_rip (tasks s6 t) = e_entry img hdr" "task_rsp (tasks s6 t) = args_ptr n"
    "ppid (tasks s6 t) = ppid (tasks s r)" "state (tasks s6 r) = TASK_ENDED" "cpu_state s6 = cpu_state s" "task_next (tasks s6 t) = None"
    "current s6 = current s" "cwd (tasks s5 r) = cwd (tasks s r)"
    using t(2) by (simp_all add: s6_def 5(2-5) 1(11-14))
  have "nexts s6 x = nexts s x" if "x \<in> set ts" for x
    using that t(1) by (auto simp: s6_def 5(2) 1(11))
  then have l6: "tlist s6 ts" using list(1) chain_cong [of ts "nexts s6" "nexts s"] by (simp add: tlist_def s6(9))
  have own: "own \<subseteq>\<^sub>m own5" by (rule map_le_trans [OF 1(7) 5(7)])
  have wf6: "vm_wf own5 fl5 s6" "own5 (CR3 s6) = Some []" using 5(6) map_le_Some [OF 5(7) 1(8)] s6(1) by (simp_all add: s6_def upd_task_def)
  have st6: "\<forall>i \<in> {1, 2, 3, 4, 5}. own5 (get_address (rsp (cpu_state s6) - 8 * i)) = Some [0, 0, 0]"
    using stack map_le_Some [OF own] unfolding s6(7) by blast
  obtain s7 s' where 7: "addProcessToList s6 t = Some s7" "jump_to_user_mode (set_CR3 s7 (CR3 s)) t = Some s'" "tlist s' (ts @ [t])"
    "currentRunningTask s' = Some t" "CR3 s' = CR3 s6" "rip (cpu_state s') = task_rip (tasks s6 t)"
    "rsp (cpu_state s') = task_rsp (tasks s6 t)" "cs (cpu_state s') = 0x2B" "ss (cpu_state s') = 0x23" "tss_rsp0 s' = kstack_addr t 511"
    "\<And>x. x \<noteq> t \<Longrightarrow> state (tasks s' x) = state (tasks s6 x)" "ppid (tasks s' t) = ppid (tasks s6 t)"
    "\<And>va b. 0x200000 \<le> unat va \<Longrightarrow> unat va < 2 ^ 47 \<Longrightarrow> holds own5 s6 va b \<Longrightarrow> vload va s' = Some b"
    by (rule start_task_step [OF l6 t(1) s6(8) _ wf6 st6, of "CR3 s"]) (simp add: s6, rule that)
  have ucast: "ucast (of_nat n :: u64) = (of_nat n :: u32)"
    using argc(2) by (simp add: word_unat_eq_iff unsigned_of_nat unsigned_ucast_eq take_bit_nat_eq_self)
  have pp: "ppid (tasks (upd_task t (pid_update (\<lambda>_. ucast pn)) s2) r) = ppid (tasks s r)" using t(2) by (simp add: 1(10))
  have "sanexecve img tstart tend binary name argv s = Some s'"
    unfolding sanexecve_def argc(1) list(2) Let_def
    using 1(1-3,12) 5(1) 7(1,2) names s6(10) pp t(2)
    by (simp add: ucast pp get_CR3_def strcpy_field_def s6_def)
  then show thesis
    by (rule that [OF _ 7(3,4) _ _ _ 7(8-10) _ _ 5(8)])
       (use 5(9) 7(5-7,11-13) s6 t(2) 1(5) wf(2) in \<open>auto simp: s6_def\<close>)
qed

subsection \<open>The arguments\<close>

text \<open>Rows of 64 bytes, one string in each, up to an empty row.\<close>

definition arg_rows :: "bytes \<Rightarrow> u64 \<Rightarrow> u8 list list \<Rightarrow> bool" where
  "arg_rows img argv xs \<longleftrightarrow>
     (\<forall>i < length xs. argv + 64 * of_nat i \<noteq> 0 \<and> cstr img (argv + 64 * of_nat i) (xs ! i) \<and> xs ! i \<noteq> [] \<and> length (xs ! i) < 64) \<and>
     img (argv + 64 * of_nat (length xs)) = 0"

lemma count_args_rows:
  assumes "arg_rows img argv xs" "j \<le> length xs"
  shows "count_args img (argv + 64 * of_nat j) (of_nat j) = Some (of_nat (length xs))"
  using assms(2)
proof (induction "length xs - j" arbitrary: j)
  case 0
  then show ?case using assms(1) by (subst count_args.simps) (simp add: arg_rows_def)
next
  case (Suc d)
  then have j: "j < length xs" "d = length xs - Suc j" "Suc j \<le> length xs" by simp_all
  have "img (argv + 64 * of_nat j) \<noteq> 0" "argv + 64 * of_nat j \<noteq> 0"
    using assms(1) j(1) by (cases "xs ! j"; force simp: arg_rows_def cstr_def)+
  then show ?case using Suc.hyps(1) [OF j(2,3)] by (subst count_args.simps) (simp add: algebra_simps)
qed

text \<open>What \<open>_start\<close> makes of the block, with the stack pointer one word below it.\<close>

lemma start_args_block:
  assumes "arg_rows img argv xs" "xs \<noteq> []" "length xs \<le> 4"
    and "\<And>i. i < 8 \<Longrightarrow> m (ptr + of_nat i) = le_bytes (of_nat (length xs)) i"
    and "\<And>k. k < 64 * length xs \<Longrightarrow> m (ptr + 8 + of_nat k) = img (argv + of_nat k)"
  shows "start_args m (ptr - 8) = (of_nat (length xs), map (\<lambda>i. ptr + 8 + 64 * of_nat i) [0..<length xs])"
    and "i < length xs \<Longrightarrow> cstr m (ptr + 8 + 64 * of_nat i) (xs ! i)"
proof -
  have "length xs \<in> {1, 2, 3, 4}" using assms(2,3) by (cases "length xs") auto
  then have "le_bytes (of_nat (length xs)) 0 = of_nat (length xs)" "le_bytes (of_nat (length xs)) 1 = 0"
    "le_bytes (of_nat (length xs)) 2 = 0" "le_bytes (of_nat (length xs)) 3 = 0"
    by (auto simp: le_bytes_def)
  then have "rd32 m ptr = of_nat (length xs)"
    using assms(4) [of 0] assms(4) [of 1] assms(4) [of 2] assms(4) [of 3] \<open>length xs \<in> {1, 2, 3, 4}\<close>
    by (auto simp: rd32_def rd16_def add.assoc)
  moreover have "sint (of_nat (length xs) :: u32) = int (length xs)" by (rule argc_word(1)) (use assms(3) in simp)
  ultimately show "start_args m (ptr - 8) = (of_nat (length xs), map (\<lambda>i. ptr + 8 + 64 * of_nat i) [0..<length xs])"
    using assms(2,3) by (simp add: start_args_def algebra_simps)
  assume i: "i < length xs"
  have c: "cstr img (argv + 64 * of_nat i) (xs ! i)" "length (xs ! i) < 64" using assms(1) i by (simp_all add: arg_rows_def)
  have "m (ptr + 8 + 64 * of_nat i + of_nat j) = img (argv + 64 * of_nat i + of_nat j)" if "j < Suc (length (xs ! i))" for j
    using assms(5) [of "64 * i + j"] that c(2) i by (simp add: algebra_simps)
  then show "cstr m (ptr + 8 + 64 * of_nat i) (xs ! i)"
    using c(1) arr_shift [of img "argv + 64 * of_nat i" "xs ! i @ [0]" m "ptr + 8 + 64 * of_nat i"] by (simp add: cstr_def)
qed

subsection \<open>Executing a program\<close>

text \<open>Memory as the running program reads it: where a page is mapped, the byte in its frame.\<close>

definition user_view :: "bytes \<Rightarrow> 'a proc_state_scheme \<Rightarrow> bool" where
  "user_view m s \<longleftrightarrow> (\<forall>va b. vload va s = Some b \<longrightarrow> m va = b)"

text \<open>C2. Executing a program: for a program in the tar image whose segments can be loaded, with one to four
  arguments and enough free pages, \<open>sanexecve\<close> ends the old task and leaves the processor in user mode in a new
  address space at the entry point of the program. There every byte of every loadable segment stands at its
  virtual address, the new task is the last of the list and the running one, with the parent of the old task;
  and \<open>_start\<close>, whose prologue pushes one word, finds the argument count and pointers to copies of the argument strings.
  The argument rows are assumed to be readable data in the old address space and to lie outside the pages that the loader
  maps, because the loader reads them only after it has mapped the new program.\<close>

theorem exec_runs_program:
  fixes s :: "'a proc_state_scheme"
  assumes "vm_wf own fl s" "own (CR3 s) = Some []" "program_cost img hdr + 3 \<le> length fl"
    and "tlist s ts" "currentRunningTask s = Some r" "r \<in> set ts" "\<forall>t \<in> set ts. own t = Some [0, 0, 0]"
    and "\<forall>i \<in> {1, 2, 3, 4, 5}. own (get_address (rsp (cpu_state s) - 8 * i)) = Some [0, 0, 0]"
    and "getElfHeader img tstart tend binary = Some hdr" "hdr \<noteq> 0" "program_ok img hdr"
    and "arg_rows img argv xs" "xs \<noteq> []" "length xs \<le> 4"
    and "args_apart img hdr argv (length xs)" "\<forall>k < 64 * length xs. holds own s (argv + of_nat k) (img (argv + of_nat k))"
    and "length name < 64" "length (cwd (tasks s r)) < 128"
  shows "\<exists>s' t. sanexecve img tstart tend binary name argv s = Some s' \<and>
    tlist s' (ts @ [t]) \<and> currentRunningTask s' = Some t \<and> state (tasks s' r) = TASK_ENDED \<and>
    ppid (tasks s' t) = ppid (tasks s r) \<and> tss_rsp0 s' = kstack_addr t 511 \<and>
    CR3 s' \<noteq> CR3 s \<and> rip (cpu_state s') = e_entry img hdr \<and> cs (cpu_state s') = 0x2B \<and> ss (cpu_state s') = 0x23 \<and>
    (\<forall>i < unat (e_phnum img hdr). \<forall>k < unat (p_filesz (phdr_at img hdr i)).
       p_type (phdr_at img hdr i) = 1 \<longrightarrow> p_flags (phdr_at img hdr i) \<in> {5, 6} \<longrightarrow>
       vload (p_vaddr (phdr_at img hdr i) + of_nat k) s' = Some (img (hdr + p_offset (phdr_at img hdr i) + of_nat k))) \<and>
    (\<forall>m. user_view m s' \<longrightarrow>
       (\<exists>args. start_args m (rsp (cpu_state s') - 8) = (of_nat (length xs), args) \<and> length args = length xs \<and>
          (\<forall>i < length xs. cstr m (args ! i) (xs ! i))))"
proof -
  let ?n = "length xs" and ?p = "args_ptr (length xs)"
  have argc: "(if argv \<noteq> 0 then count_args img argv 0 else Some 0) = Some (of_nat ?n)" "?n \<le> 63"
    using count_args_rows [OF assms(12), of 0] assms(12-14) by (auto simp: arg_rows_def)
  obtain t s' own5 and s5 :: "'a proc_state_scheme" where
    1: "sanexecve img tstart tend binary name argv s = Some s'" "tlist s' (ts @ [t])" "currentRunningTask s' = Some t"
      "CR3 s' \<noteq> CR3 s" "rip (cpu_state s') = e_entry img hdr" "rsp (cpu_state s') = ?p"
      "cs (cpu_state s') = 0x2B" "ss (cpu_state s') = 0x23" "tss_rsp0 s' = kstack_addr t 511" "state (tasks s' r) = TASK_ENDED"
      "ppid (tasks s' t) = ppid (tasks s r)" "program_there img hdr own5 s5" "0 < ?n \<Longrightarrow> args_there img argv ?p ?n own5 s5"
      "\<And>va b. 0x200000 \<le> unat va \<Longrightarrow> unat va < 2 ^ 47 \<Longrightarrow> holds own5 s5 va b \<Longrightarrow> vload va s' = Some b"
    by (rule sanexecve_step [OF assms(1-11) argc assms(15-18)]) (rule that)
  have segs: "vload (p_vaddr ph + of_nat k) s' = Some (img (hdr + p_offset ph + of_nat k))"
    if "ph = phdr_at img hdr i" "i < unat (e_phnum img hdr)" "k < unat (p_filesz ph)" "p_type ph = 1" "p_flags ph \<in> {5, 6}" for ph i k
  proof -
    have "seg_ok ph" using assms(11) that(1,2) by (simp add: program_ok_def)
    moreover have "holds own5 s5 (p_vaddr ph + of_nat k) (img (hdr + p_offset ph + of_nat k))"
      using 1(12) that by (auto simp: program_there_def seg_there_def)
    ultimately show ?thesis using seg_byte_in [OF _ that(4,3)] 1(14) by simp
  qed
  have args: "\<exists>args. start_args m (rsp (cpu_state s') - 8) = (of_nat ?n, args) \<and> length args = ?n \<and>
      (\<forall>i < ?n. cstr m (args ! i) (xs ! i))" if "user_view m s'" for m
  proof -
    have a: "args_there img argv ?p ?n own5 s5" using 1(13) assms(13) by simp
    have "m (?p + of_nat i) = le_bytes (of_nat ?n) i" if "i < 8" for i
      using a 1(14) [of "?p + of_nat i"] args_addr(1) [OF argc(2), of i] that \<open>user_view m s'\<close> by (simp add: args_there_def user_view_def)
    moreover have "m (?p + 8 + of_nat k) = img (argv + of_nat k)" if "k < 64 * ?n" for k
      using a 1(14) [of "?p + 8 + of_nat k"] args_addr(2) [OF argc(2) that] that \<open>user_view m s'\<close> argc(2)
      by (simp add: args_there_def user_view_def)
    ultimately show ?thesis
      using start_args_block [OF assms(12-14), of m ?p] unfolding 1(6)
      by (intro exI [of _ "map (\<lambda>i. ?p + 8 + 64 * of_nat i) [0..<?n]"]) simp
  qed
  show ?thesis
    using 1(1-5,7-11) segs args by (intro exI [of _ s'] exI [of _ t]) simp
qed

subsection \<open>Witnesses\<close>

lemma vm_wf_data_page:
  assumes "vm_wf own fl s" "aligned p" "p \<noteq> 0" "own p = None" "\<forall>x \<in> set fl. page_addr (pages s x) \<noteq> p"
  shows "vm_wf (own(p \<mapsto> [0, 0, 0])) fl s"
  using assms by (auto simp: vm_wf_def tables_ok_def free_ok_def split: if_splits)

text \<open>A machine of 64 pages: the root at 0x1000, a shell task at 0x2000 whose kernel stack ends in the page at 0x3000,
  and the rest free. The tar image at 0x10000 holds a program of three bytes, to be called as \<^verbatim>\<open>a b\<close>; the argument
  rows stand in a page of the shell at 0x600000.\<close>

definition demo_shell :: proc_state where
  "demo_shell = demo_proc\<lparr>pages := \<lambda>i. \<lparr>nxt = (if i < 63 then Some (Suc i) else None), refer_cnt = 0, page_addr = of_nat i * 4096\<rparr>,
     free_list := Some 4, mem := \<lambda>_. 0, current := Some 0x2000, currentRunningTask := Some 0x2000,
     cpu_state := demo_cpu\<lparr>rsp := 0x3100\<rparr>\<rparr>"

definition demo_tar :: bytes where
  "demo_tar = (\<lambda>_. 0)(0x10000 := 97, 0x1021A := 0x40, 0x10220 := 64, 0x10238 := 1, 0x10240 := 1, 0x10244 := 5, 0x10249 := 1,
     0x10252 := 0x40, 0x10260 := 3, 0x10268 := 8, 0x10300 := 0xB8, 0x10301 := 0x2A, 0x10302 := 0xC3,
     0x600000 := 97, 0x600040 := 98)"

definition demo_exec :: proc_state where
  "demo_exec = the (do { (_, s) \<leftarrow> get_phy_addr demo_shell 0x600000; vcopy demo_tar 0x600000 0x600000 128 s })"

definition demo_own :: "u64 \<Rightarrow> u64 list option" where
  "demo_own = [0x1000 \<mapsto> [], 0x2000 \<mapsto> [0, 0, 0], 0x3000 \<mapsto> [0, 0, 0]]"

lemma demo_shell_wf: "vm_wf demo_own [4..<64] demo_shell"
proof -
  have "flist demo_shell [4..<64]"
    using chain_upt [of 4 64 "\<lambda>i. nxt (pages demo_shell i)"] by (simp add: flist_def demo_shell_def del: upt_rec_numeral)
  then have "vm_wf [0x1000 \<mapsto> []] [4..<64] demo_shell"
    by (rule vm_wf_fresh [where k = 1]) (simp_all add: demo_shell_def pt_entry_def present_def)
  moreover have "page_addr (pages demo_shell x) \<noteq> 0x2000" "page_addr (pages demo_shell x) \<noteq> 0x3000" if "x \<in> set [4..<64]" for x
    using that page_number_inj [of x 2] page_number_inj [of x 3] by (auto simp: demo_shell_def simp del: upt_rec_numeral)
  ultimately show ?thesis
    unfolding demo_own_def by (intro vm_wf_data_page) (simp_all add: aligned_def del: upt_rec_numeral set_upt)
qed

lemma demo_exec_ok:
  obtains own fl where "vm_wf own fl demo_exec" "demo_own \<subseteq>\<^sub>m own" "56 \<le> length fl" "same_but_load t demo_shell demo_exec"
    "tasks demo_exec = tasks demo_shell" "\<forall>k < 128. holds own demo_exec (0x600000 + of_nat k) (demo_tar (0x600000 + of_nat k))"
proof -
  have pre: "demo_own (CR3 demo_shell) = Some []" "4 \<le> length [4..<64]" "unat (0x600000 :: u64) < 2 ^ 47"
    by (simp_all add: demo_own_def demo_shell_def)
  obtain s f own fl where
    1: "get_phy_addr demo_shell 0x600000 = Some (0x600000, s)" "vm_wf own fl s" "length [4..<64] \<le> 4 + length fl"
      "same_but_mem demo_shell s" "demo_own \<subseteq>\<^sub>m own" "translate s (CR3 demo_shell) 0x600000 = Some (f OR 7)" "aligned f" "own f = Some [0, 0, 0]"
    by (rule get_phy_addr_step [OF demo_shell_wf pre]) (rule that)
  have t: "translate s (CR3 s) 0x600000 = Some (f OR 7)" using 1(4,6) by (simp add: same_but_mem_def)
  have pg: "aligned 0x600000" "unat (0x600000 :: u64) \<le> unat (0x600000 :: u64)" "unat (0x600000 :: u64) + 128 \<le> unat (0x600000 :: u64) + 4096"
    by (simp_all add: aligned_def)
  obtain m where m: "vcopy demo_tar 0x600000 0x600000 128 s = Some (s\<lparr>umem := m\<rparr>)"
    "\<And>k. k < 128 \<Longrightarrow> m (f + (0x600000 + of_nat k AND 0xFFF)) = demo_tar (0x600000 + of_nat k)"
    by (rule vcopy_page [OF t 1(7) pg(1) pre(3) pg(2,3)]) (rule that)
  have e: "demo_exec = s\<lparr>umem := m\<rparr>" using 1(1) m(1) by (simp add: demo_exec_def)
  have "holds own demo_exec (0x600000 + of_nat k) (demo_tar (0x600000 + of_nat k))" if "k < 128" for k
  proof -
    have "unat (0x600000 + of_nat k :: u64) = 0x600000 + k"
      using that by (simp add: unat_word_ariths unsigned_of_nat take_bit_nat_eq_self)
    then have "vpath (0x600000 + of_nat k) = vpath 0x600000" using that by (intro vpath_page_eq) (simp add: div_nat_eqI)
    then show ?thesis using t 1(7,8) m(2) [OF that] by (simp add: holds_def e translate_def get_address_idem)
  qed
  moreover have "same_but_load t demo_shell demo_exec" "tasks demo_exec = tasks demo_shell"
    using same_but_load_mem [OF 1(4), of t] same_but_mem_proc [OF 1(4)] by (simp_all add: e)
  ultimately show thesis using that [of own fl] 1(2,3,5) by (simp add: e)
qed

lemma demo_tar_phdr:
  "phdr_at demo_tar 0x10200 0 = \<lparr>p_type = 1, p_flags = 5, p_offset = 0x100, p_vaddr = 0x400000, p_paddr = 0, p_filesz = 3,
     p_memsz = 8, p_align = 0\<rparr>"
  "e_phnum demo_tar 0x10200 = 1" "e_entry demo_tar 0x10200 = 0x400000"
  by (simp_all add: phdr_at_def read_phdr_def e_phoff_def e_phnum_def e_entry_def rd16_def rd32_def rd64_def demo_tar_def)

lemma demo_tar_ok: "program_ok demo_tar 0x10200" "program_cost demo_tar 0x10200 = 15"
  by (simp_all add: program_ok_def program_cost_def demo_tar_phdr seg_ok_def seg_pages_def seg_cost_def segment_pages_def)

lemma demo_tar_header: "getElfHeader demo_tar 0x10000 0x10400 0x10000 = Some 0x10200"
proof -
  have "cstr demo_tar 0x10000 [97]" by (simp add: cstr_def demo_tar_def)
  from strcmp_k_iff [OF this this] show ?thesis
    by (auto simp: getElfHeader_def getElfHeader_loop.simps [of _ _ _ "0x10000"])
qed

lemma demo_tar_args: "arg_rows demo_tar 0x600000 [[97], [98]]" "args_apart demo_tar 0x10200 0x600000 (Suc (Suc 0))"
proof -
  have b: "demo_tar 0x600000 = 97" "demo_tar 0x600001 = 0" "demo_tar 0x600040 = 98" "demo_tar 0x600041 = 0" "demo_tar 0x600080 = 0"
    by (simp_all add: demo_tar_def)
  have "i = 0 \<or> i = 1" if "i < length [[97], [98 :: u8]]" for i using that by auto
  then show "arg_rows demo_tar 0x600000 [[97], [98]]" using b unfolding arg_rows_def cstr_def by fastforce
  have "unat (0x600000 + of_nat k :: u64) = 0x600000 + k" "(0x600000 + k) div 4096 = 0x600" if "k < 128" for k
    using that by (simp_all add: unat_word_ariths unsigned_of_nat take_bit_nat_eq_self div_nat_eqI)
  then show "args_apart demo_tar 0x10200 0x600000 (Suc (Suc 0))"
    by (simp add: args_apart_def demo_tar_phdr seg_pages_def lessThan_Suc)
qed

theorem exec_runs_program_witness:
  "\<exists>s'. sanexecve demo_tar 0x10000 0x10400 0x10000 ''a'' 0x600000 demo_exec = Some s' \<and> rip (cpu_state s') = 0x400000 \<and>
     vload 0x400001 s' = Some 0x2A \<and> (\<forall>m. user_view m s' \<longrightarrow> fst (start_args m (rsp (cpu_state s') - 8)) = 2)"
proof -
  obtain own fl where 1: "vm_wf own fl demo_exec" "demo_own \<subseteq>\<^sub>m own" "56 \<le> length fl" "same_but_load 0x2000 demo_shell demo_exec"
    "tasks demo_exec = tasks demo_shell" "\<forall>k < 128. holds own demo_exec (0x600000 + of_nat k) (demo_tar (0x600000 + of_nat k))"
    by (rule demo_exec_ok [of "0x2000"]) blast
  have sel: "CR3 demo_exec = 0x1000" "rsp (cpu_state demo_exec) = 0x3100" "current demo_exec = Some 0x2000"
    "currentRunningTask demo_exec = Some 0x2000" "tasks demo_exec 0x2000 = demo_task None TASK_WAITING 0"
    using same_but_load_sel [OF 1(4)] by (simp_all add: 1(5) demo_shell_def demo_kernel_def vm.defs kernel.defs)
  have l: "tlist demo_exec [0x2000]" by (simp add: tlist_def sel)
  have own: "own (CR3 demo_exec) = Some []" "\<forall>t \<in> set [0x2000]. own t = Some [0, 0, 0]"
    "\<forall>i \<in> {1, 2, 3, 4, 5}. own (get_address (rsp (cpu_state demo_exec) - 8 * i)) = Some [0, 0, 0]"
    using map_le_Some [OF 1(2), of "0x1000"] map_le_Some [OF 1(2), of "0x2000"] map_le_Some [OF 1(2), of "0x3000"]
    by (simp_all add: demo_own_def sel get_address_def)
  have p: "program_cost demo_tar 0x10200 + 3 \<le> length fl" using 1(3) by (simp add: demo_tar_ok)
  have a: "(0x2000 :: u64) \<in> set [0x2000]" "(0x10200 :: u64) \<noteq> 0" "[[97], [98 :: u8]] \<noteq> []" "length [[97], [98 :: u8]] \<le> 4"
    "args_apart demo_tar 0x10200 0x600000 (length [[97], [98 :: u8]])" "length ''a'' < 64" "length (cwd (tasks demo_exec 0x2000)) < 128"
    "\<forall>k < 64 * length [[97], [98 :: u8]]. holds own demo_exec (0x600000 + of_nat k) (demo_tar (0x600000 + of_nat k))"
    using demo_tar_args(2) 1(6) by (simp_all add: sel demo_task_def)
  obtain s' where s': "sanexecve demo_tar 0x10000 0x10400 0x10000 ''a'' 0x600000 demo_exec = Some s'"
    "rip (cpu_state s') = e_entry demo_tar 0x10200"
    "\<forall>i < unat (e_phnum demo_tar 0x10200). \<forall>k < unat (p_filesz (phdr_at demo_tar 0x10200 i)).
       p_type (phdr_at demo_tar 0x10200 i) = 1 \<longrightarrow> p_flags (phdr_at demo_tar 0x10200 i) \<in> {5, 6} \<longrightarrow>
       vload (p_vaddr (phdr_at demo_tar 0x10200 i) + of_nat k) s' = Some (demo_tar (0x10200 + p_offset (phdr_at demo_tar 0x10200 i) + of_nat k))"
    "\<forall>m. user_view m s' \<longrightarrow> (\<exists>args. start_args m (rsp (cpu_state s') - 8) = (of_nat (length [[97], [98 :: u8]]), args))"
    using exec_runs_program [OF 1(1) own(1) p l sel(4) a(1) own(2,3) demo_tar_header a(2) demo_tar_ok(1) demo_tar_args(1) a(3-5,8,6,7)]
    by blast
  have "vload 0x400001 s' = Some 0x2A"
    using s'(3) [rule_format, of 0 1] by (simp add: demo_tar_phdr) (simp add: demo_tar_def)
  with s' show ?thesis by (intro exI [of _ s']) (auto simp: demo_tar_phdr)
qed

end
