(* ===== verification/VmTypes.thy ===== *)
theory VmTypes
  imports PageFault
begin

unbundle bit_operations_syntax

text \<open>
  A type discipline for physical pages. The ghost map of \<open>vm_wf\<close> gives every page in use its place in
  the tables: a root, a table at a path of indices, or a page at the lowest level. \<open>vm_ok R s\<close> says that
  there is such a map in which all of \<open>R\<close>, the address spaces made so far, are roots. Every operation that
  returns keeps it; nothing is assumed about the number of free pages.
\<close>

definition vm_ok :: "u64 set \<Rightarrow> 'a vm_scheme \<Rightarrow> bool" where
  "vm_ok R s \<longleftrightarrow> CR3 s \<in> R \<and> pml4 s \<in> R \<and> (\<exists>own fl. vm_wf own fl s \<and> (\<forall>r \<in> R. own r = Some []))"

text \<open>The tables after some steps from \<open>s\<close>: pages were only added to the map, and only memory and the free
  list changed.\<close>

definition vm_ext :: "(u64 \<Rightarrow> u64 list option) \<Rightarrow> 'a vm_scheme \<Rightarrow> 'a vm_scheme \<Rightarrow> bool" where
  "vm_ext own s s' \<longleftrightarrow> same_but_mem s s' \<and> (\<exists>own' fl'. vm_wf own' fl' s' \<and> own \<subseteq>\<^sub>m own')"

lemma same_but_mem_refl [simp]: "same_but_mem s s"
  by (simp add: same_but_mem_def)

lemma vm_extI: "vm_wf own' fl' s' \<Longrightarrow> own \<subseteq>\<^sub>m own' \<Longrightarrow> same_but_mem s s' \<Longrightarrow> vm_ext own s s'"
  by (auto simp: vm_ext_def)

lemma vm_ext_refl: "vm_wf own fl s \<Longrightarrow> vm_ext own s s"
  unfolding vm_ext_def by auto

lemma vm_ext_trans:
  assumes "vm_ext own s s'" "\<And>own' fl'. vm_wf own' fl' s' \<Longrightarrow> own \<subseteq>\<^sub>m own' \<Longrightarrow> vm_ext own' s' s''"
  shows "vm_ext own s s''"
proof -
  obtain own' fl' where 1: "vm_wf own' fl' s'" "own \<subseteq>\<^sub>m own'" "same_but_mem s s'" using assms(1) by (auto simp: vm_ext_def)
  from assms(2) [OF 1(1,2)] obtain own'' fl'' where "vm_wf own'' fl'' s''" "own' \<subseteq>\<^sub>m own''" "same_but_mem s' s''"
    by (auto simp: vm_ext_def)
  with 1 show ?thesis by (auto simp: vm_ext_def intro: map_le_trans same_but_mem_trans)
qed

lemma vm_ok_ext:
  assumes "vm_ok R s" "\<And>own fl. vm_wf own fl s \<Longrightarrow> own (CR3 s) = Some [] \<Longrightarrow> own (pml4 s) = Some [] \<Longrightarrow> vm_ext own s s'"
  shows "vm_ok R s'"
proof -
  obtain own fl where 1: "vm_wf own fl s" "\<forall>r \<in> R. own r = Some []" "CR3 s \<in> R" "pml4 s \<in> R"
    using assms(1) by (auto simp: vm_ok_def)
  then have "vm_ext own s s'" using assms(2) by auto
  with 1 show ?thesis by (auto simp: vm_ext_def vm_ok_def same_but_mem_def dest: map_le_Some)
qed

subsection \<open>Allocation\<close>

lemma page_alloc_addr_ok:
  assumes "vm_wf own fl s" "page_alloc_addr s = Some (f, s')" "length q \<le> 3"
  obtains fl' where "vm_wf (own(f \<mapsto> q)) fl' s'" "own f = None" "aligned f" "f \<noteq> 0" "s' = s\<lparr>free_list := free_list s'\<rparr>"
    "\<And>i. i < 512 \<Longrightarrow> \<not> present (pt_entry s' f i)"
proof -
  have "flist s fl" using assms(1) by (simp add: vm_wf_def free_ok_def)
  then obtain x fl' where fl: "fl = x # fl'"
    using assms(2) by (cases fl) (auto simp: flist_def page_alloc_addr_def page_alloc_def)
  have s': "f = page_addr (pages s x)" "s' = s\<lparr>free_list := nxt (pages s x)\<rparr>"
    using page_alloc_addr_head [OF assms(1)[unfolded fl]] assms(2) by auto
  have "free_ok own (x # fl') s" using assms(1) by (simp add: vm_wf_def fl)
  note fx = free_okD [OF this, of x, simplified]
  show thesis
    using that [of fl'] vm_wf_claim [OF assms(1)[unfolded fl] assms(3) s'(1)] fx s' by simp
qed

lemma map_le_fresh: "own f = None \<Longrightarrow> own \<subseteq>\<^sub>m own(f \<mapsto> q)"
  by (auto simp: map_le_def)

lemma page_alloc_ext:
  assumes "vm_wf own fl s"
  shows "vm_ext own s (snd (page_alloc s))"
proof (cases "free_list s")
  case None
  then show ?thesis using vm_ext_refl [OF assms] by (simp add: page_alloc_def)
next
  case (Some x)
  then have "page_alloc_addr s = Some (page_addr (pages s x), snd (page_alloc s))"
    by (simp add: page_alloc_addr_def page_alloc_def)
  then obtain fl' where "vm_wf (own(page_addr (pages s x) \<mapsto> [0, 0, 0])) fl' (snd (page_alloc s))" "own (page_addr (pages s x)) = None"
    by (rule page_alloc_addr_ok [OF assms, where q = "[0, 0, 0]"]) auto
  then show ?thesis using Some by (intro vm_extI [OF _ map_le_fresh]) (simp_all add: same_but_mem_def page_alloc_def)
qed

lemma page_alloc_addr_ext: "vm_wf own fl s \<Longrightarrow> page_alloc_addr s = Some (f, s') \<Longrightarrow> vm_ext own s s'"
  using page_alloc_ext [of own fl s] by (auto simp: page_alloc_addr_def split: prod.splits option.splits)

lemma kmalloc_ext:
  assumes "vm_wf own fl s" "kmalloc s sz = Some (a, s')"
  shows "vm_ext own s s'"
proof -
  have iter: "vm_wf own fl t \<Longrightarrow> vm_ext own t (((\<lambda>s. snd (page_alloc s)) ^^ n) t)" for own fl n and t :: "'a vm_scheme"
  proof (induction n)
    case (Suc n)
    from Suc.IH [OF Suc.prems] show ?case by (simp, elim vm_ext_trans) (rule page_alloc_ext)
  qed (simp add: vm_ext_refl)
  show ?thesis
  proof (cases "sz > 0")
    case True
    then obtain s1 where "page_alloc_addr s = Some (a, s1)" "s' = ((\<lambda>s. snd (page_alloc s)) ^^ nat (sint (kmalloc_cnt sz) - 1)) s1"
      using assms(2) by (auto simp: kmalloc_def split: bind_splits)
    then show ?thesis using page_alloc_addr_ext [OF assms(1)] iter by (auto elim: vm_ext_trans)
  qed (use assms vm_ext_refl in \<open>auto simp: kmalloc_def\<close>)
qed

subsection \<open>Mapping\<close>

lemma pdpt_alloc_ok:
  assumes "vm_wf own fl s" "own t = Some p" "length p < 3" "i < 512" "pdpt_alloc s t i = Some (f, s')"
  obtains fl' where "vm_wf (own(f \<mapsto> p @ [i])) fl' s'" "own f = None" "same_but_mem s s'"
    "\<And>u j. aligned u \<Longrightarrow> j < 512 \<Longrightarrow> u \<noteq> t \<or> j \<noteq> i \<Longrightarrow> pt_entry s' u j = pt_entry s u j"
proof -
  obtain s1 where 1: "page_alloc_addr s = Some (f, s1)" "s' = pt_write s1 t i (f OR 7)"
    using assms(5) by (auto simp: pdpt_alloc_def pt_set_def split: bind_splits if_splits)
  obtain fl' where 2: "vm_wf (own(f \<mapsto> p @ [i])) fl' s1" "own f = None" "aligned f" "s1 = s\<lparr>free_list := free_list s1\<rparr>"
    by (rule page_alloc_addr_ok [OF assms(1) 1(1), of "p @ [i]"]) (use assms(3) in auto)
  have "aligned t" using assms(1,2) by (auto simp: vm_wf_def dest: tables_okD)
  then have e: "pt_entry s' u j = pt_entry s u j" if "aligned u" "j < 512" "u \<noteq> t \<or> j \<noteq> i" for u j
    using that assms(4) by (subst 1(2), subst 2(4)) (auto simp: pt_entry_update)
  have "vm_wf (own(f \<mapsto> p @ [i])) fl' s'"
    unfolding 1(2) by (rule vm_wf_write [OF 2(1), of t p]) (use assms(2,4) 2(2,3) in \<open>auto simp: get_address_idem\<close>)
  moreover have "same_but_mem s s'" by (subst 1(2), subst 2(4)) (simp add: same_but_mem_def pt_write_def)
  ultimately show thesis using that 2(2) e by blast
qed

lemma next_or_alloc_ok:
  assumes "vm_wf own fl s" "own t = Some p" "length p < 3" "i < 512" "next_or_alloc s t i = Some (t', s')"
  obtains own' fl' where "vm_wf own' fl' s'" "own \<subseteq>\<^sub>m own'" "own' t' = Some (p @ [i])" "same_but_mem s s'"
proof (cases "present (pt_entry s t i)")
  case True
  have ok: "tables_ok own s" using assms(1) by (simp add: vm_wf_def)
  have "s' = s" "t' = get_address (pt_entry s t i)"
    using assms(5) True tables_okD(2) [OF ok assms(2)] by (auto simp: next_or_alloc_def pt_get_def present_def)
  then show thesis using that [of own fl] assms(1) tables_ok_next [OF ok assms(2-4) True] by simp
next
  case False
  then have "pdpt_alloc s t i = Some (t', s')"
    using assms(5) by (auto simp: next_or_alloc_def pt_get_def present_def split: if_splits)
  then obtain fl' where "vm_wf (own(t' \<mapsto> p @ [i])) fl' s'" "own t' = None" "same_but_mem s s'"
    by (rule pdpt_alloc_ok [OF assms(1-4)]) blast
  then show thesis using that [of "own(t' \<mapsto> p @ [i])" fl'] map_le_fresh [of own t'] by simp
qed

lemma map_at_ext:
  assumes "vm_wf own fl s" "own root = Some []" "map_at s root va pa = Some s'"
  shows "vm_ext own s s'"
proof -
  obtain t3 s1 t2 s2 t1 s3 where r: "next_or_alloc s root (getPML4Index va) = Some (t3, s1)"
    "next_or_alloc s1 t3 (getPDPTIndex va) = Some (t2, s2)" "next_or_alloc s2 t2 (getPDTIndex va) = Some (t1, s3)"
    "s' = pt_write s3 t1 (getPTIndex va) (pa OR 7)"
    using assms(3) by (auto simp: map_at_steps pt_set_def split: bind_splits if_splits)
  obtain own1 fl1 where 1: "vm_wf own1 fl1 s1" "own \<subseteq>\<^sub>m own1" "own1 t3 = Some [getPML4Index va]" "same_but_mem s s1"
    by (rule next_or_alloc_ok [OF assms(1,2) _ index_less(1) r(1)]) auto
  obtain own2 fl2 where 2: "vm_wf own2 fl2 s2" "own1 \<subseteq>\<^sub>m own2" "own2 t2 = Some [getPML4Index va, getPDPTIndex va]" "same_but_mem s1 s2"
    by (rule next_or_alloc_ok [OF 1(1,3) _ index_less(2) r(2)]) auto
  obtain own3 fl3 where 3: "vm_wf own3 fl3 s3" "own2 \<subseteq>\<^sub>m own3" "own3 t1 = Some (upath va)" "same_but_mem s2 s3"
    by (rule next_or_alloc_ok [OF 2(1,3) _ index_less(3) r(3)]) (auto simp: upath_def)
  have "vm_wf own3 fl3 s'"
    unfolding r(4) by (rule vm_wf_write_leaf [OF 3(1,3)]) (simp_all add: upath_def)
  moreover have "same_but_mem s3 s'" by (simp add: r(4) same_but_mem_def pt_write_def)
  moreover have "own \<subseteq>\<^sub>m own3" using 1(2) 2(2) 3(2) by (blast intro: map_le_trans)
  ultimately show ?thesis
    using 1(4) 2(4) 3(4) by (intro vm_extI) (auto intro: same_but_mem_trans)
qed

subsection \<open>Copying the tables\<close>

lemma for_each_ext:
  assumes "\<And>i own fl s s'. i \<in> set is \<Longrightarrow> vm_wf own fl s \<Longrightarrow> own0 \<subseteq>\<^sub>m own \<Longrightarrow> f i s = Some s' \<Longrightarrow> vm_ext own s s'"
    and "vm_wf own fl s" "own0 \<subseteq>\<^sub>m own" "for_each f is s = Some s'"
  shows "vm_ext own s s'"
  using assms
proof (induction "is" arbitrary: own fl s)
  case Nil
  then show ?case by (simp add: vm_ext_refl)
next
  case (Cons i js)
  then obtain s1 where 1: "f i s = Some s1" "for_each f js s1 = Some s'" by (auto split: bind_splits)
  have "vm_ext own s s1" by (rule Cons.prems(1) [OF _ Cons.prems(2,3) 1(1)]) simp
  then show ?case
  proof (rule vm_ext_trans)
    fix own' fl' assume "vm_wf own' fl' s1" "own \<subseteq>\<^sub>m own'"
    then show "vm_ext own' s1 s'"
      using Cons.prems(3) by (intro Cons.IH [OF Cons.prems(1) _ _ 1(2)]) (auto intro: map_le_trans)
  qed
qed

lemma of_nat_512 [simp]: "i \<in> set [0..<512] \<Longrightarrow> (of_nat i :: u64) < 512"
  by (simp add: word_less_nat_alt unsigned_of_nat take_bit_nat_eq_self)

lemma copy_pt_entry_ext:
  assumes "vm_wf own fl s" "own c = Some p" "own t = Some p" "length p = 3" "i \<in> set [0..<512]" "copy_pt_entry c t i s = Some s'"
  shows "vm_ext own s s'"
proof -
  have "s' = s \<or> (\<exists>v w. s' = pt_write (pt_write s c (of_nat i) v) t (of_nat i) w)"
    using assms(6) by (auto simp: copy_pt_entry_def get_pt_entry_def pt_set_def Let_def split: bind_splits if_splits)
  moreover have "vm_wf own fl (pt_write (pt_write s c (of_nat i) v) t (of_nat i) w)" for v w
    by (intro vm_wf_write_leaf [OF vm_wf_write_leaf [OF assms(1,2,4)] assms(3,4)] of_nat_512 assms(5))
  ultimately show ?thesis using assms(1) by (auto intro!: vm_extI [of own fl] simp: same_but_mem_def pt_write_def)
qed

text \<open>The copy at the three upper levels: a new table for the child, and a copy into it by \<open>copy\<close>, the
  routine for the level below.\<close>

definition copy_level ::
    "(u64 \<Rightarrow> u64 \<Rightarrow> nat \<Rightarrow> 'a vm_scheme \<Rightarrow> 'a vm_scheme option) \<Rightarrow> u64 \<Rightarrow> u64 \<Rightarrow> nat \<Rightarrow> 'a vm_scheme \<Rightarrow> 'a vm_scheme option" where
  "copy_level copy c t i s = do {
     e \<leftarrow> pt_get s t (of_nat i);
     if e AND PTE_P \<noteq> 0 then do {
       (c', s) \<leftarrow> pdpt_alloc s c (of_nat i);
       for_each (copy c' (get_address e)) [0..<512] s }
     else Some s }"

lemma copy_levels:
  "copy_pdt_entry = copy_level copy_pt_entry" "copy_pdpt_entry = copy_level copy_pdt_entry"
  "copy_pml4_entry = copy_level copy_pdpt_entry"
  unfolding copy_level_def copy_pdt_entry_def copy_pdpt_entry_def copy_pml4_entry_def get_pdt_entry_def
    get_pdpt_entry_def get_pml4_entry_def table_allocs_eq Let_def by (rule refl)+

definition copies_level ::
    "nat \<Rightarrow> (u64 \<Rightarrow> u64 \<Rightarrow> nat \<Rightarrow> 'a vm_scheme \<Rightarrow> 'a vm_scheme option) \<Rightarrow> bool" where
  "copies_level n copy \<longleftrightarrow> (\<forall>own fl s c t p i s'. vm_wf own fl s \<longrightarrow> own c = Some p \<longrightarrow> own t = Some p \<longrightarrow> length p = n \<longrightarrow>
     i \<in> set [0..<512] \<longrightarrow> copy c t i s = Some s' \<longrightarrow> vm_ext own s s')"

lemma copies_levelD:
  "copies_level n copy \<Longrightarrow> vm_wf own fl s \<Longrightarrow> own c = Some p \<Longrightarrow> own t = Some p \<Longrightarrow> length p = n \<Longrightarrow>
    i \<in> set [0..<512] \<Longrightarrow> copy c t i s = Some s' \<Longrightarrow> vm_ext own s s'"
  unfolding copies_level_def by blast

lemma copy_level_ok:
  assumes "copies_level (Suc n) copy" "n < 3"
  shows "copies_level n (copy_level copy)"
  unfolding copies_level_def
proof (intro allI impI)
  fix own fl s c t p i s'
  assume wf: "vm_wf own fl s" and p: "own c = Some p" "own t = Some p" "length p = n"
    and i: "i \<in> set [0..<512]" and run: "copy_level copy c t i s = Some s'"
  let ?e = "pt_entry s t (of_nat i)"
  have ok: "tables_ok own s" using wf by (simp add: vm_wf_def)
  have l: "length p < 3" using p(3) assms(2) by simp
  show "vm_ext own s s'"
  proof (cases "present ?e")
    case False
    then show ?thesis using run vm_ext_refl [OF wf] by (auto simp: copy_level_def pt_get_def present_def split: bind_splits if_splits)
  next
    case True
    then obtain c' s1 where 1: "pdpt_alloc s c (of_nat i) = Some (c', s1)" "for_each (copy c' (get_address ?e)) [0..<512] s1 = Some s'"
      using run by (auto simp: copy_level_def pt_get_def present_def simp del: upt_Suc upt_rec_numeral split: bind_splits if_splits)
    obtain fl' where 2: "vm_wf (own(c' \<mapsto> p @ [of_nat i])) fl' s1" "own c' = None" "same_but_mem s s1"
      by (rule pdpt_alloc_ok [OF wf p(1) l of_nat_512 [OF i] 1(1)]) blast
    define own1 where "own1 = own(c' \<mapsto> p @ [of_nat i])"
    have "own (get_address ?e) = Some (p @ [of_nat i])" by (rule tables_ok_next [OF ok p(2) l of_nat_512 [OF i] True])
    then have o: "own1 c' = Some (p @ [of_nat i])" "own1 (get_address ?e) = Some (p @ [of_nat i])"
      using 2(2) by (auto simp: own1_def)
    have "vm_ext own1 s1 s'"
    proof (rule for_each_ext [OF _ 2(1)[folded own1_def] map_le_refl 1(2)])
      fix j own fl u u' assume j: "j \<in> set [0..<512]" "vm_wf own fl u" "own1 \<subseteq>\<^sub>m own" "copy c' (get_address ?e) j u = Some u'"
      show "vm_ext own u u'"
        by (rule copies_levelD [OF assms(1) j(2) map_le_Some [OF j(3) o(1)] map_le_Some [OF j(3) o(2)] _ j(1,4)]) (simp add: p(3))
    qed
    moreover have "own \<subseteq>\<^sub>m own1" unfolding own1_def by (rule map_le_fresh) (rule 2(2))
    ultimately show ?thesis
      using 2(3) unfolding vm_ext_def by (blast intro: same_but_mem_trans map_le_trans)
  qed
qed

lemma copy_pml4_entry_ok: "copies_level 0 copy_pml4_entry"
proof -
  have "copies_level (Suc (Suc (Suc 0))) copy_pt_entry" unfolding copies_level_def by (auto intro: copy_pt_entry_ext simp del: set_upt)
  then have "copies_level (Suc (Suc 0)) copy_pdt_entry" unfolding copy_levels(1) by (intro copy_level_ok) simp_all
  then have "copies_level (Suc 0) copy_pdpt_entry" unfolding copy_levels(2) by (intro copy_level_ok) simp_all
  then show ?thesis unfolding copy_levels(3) by (intro copy_level_ok) simp_all
qed

text \<open>The tables of a forked child. The new root is a page that holds no present entry.\<close>

lemma root_copy_ext:
  assumes "vm_wf own fl s" "own c = Some []" "own t = Some []" "i < 512" "pt_get s t i = Some e" "pt_set s c i e = Some s'"
  shows "vm_ext own s s'"
proof -
  have ok: "tables_ok own s" using assms(1) by (simp add: vm_wf_def)
  have "e = pt_entry s t i" "s' = pt_write s c i e" using assms(5,6) by (auto simp: pt_get_def pt_set_def split: if_splits)
  moreover from this have "vm_wf own fl s'"
    using vm_wf_write [OF assms(1,2,4), of e] tables_ok_next [OF ok assms(3) _ assms(4)] by simp
  ultimately show ?thesis by (intro vm_extI [of own fl]) (simp_all add: same_but_mem_def pt_write_def)
qed

lemma copy_page_tables_ext:
  assumes "vm_wf own fl s" "own (CR3 s) = Some []" "own c = Some []" "copy_page_tables_forchild s c = Some s'"
  shows "vm_ext own s s'"
proof -
  obtain s1 e s2 e' where 1: "for_each (copy_pml4_entry c (CR3 s)) [0..<510] s = Some s1" "pt_get s1 (CR3 s) 511 = Some e"
    "pt_set s1 c 511 e = Some s2" "pt_get s2 (CR3 s) 510 = Some e'" "pt_set s2 c 510 e' = Some s'"
    using assms(4) by (auto simp: copy_page_tables_forchild_def get_CR3_def Let_def simp del: upt_Suc upt_rec_numeral split: bind_splits)
  have "vm_ext own s s1"
  proof (rule for_each_ext [OF _ assms(1) map_le_refl 1(1)])
    fix i own' fl' u u' assume u: "i \<in> set [0..<510]" "vm_wf own' fl' u" "own \<subseteq>\<^sub>m own'" "copy_pml4_entry c (CR3 s) i u = Some u'"
    show "vm_ext own' u u'"
      by (rule copies_levelD [OF copy_pml4_entry_ok u(2) map_le_Some [OF u(3) assms(3)] map_le_Some [OF u(3) assms(2)] _ _ u(4)])
         (use u(1) in auto)
  qed
  then show ?thesis
  proof (rule vm_ext_trans)
    fix own' fl' assume o: "vm_wf own' fl' s1" "own \<subseteq>\<^sub>m own'"
    have "vm_ext own' s1 s2"
      by (rule root_copy_ext [OF o(1) map_le_Some [OF o(2) assms(3)] map_le_Some [OF o(2) assms(2)] _ 1(2,3)]) simp
    then show "vm_ext own' s1 s'"
    proof (rule vm_ext_trans)
      fix own2 fl2 assume o2: "vm_wf own2 fl2 s2" "own' \<subseteq>\<^sub>m own2"
      have le: "own \<subseteq>\<^sub>m own2" using o(2) o2(2) by (rule map_le_trans)
      show "vm_ext own2 s2 s'"
        by (rule root_copy_ext [OF o2(1) map_le_Some [OF le assms(3)] map_le_Some [OF le assms(2)] _ 1(4,5)]) simp
    qed
  qed
qed

subsection \<open>The operations and the address spaces made so far\<close>

text \<open>The contract of an operation on the current address space.\<close>

locale vm_op =
  fixes run :: "'a vm_scheme \<Rightarrow> 'a vm_scheme option"
  assumes run_ext: "vm_wf own fl s \<Longrightarrow> own (CR3 s) = Some [] \<Longrightarrow> run s = Some s' \<Longrightarrow> vm_ext own s s'"
begin

lemma keeps: "vm_ok R s \<Longrightarrow> run s = Some s' \<Longrightarrow> vm_ok R s'"
  by (erule vm_ok_ext) (rule run_ext)

end

interpretation map_op: vm_op "\<lambda>s. map_process s va pa" for va pa
  by unfold_locales (simp add: map_process_def get_CR3_def map_at_ext)

interpretation kmalloc_op: vm_op "\<lambda>s. map_option snd (kmalloc s sz)" for sz
  by unfold_locales (auto intro: kmalloc_ext)

interpretation page_op: vm_op "\<lambda>s. map_option snd (page_alloc_addr s)"
  by unfold_locales (auto intro: page_alloc_addr_ext)

text \<open>A write to kernel data or to user pages.\<close>

locale data_op =
  fixes upd :: "'a vm_scheme \<Rightarrow> 'a vm_scheme"
  assumes upd_vm: "mem (upd s) = mem s" "pages (upd s) = pages s" "free_list (upd s) = free_list s"
    "CR3 (upd s) = CR3 s" "pml4 (upd s) = pml4 s"
begin

lemma keeps_iff: "vm_ok R (upd s) = vm_ok R s"
proof -
  have "vm_wf own fl (upd s) = vm_wf own fl s" for own fl by (rule vm_wf_cong) (simp_all add: upd_vm)
  then show ?thesis by (simp add: vm_ok_def upd_vm)
qed

end

interpretation vmas_op: data_op "vmas_update g" for g by unfold_locales simp_all
interpretation tasks_op: data_op "tasks_update g" for g by unfold_locales simp_all
interpretation pid_op: data_op "processID_update g" for g by unfold_locales simp_all
interpretation umem_op: data_op "umem_update g" for g by unfold_locales simp_all

lemma upd_task_ok: "vm_ok R (upd_task t f s) = vm_ok R s"
  by (simp add: upd_task_def tasks_op.keeps_iff)

lemmas data_ok [simp] = vmas_op.keeps_iff tasks_op.keeps_iff pid_op.keeps_iff umem_op.keeps_iff upd_task_ok

text \<open>Verification rules: \<open>yields_ok R st m\<close> says that the state \<open>st x\<close> is typed whenever \<open>m\<close> returns \<open>x\<close>; \<open>st\<close>
  is \<open>id\<close> for a state and \<open>snd\<close> for a result with a state.\<close>

definition yields_ok :: "u64 set \<Rightarrow> ('b \<Rightarrow> 'a vm_scheme) \<Rightarrow> 'b option \<Rightarrow> bool" where
  "yields_ok R st m \<longleftrightarrow> (\<forall>x. m = Some x \<longrightarrow> vm_ok R (st x))"

lemma yields_okI: "(\<And>x. m = Some x \<Longrightarrow> vm_ok R (st x)) \<Longrightarrow> yields_ok R st m"
  by (simp add: yields_ok_def)

lemma yields_okD: "yields_ok R st m \<Longrightarrow> m = Some x \<Longrightarrow> vm_ok R (st x)"
  by (simp add: yields_ok_def)

lemma yields_pair:
  "yields_ok R snd m \<Longrightarrow> (\<And>a s. vm_ok R s \<Longrightarrow> yields_ok R st (k a s)) \<Longrightarrow> yields_ok R st (Option.bind m (\<lambda>(a, s). k a s))"
  by (auto simp: yields_ok_def split: bind_splits)

lemma yields_state:
  "yields_ok R id m \<Longrightarrow> (\<And>s. vm_ok R s \<Longrightarrow> yields_ok R st (k s)) \<Longrightarrow> yields_ok R st (Option.bind m k)"
  by (auto simp: yields_ok_def split: bind_splits)

lemma yields_value: "(\<And>x. m = Some x \<Longrightarrow> yields_ok R st (k x)) \<Longrightarrow> yields_ok R st (Option.bind m k)"
  by (auto simp: yields_ok_def split: bind_splits)

lemma yields_return: "vm_ok R (st x) \<Longrightarrow> yields_ok R st (Some x)"
  and yields_if: "(b \<Longrightarrow> yields_ok R st m) \<Longrightarrow> (\<not> b \<Longrightarrow> yields_ok R st m') \<Longrightarrow> yields_ok R st (if b then m else m')"
  by (simp_all add: yields_ok_def)

lemma yields_for_each:
  assumes "\<And>i s. vm_ok R s \<Longrightarrow> yields_ok R id (f i s)" "vm_ok R s"
  shows "yields_ok R id (for_each f is s)"
  using assms(2)
proof (induction "is" arbitrary: s)
  case (Cons i js)
  show ?case unfolding for_each.simps by (rule yields_state [OF assms(1) [OF Cons.prems] Cons.IH])
qed (simp add: yields_return)

lemmas yields_rules = yields_pair yields_state yields_return yields_if

lemma map_process_ok: "vm_ok R s \<Longrightarrow> yields_ok R id (map_process s va pa)"
  by (simp add: yields_ok_def map_op.keeps)

lemma kmalloc_ok: "vm_ok R s \<Longrightarrow> yields_ok R snd (kmalloc s sz)"
  using kmalloc_op.keeps [of R s sz] by (auto simp: yields_ok_def)

lemma page_ok: "vm_ok R s \<Longrightarrow> yields_ok R snd (page_alloc_addr s)"
  using page_op.keeps [of R s] by (auto simp: yields_ok_def)

lemma getProcessID_ok [simp]: "vm_ok R (snd (getProcessID s)) = vm_ok R s"
proof -
  have "vm_ok R (snd (getProcessID_loop s is)) = vm_ok R s" for "is"
    by (induction s "is" rule: getProcessID_loop.induct) auto
  then show ?thesis by (simp add: getProcessID_def)
qed

lemma get_phy_addr_ok: "vm_ok R s \<Longrightarrow> yields_ok R snd (get_phy_addr s va)"
  unfolding get_phy_addr_def by (rule yields_rules map_process_ok page_ok | simp)+

lemma addVMA_ok: "vm_ok R s \<Longrightarrow> yields_ok R snd (addVMA st en fg ty s)"
  unfolding addVMA_def Let_def by (rule yields_rules kmalloc_ok | simp)+

lemma map_pages_ok: "vm_ok R s \<Longrightarrow> yields_ok R id (map_pages n st s)"
proof (induction n arbitrary: st s)
  case (Suc n)
  show ?case unfolding map_pages.simps by (rule yields_rules page_ok map_process_ok Suc.IH Suc.prems | assumption)+
qed (simp add: yields_return)

lemma vstore_ok: "vm_ok R s \<Longrightarrow> yields_ok R id (vstore va b s)"
  by (auto simp: vstore_def yields_ok_def split: option.splits)

lemma vcopy_ok: "vm_ok R s \<Longrightarrow> yields_ok R id (vcopy img d a n s)"
  unfolding vcopy_def by (rule yields_for_each vstore_ok | assumption)+

lemma vmove_ok: "vm_ok R s \<Longrightarrow> yields_ok R id (vmove d a n s)"
  unfolding vmove_def by (rule yields_for_each yields_value vstore_ok | assumption)+

lemma pg_fault_ok: "vm_ok R s \<Longrightarrow> yields_ok R id (pg_fault_handler va s)"
  unfolding pg_fault_handler_def vmove_page_def Let_def
  by (rule yields_rules kmalloc_ok vmove_ok map_process_ok yields_value | simp)+

lemma load_phdr_ok: "vm_ok R s \<Longrightarrow> yields_ok R snd (load_phdr img hdr task i (w, s))"
  unfolding load_phdr_def Let_def prod.case
  by (rule yields_rules addVMA_ok map_pages_ok vcopy_ok | simp)+

lemma load_phdrs_ok: "vm_ok R s \<Longrightarrow> yields_ok R snd (for_each (load_phdr img hdr task) is (w, s))"
proof (induction "is" arbitrary: w s)
  case (Cons i js)
  have "yields_ok R snd (Option.bind (load_phdr img hdr task i (w, s)) (\<lambda>(w, s). for_each (load_phdr img hdr task) js (w, s)))"
    by (rule yields_pair [OF load_phdr_ok [OF Cons.prems] Cons.IH])
  then show ?case by simp
qed (simp add: yields_return)

lemma elf_load_ok: "vm_ok R s \<Longrightarrow> yields_ok R id (elf_load img ts te task file argc args s)"
  unfolding elf_load_def Let_def
  by (rule yields_value yields_rules load_phdrs_ok get_phy_addr_ok addVMA_ok vmove_ok yields_for_each vstore_ok
      | simp split: option.split)+

subsection \<open>New address spaces\<close>

lemma vm_okE:
  assumes "vm_ok R s"
  obtains own fl where "vm_wf own fl s" "\<And>r. r \<in> R \<Longrightarrow> own r = Some []" "CR3 s \<in> R" "pml4 s \<in> R"
  using assms by (auto simp: vm_ok_def)

lemma vm_ok_new_root:
  assumes "vm_wf own fl s" "\<And>r. r \<in> R \<Longrightarrow> own r = Some []" "own c = Some []" "CR3 s \<in> R" "pml4 s \<in> R" "vm_ext own s s'"
  shows "vm_ok (insert c R) s'"
  using assms by (auto simp: vm_ext_def vm_ok_def same_but_mem_def dest: map_le_Some)

lemma set_CR3_ok: "vm_ok R s \<Longrightarrow> r \<in> R \<Longrightarrow> vm_ok R (set_CR3 s r)"
proof -
  have "vm_wf own fl (set_CR3 s r) = vm_wf own fl s" for own fl by (rule vm_wf_cong) (simp_all add: set_CR3_def)
  then show "vm_ok R s \<Longrightarrow> r \<in> R \<Longrightarrow> vm_ok R (set_CR3 s r)" by (simp add: vm_ok_def set_CR3_def)
qed

lemma vm_ok_mono: "vm_ok R s \<Longrightarrow> R' \<subseteq> R \<Longrightarrow> CR3 s \<in> R' \<Longrightarrow> pml4 s \<in> R' \<Longrightarrow> vm_ok R' s"
  by (auto simp: vm_ok_def)

lemma set_user_AddrSpace_ok:
  assumes "vm_ok R s" "set_user_AddrSpace s = Some (r, s')"
  shows "vm_ok (insert r R) s' \<and> r \<notin> R"
proof -
  obtain own fl where 1: "vm_wf own fl s" "\<And>r. r \<in> R \<Longrightarrow> own r = Some []" "CR3 s \<in> R" "pml4 s \<in> R"
    by (rule vm_okE [OF assms(1)]) blast
  then obtain x fl' where fl: "fl = x # fl'"
    using assms(2) by (cases fl) (auto simp: vm_wf_def free_ok_def flist_def set_user_AddrSpace_def page_alloc_addr_def page_alloc_def)
  obtain r0 s0 where 2: "set_user_AddrSpace s = Some (r0, s0)" "vm_wf (own(r0 \<mapsto> [])) fl' s0" "same_but_mem s s0" "own r0 = None"
    by (rule set_user_AddrSpace_spec [OF 1(1)[unfolded fl] 1(2) [OF 1(3)]])
  then have "r0 \<notin> R" using 1(2) by auto
  then show ?thesis using 1 2 assms(2) by (auto simp: vm_ok_def same_but_mem_def)
qed

lemma copy_page_tables_ok:
  assumes "vm_ok R s" "page_alloc_addr s = Some (r, s1)" "s1' = upd_task t f s1" "copy_page_tables_forchild s1' r = Some s'"
  shows "vm_ok (insert r R) s' \<and> r \<notin> R \<and> same_but_mem s1' s'"
proof -
  obtain own fl where 1: "vm_wf own fl s" "\<And>r. r \<in> R \<Longrightarrow> own r = Some []" "CR3 s \<in> R" "pml4 s \<in> R"
    by (rule vm_okE [OF assms(1)]) blast
  obtain fl' where 2: "vm_wf (own(r \<mapsto> [])) fl' s1" "own r = None" "s1 = s\<lparr>free_list := free_list s1\<rparr>"
    by (rule page_alloc_addr_ok [OF 1(1) assms(2), of "[]"]) auto
  have c: "CR3 s1' = CR3 s" "pml4 s1' = pml4 s" by (subst assms(3), subst 2(3), simp add: upd_task_def)+
  have "r \<notin> R" using 1(2) 2(2) by auto
  then have R: "(own(r \<mapsto> [])) q = Some []" if "q \<in> R" for q using 1(2) [OF that] that by auto
  have wf: "vm_wf (own(r \<mapsto> [])) fl' s1'" using 2(1) by (simp add: assms(3) upd_task_def)
  have ext: "vm_ext (own(r \<mapsto> [])) s1' s'"
    by (rule copy_page_tables_ext [OF wf _ _ assms(4)]) (use 1(3) R c in auto)
  moreover have "same_but_mem s1' s'" using ext by (simp add: vm_ext_def)
  ultimately show ?thesis using vm_ok_new_root [OF wf R] 1(3,4) c \<open>r \<notin> R\<close> by (metis fun_upd_same)
qed

lemma vm_ok_roots: "vm_ok R s \<Longrightarrow> CR3 s \<in> R"
  by (simp add: vm_ok_def)

lemma addProcessToList_ok: "vm_ok R s \<Longrightarrow> yields_ok R id (addProcessToList s t)"
proof -
  have loop: "vm_ok R s' = vm_ok R s" if "addProcessToList_loop s t c = Some s'" for c s'
    by (rule addProcessToList_loop.raw_induct [where P = "\<lambda>s t c s'. vm_ok R s' = vm_ok R s", OF _ that])
       (auto split: option.splits)
  assume ok: "vm_ok R s"
  then have "yields_ok R id (addProcessToList_loop s t c)" for c by (auto simp: yields_ok_def dest: loop)
  with ok show ?thesis by (auto simp: addProcessToList_def intro!: yields_value yields_return)
qed

text \<open>A new process and the copy of a process: the address space made is one more root, and the task
  record holds it.\<close>

lemma create_process_ok:
  assumes "vm_ok R s" "create_process img ts te file name s = Some (t, s')"
  shows "\<exists>r. vm_ok (insert r R) s' \<and> r \<notin> R"
proof -
  obtain t0 s1 where 1: "kmalloc s sizeof_Task = Some (t0, s1)"
    using assms(2) by (auto simp: create_process_def split: bind_splits)
  have ok1: "vm_ok R s1" using yields_okD [OF kmalloc_ok [OF assms(1)] 1] by simp
  define s2 where "s2 = upd_task t0 (pid_update (\<lambda>_. ucast (fst (getProcessID s1)))) (snd (getProcessID s1))"
  have ok2: "vm_ok R s2" using ok1 by (simp add: s2_def)
  obtain r s3 where 3: "set_user_AddrSpace s2 = Some (r, s3)"
    using assms(2) 1 by (auto simp: create_process_def Let_def case_prod_beta s2_def split: bind_splits)
  have ok3: "vm_ok (insert r R) s3" "r \<notin> R" using set_user_AddrSpace_ok [OF ok2 3] by simp_all
  let ?s = "upd_task t0 (task_cr3_update (\<lambda>_. r)) s3"
  have rest: "do { s \<leftarrow> elf_load img ts te t0 file 0 0 (set_CR3 ?s r);
     c \<leftarrow> current s;
     let s = upd_task t0 (ppid_update (\<lambda>_. pid (tasks s c))) s;
     let s = set_CR3 s (CR3 s3);
     let s = upd_task t0 (task_next_update (\<lambda>_. None)) s;
     tn \<leftarrow> strcpy_field 64 name;
     let s = upd_task t0 (task_name_update (\<lambda>_. tn)) s;
     w \<leftarrow> strcpy_field 128 ''bin/'';
     let s = upd_task t0 (cwd_update (\<lambda>_. w)) s;
     s \<leftarrow> addProcessToList s t0;
     Some (t0, s) } = Some (t, s')" (is "?m = _")
    using assms(2) 1 3 by (simp add: create_process_def Let_def case_prod_beta s2_def get_CR3_def upd_task_def)
  have "yields_ok (insert r R) snd ?m"
    unfolding Let_def
    by (rule yields_state elf_load_ok set_CR3_ok yields_value yields_return addProcessToList_ok
        | simp add: ok3 vm_ok_roots [OF ok3(1), simplified])+
  then have "vm_ok (insert r R) s'" using yields_okD rest by fastforce
  with ok3 show ?thesis by blast
qed

lemma copy_vmas_ok: "vm_ok R s \<Longrightarrow> yields_ok R id (copy_vmas child pv cv frst s)"
proof -
  have "vm_ok R s \<longrightarrow> vm_ok R s'" if "copy_vmas child pv cv frst s = Some s'" for s'
  proof (rule copy_vmas.raw_induct [where P = "\<lambda>_ _ _ _ s s'. vm_ok R s \<longrightarrow> vm_ok R s'", OF _ that], rule impI)
    fix rec child frst s s' and pv cv :: "u64 option"
    assume IH: "\<And>child pv cv frst s s'. rec child pv cv frst s = Some s' \<Longrightarrow> vm_ok R s \<longrightarrow> vm_ok R s'"
      and run: "(case pv of None \<Rightarrow> Some s
        | Some pv \<Rightarrow> do {
          let frst = (if cv = None then True else frst);
          (cv, s) \<leftarrow> kmalloc s 64;
          let s = s\<lparr>vmas := (vmas s)(cv := vmas s pv)\<rparr>;
          let s = (if frst then upd_task child (vma_update (\<lambda>_. Some cv)) s else s);
          let child_vma = (if vma_next (vmas s cv) \<noteq> None then vma_next (vmas s cv) else Some cv);
          rec child (vma_next (vmas s pv)) child_vma False s }) = Some s'"
      and ok: "vm_ok R s"
    have step: "yields_ok R id (rec c p q f u)" if "vm_ok R u" for c p q f u using IH that by (auto simp: yields_ok_def)
    show "vm_ok R s'"
    proof (cases pv)
      case (Some p)
      have "vm_ok R (id s')"
        by (rule yields_okD [OF _ run [unfolded Some option.case Let_def]]) (rule yields_pair kmalloc_ok ok step | simp)+
      then show ?thesis by simp
    qed (use run ok in simp)
  qed
  then show "vm_ok R s \<Longrightarrow> ?thesis" by (simp add: yields_ok_def)
qed

lemma copy_address_space_steps:
  assumes "copy_address_space s parent = Some (child, s')"
  obtains s1 s4 a b u where "kmalloc s sizeof_Task = Some (child, s1)" "page_alloc_addr s4 = Some (a, b)"
    "copy_page_tables_forchild (upd_task child (task_cr3_update (\<lambda>_. a)) b) a = Some u"
    "copy_vmas child (vma (tasks u parent)) None False (set_CR3 u (task_cr3 (tasks u child))) = Some s'"
    "\<And>R. vm_ok R s4 = vm_ok R s1"
proof -
  have ok: "vm_ok R (upd_task t f (upd_task t g (upd_task t h (snd (getProcessID u))))) = vm_ok R u" for R t f g h
    and u :: "'a kernel_scheme" by simp
  have sel: "tasks (set_CR3 u r) = tasks u" for r and u :: "'a kernel_scheme" by (simp add: set_CR3_def)
  from assms show thesis
    unfolding copy_address_space_def Let_def case_prod_beta
    by (auto simp only: Option.bind_eq_Some_conv prod.sel option.inject prod.inject sel) (rule that, assumption+, rule ok)
qed

lemma copy_address_space_ok:
  assumes "vm_ok R s" "copy_address_space s parent = Some (child, s')"
  shows "\<exists>r. vm_ok (insert r R) s' \<and> r \<notin> R"
proof -
  obtain s1 s4 a b u where 1: "kmalloc s sizeof_Task = Some (child, s1)" "page_alloc_addr s4 = Some (a, b)"
    "copy_page_tables_forchild (upd_task child (task_cr3_update (\<lambda>_. a)) b) a = Some u"
    "copy_vmas child (vma (tasks u parent)) None False (set_CR3 u (task_cr3 (tasks u child))) = Some s'"
    "vm_ok R s4 = vm_ok R s1"
    by (rule copy_address_space_steps [OF assms(2)]) blast
  have "vm_ok R s4" using yields_okD [OF kmalloc_ok [OF assms(1)] 1(1)] 1(5) by simp
  from copy_page_tables_ok [OF this 1(2) refl 1(3)]
  have 2: "vm_ok (insert a R) u" "a \<notin> R" "same_but_mem (upd_task child (task_cr3_update (\<lambda>_. a)) b) u" by simp_all
  have "tasks u = tasks (upd_task child (task_cr3_update (\<lambda>_. a)) b)"
    using 2(3) by (cases u; cases "upd_task child (task_cr3_update (\<lambda>_. a)) b") (simp add: same_but_mem_def)
  then have "task_cr3 (tasks u child) = a" by simp
  then have "vm_ok (insert a R) (set_CR3 u (task_cr3 (tasks u child)))" using set_CR3_ok [OF 2(1)] by simp
  from yields_okD [OF copy_vmas_ok [OF this] 1(4)] 2(2) show ?thesis by auto
qed

subsection \<open>Reachable states\<close>

text \<open>The states of the memory manager, with the address spaces made so far: those that
  \<open>mem_alloc\<close> ends in, and those that the operations lead to, in any order.\<close>

inductive vm_reach :: "u64 set \<Rightarrow> 'a proc_state_scheme \<Rightarrow> bool" where
  Boot: "boot_memory np pf s \<Longrightarrow> mem_alloc 0xFFFFFFFF80200000 0x200000 np pf s = Some s' \<Longrightarrow> vm_reach {CR3 s'} s'"
| Kmalloc: "vm_reach R s \<Longrightarrow> kmalloc s sz = Some (a, s') \<Longrightarrow> vm_reach R s'"
| Page: "vm_reach R s \<Longrightarrow> page_alloc_addr s = Some (a, s') \<Longrightarrow> vm_reach R s'"
| Map: "vm_reach R s \<Longrightarrow> map_process s va pa = Some s' \<Longrightarrow> vm_reach R s'"
| Get: "vm_reach R s \<Longrightarrow> get_phy_addr s va = Some (a, s') \<Longrightarrow> vm_reach R s'"
| Area: "vm_reach R s \<Longrightarrow> addVMA st en fg ty s = Some (v, s') \<Longrightarrow> vm_reach R s'"
| Load: "vm_reach R s \<Longrightarrow> elf_load img ts te task file argc args s = Some s' \<Longrightarrow> vm_reach R s'"
| Fault: "vm_reach R s \<Longrightarrow> pg_fault_handler va s = Some s' \<Longrightarrow> vm_reach R s'"
| Store: "vm_reach R s \<Longrightarrow> vstore va b s = Some s' \<Longrightarrow> vm_reach R s'"
| Tasks: "vm_reach R s \<Longrightarrow> vm_reach R (s\<lparr>tasks := g\<rparr>)"
| Space: "vm_reach R s \<Longrightarrow> set_user_AddrSpace s = Some (r, s') \<Longrightarrow> vm_reach (insert r R) s'"
| Child: "vm_reach R s \<Longrightarrow> page_alloc_addr s = Some (r, s1) \<Longrightarrow>
    copy_page_tables_forchild (upd_task t f s1) r = Some s' \<Longrightarrow> vm_reach (insert r R) s'"
| Switch: "vm_reach R s \<Longrightarrow> r \<in> R \<Longrightarrow> vm_reach R (set_CR3 s r)"

lemma mem_alloc_ok:
  assumes "boot_memory np pf s" "mem_alloc 0xFFFFFFFF80200000 0x200000 np pf s = Some s'"
  shows "vm_ok {CR3 s'} s'"
proof -
  have "CR3 s' = pml4 s'" "\<exists>own fl. vm_wf own fl s' \<and> own (CR3 s') = Some []"
    using mem_alloc_spec [OF assms(1)] assms(2) by auto
  then show ?thesis by (auto simp: vm_ok_def)
qed

lemma vm_reach_ok: "vm_reach R s \<Longrightarrow> vm_ok R s"
proof (induction rule: vm_reach.induct)
  case (Boot np pf s s')
  then show ?case by (rule mem_alloc_ok)
next
  case (Space R s r s')
  then show ?case using set_user_AddrSpace_ok by blast
next
  case (Child R s r s1 t f s')
  then show ?case using copy_page_tables_ok by blast
qed (auto dest: yields_okD [OF kmalloc_ok] yields_okD [OF page_ok] yields_okD [OF map_process_ok] yields_okD [OF get_phy_addr_ok]
      yields_okD [OF addVMA_ok] yields_okD [OF elf_load_ok] yields_okD [OF pg_fault_ok] yields_okD [OF vstore_ok] set_CR3_ok)

text \<open>Along the tables the map follows the path.\<close>

lemma walk_own:
  assumes "tables_ok own s" "own t = Some p" "set is \<subseteq> {..<512}" "is \<noteq> []" "length p + length is \<le> 3" "walk s t is = Some e"
  shows "own (get_address e) = Some (p @ is)"
  using assms(2-6)
proof (induction "is" arbitrary: t p)
  case (Cons i js)
  then have i: "present (pt_entry s t i)" "i < 512" "length p < 3" by (cases js; auto split: if_splits)+
  have o: "own (get_address (pt_entry s t i)) = Some (p @ [i])" by (rule tables_ok_next [OF assms(1) Cons.prems(1) i(3,2,1)])
  show ?case
  proof (cases js)
    case Nil
    then show ?thesis using o Cons.prems(5) i(1) by simp
  next
    case (Cons j ks)
    with Cons.prems Cons.IH [OF o] i(1) show ?thesis by simp
  qed
qed simp

lemma vm_ok_fresh_page:
  assumes "vm_ok R s" "page_alloc_addr s = Some (f, s1)"
  shows "f \<notin> R" and "r \<in> R \<Longrightarrow> 0 < n \<Longrightarrow> n \<le> 3 \<Longrightarrow> walk s r (take n (vpath va)) = Some e \<Longrightarrow> get_address e \<noteq> f"
proof -
  obtain own fl where 1: "vm_wf own fl s" "\<And>r. r \<in> R \<Longrightarrow> own r = Some []" by (rule vm_okE [OF assms(1)]) blast
  have f: "own f = None" by (rule page_alloc_addr_ok [OF 1(1) assms(2), of "[]"]) auto
  then show "f \<notin> R" using 1(2) by auto
  assume a: "r \<in> R" "0 < n" "n \<le> 3" "walk s r (take n (vpath va)) = Some e"
  have "own (get_address e) = Some ([] @ take n (vpath va))"
  proof (rule walk_own)
    show "tables_ok own s" using 1(1) by (simp add: vm_wf_def)
    show "set (take n (vpath va)) \<subseteq> {..<512}" using vpath_less by (auto dest!: in_set_takeD)
  qed (use 1(2) a in \<open>auto simp: vpath_def\<close>)
  with f show "get_address e \<noteq> f" by auto
qed


subsection \<open>Witnesses\<close>

text \<open>A machine of 8192 cleared pages.\<close>

definition demo_machine :: proc_state where
  "demo_machine = demo_proc\<lparr>pages := \<lambda>_. \<lparr>nxt = None, refer_cnt = 0, page_addr = 0\<rparr>, free_list := None, mem := \<lambda>_. 0\<rparr>"

lemma demo_machine_boots: "boot_memory 8192 0x300000 demo_machine"
proof -
  let ?s = "demo_machine\<lparr>noofpages := 8192, physfree := 0x300000\<rparr>"
  have m: "784 = unat (page_init_memory ?s)" "8192 = unat (noofpages_sz ?s)"
    by (simp_all add: page_init_memory_def noofpages_sz_def)
  have e: "\<not> present (pt_entry demo_machine t i)" for t i
    by (simp add: demo_machine_def pt_entry_def present_def)
  have d: "free_list demo_machine = None" "nxt (pages demo_machine i) = None" for i by (simp_all add: demo_machine_def)
  show ?thesis using d e by (simp add: boot_memory_def Let_def m [symmetric])
qed


end
