(* ===== verification/ForkCopy.thy ===== *)
theory ForkCopy
  imports VmTypes
begin

unbundle bit_operations_syntax

text \<open>
  What \<open>copy_page_tables_forchild\<close> makes: the child's tables translate every address below the last two
  slots of the root to the parent's frame, and parent and child both see it read-only and marked for copy
  on write. \<open>tables_needed\<close> counts the tables it allocates.
\<close>

definition cow_entry :: "u64 \<Rightarrow> u64" where
  "cow_entry e = get_address e OR (PTE_P OR PTE_U OR PTE_COW)"

lemma present_cow [simp]: "present (cow_entry e)"
proof -
  have "bit (0x105 :: u64) 0" by simp
  then show ?thesis unfolding present_def cow_entry_def and_1 by (simp add: bit_or_iff)
qed

lemma cow_entry_address [simp]: "get_address (cow_entry e) = get_address e"
proof -
  have "(0x105 :: u64) AND FRAME = 0" "get_address e AND FRAME = get_address e"
    by (simp, simp add: get_address_def and.assoc)
  then show ?thesis by (simp add: cow_entry_def get_address_def bit.conj_disj_distrib2 and.assoc)
qed

text \<open>The tables below slot \<open>i\<close> of a table with \<open>k\<close> levels of tables below it.\<close>

primrec tables_needed :: "nat \<Rightarrow> 'a vm_scheme \<Rightarrow> u64 \<Rightarrow> u64 \<Rightarrow> nat" where
  "tables_needed 0 s t i = 0"
| "tables_needed (Suc k) s t i =
     (if present (pt_entry s t i)
      then Suc (\<Sum>j<512. tables_needed k s (get_address (pt_entry s t i)) (of_nat j)) else 0)"

subsection \<open>Frames\<close>

text \<open>A write to a slot of a table changes no walk from another table at the same level or further down.\<close>

lemma walk_write_above:
  assumes "tables_ok own s" "own t0 = Some p0" "i0 < 512" "own t = Some p" "set is \<subseteq> {..<512}"
    and "length p0 \<le> length p" "t \<noteq> t0" "length p + length is \<le> 4"
  shows "walk (pt_write s t0 i0 v) t is = walk s t is"
  using assms(4-8)
proof (induction "is" arbitrary: t p)
  case (Cons i js)
  have al: "aligned t" "aligned t0" using assms(1,2) Cons.prems(1) by (auto dest: tables_okD)
  have i: "i < 512" and ne: "t \<noteq> t0" using Cons.prems by auto
  have e: "pt_entry (pt_write s t0 i0 v) t i = pt_entry s t i"
    using al i assms(3) ne by (simp add: pt_entry_update)
  show ?case
  proof (cases "js = [] \<or> \<not> present (pt_entry s t i)")
    case True
    then show ?thesis using e by (cases js) auto
  next
    case False
    then have o: "own (get_address (pt_entry s t i)) = Some (p @ [i])"
      using tables_ok_next [OF assms(1) Cons.prems(1) _ i] Cons.prems(5) by (cases js) simp_all
    moreover have "get_address (pt_entry s t i) \<noteq> t0" using o assms(2) Cons.prems(3) by auto
    ultimately show ?thesis
      using Cons.IH [of "get_address (pt_entry s t i)" "p @ [i]"] Cons.prems False e by (cases js) auto
  qed
qed simp

text \<open>\<open>keeps_off own A s s'\<close>: the walks from known tables along paths outside \<open>A\<close> are the same.\<close>

definition keeps_off :: "(u64 \<Rightarrow> u64 list option) \<Rightarrow> (u64 list \<Rightarrow> bool) \<Rightarrow> 'a vm_scheme \<Rightarrow> 'a vm_scheme \<Rightarrow> bool" where
  "keeps_off own A s s' \<longleftrightarrow> (\<forall>u q ks. own u = Some q \<longrightarrow> set ks \<subseteq> {..<512} \<longrightarrow> length q + length ks \<le> 4 \<longrightarrow>
     \<not> A (q @ ks) \<longrightarrow> walk s' u ks = walk s u ks)"

lemma keeps_offD:
  "keeps_off own A s s' \<Longrightarrow> own u = Some q \<Longrightarrow> set ks \<subseteq> {..<512} \<Longrightarrow> length q + length ks \<le> 4 \<Longrightarrow> \<not> A (q @ ks) \<Longrightarrow>
    walk s' u ks = walk s u ks"
  unfolding keeps_off_def by blast

lemma keeps_off_trans:
  assumes "keeps_off own A s s'" "own \<subseteq>\<^sub>m own'" "keeps_off own' B s' s''" "\<And>x. A x \<Longrightarrow> C x" "\<And>x. B x \<Longrightarrow> C x"
  shows "keeps_off own C s s''"
  unfolding keeps_off_def
proof (intro allI impI)
  fix u q ks assume h: "own u = Some q" "set ks \<subseteq> {..<512}" "length q + length ks \<le> 4" "\<not> C (q @ ks)"
  then have "walk s' u ks = walk s u ks" using assms(4) by (intro keeps_offD [OF assms(1)]) auto
  moreover have "walk s'' u ks = walk s' u ks"
    using h assms(5) by (intro keeps_offD [OF assms(3) map_le_Some [OF assms(2) h(1)]]) auto
  ultimately show "walk s'' u ks = walk s u ks" by simp
qed

lemma keeps_off_refl: "keeps_off own A s s"
  by (simp add: keeps_off_def)

lemma keeps_off_write:
  assumes "vm_wf own fl s" "own c = Some p" "i < 512"
  shows "keeps_off own (prefix (p @ [i])) s (pt_write s c i v)"
  using assms walk_write_other [of own s c p i] by (auto simp: keeps_off_def vm_wf_def)

text \<open>The number of tables below a slot depends on the walks through it only.\<close>

lemma tables_needed_cong:
  assumes "\<And>ks. length ks < k \<Longrightarrow> set ks \<subseteq> {..<512} \<Longrightarrow> walk s' t (i # ks) = walk s t (i # ks)"
  shows "tables_needed k s' t i = tables_needed k s t i"
  using assms
proof (induction k arbitrary: t i)
  case (Suc k)
  have w: "walk s' t [i] = walk s t [i]" using Suc.prems [of "[]"] by simp
  then have e: "present (pt_entry s' t i) = present (pt_entry s t i)"
    "present (pt_entry s t i) \<Longrightarrow> pt_entry s' t i = pt_entry s t i"
    by (auto split: if_splits)
  let ?t = "get_address (pt_entry s t i)"
  have "tables_needed k s' ?t (of_nat j) = tables_needed k s ?t (of_nat j)" if "present (pt_entry s t i)" "j < 512" for j
  proof (rule Suc.IH)
    fix ks :: "u64 list" assume "length ks < k" "set ks \<subseteq> {..<512}"
    then show "walk s' ?t (of_nat j # ks) = walk s ?t (of_nat j # ks)"
      using Suc.prems [of "of_nat j # ks"] that e of_nat_512 [of j] by simp
  qed
  then show ?case using e by simp
qed simp

subsection \<open>One entry\<close>

text \<open>What the copy of slot \<open>i\<close> from \<open>t\<close> to \<open>c\<close>, with \<open>k\<close> levels of tables below it, has made of the walks: the
  same frames from both, the same tables under \<open>t\<close>, and no table under \<open>c\<close> that was in use before.\<close>

definition cow_slot ::
    "(u64 \<Rightarrow> u64 list option) \<Rightarrow> nat \<Rightarrow> 'a vm_scheme \<Rightarrow> 'a vm_scheme \<Rightarrow> u64 \<Rightarrow> u64 \<Rightarrow> u64 \<Rightarrow> bool" where
  "cow_slot own k s s' c t i \<longleftrightarrow> (\<forall>ks. set ks \<subseteq> {..<512} \<longrightarrow>
     (length ks = k \<longrightarrow> walk s' t (i # ks) = map_option cow_entry (walk s t (i # ks)) \<and>
        walk s' c (i # ks) = map_option cow_entry (walk s t (i # ks))) \<and>
     (length ks < k \<longrightarrow> walk s' t (i # ks) = walk s t (i # ks) \<and>
        (\<forall>e. walk s' c (i # ks) = Some e \<longrightarrow> own (get_address e) = None)))"

lemma cow_slotD:
  assumes "cow_slot own k s s' c t i" "set ks \<subseteq> {..<512}"
  shows "length ks = k \<Longrightarrow> walk s' t (i # ks) = map_option cow_entry (walk s t (i # ks))"
    and "length ks = k \<Longrightarrow> walk s' c (i # ks) = map_option cow_entry (walk s t (i # ks))"
    and "length ks < k \<Longrightarrow> walk s' c (i # ks) = Some e \<Longrightarrow> own (get_address e) = None"
    and "length ks < k \<Longrightarrow> walk s' t (i # ks) = walk s t (i # ks)"
  using assms unfolding cow_slot_def by blast+

lemma cow_slot_weaken:
  assumes "cow_slot own1 k s1 s' c t i" "own \<subseteq>\<^sub>m own1"
    and "\<And>ks. set ks \<subseteq> {..<512} \<Longrightarrow> length ks \<le> k \<Longrightarrow> walk s1 t (i # ks) = walk s t (i # ks)"
  shows "cow_slot own k s s' c t i"
proof -
  have "own a = None" if "own1 a = None" for a using map_le_Some [OF assms(2), of a] that by (cases "own a") auto
  then show ?thesis using assms(1,3) unfolding cow_slot_def by auto
qed

lemma cow_slot_kept:
  assumes "cow_slot own k s s1 c t i"
    and "\<And>u ks. u = c \<or> u = t \<Longrightarrow> set ks \<subseteq> {..<512} \<Longrightarrow> length ks \<le> k \<Longrightarrow> walk s' u (i # ks) = walk s1 u (i # ks)"
  shows "cow_slot own k s s' c t i"
  using assms unfolding cow_slot_def by auto

text \<open>The contract of the copy of one entry of a table at depth \<open>n\<close>: what it leaves behind, and when it ends.\<close>

definition cow_copied ::
    "nat \<Rightarrow> (u64 \<Rightarrow> u64 list option) \<Rightarrow> nat list \<Rightarrow> 'a vm_scheme \<Rightarrow> u64 \<Rightarrow> u64 \<Rightarrow> u64 list \<Rightarrow> u64 \<Rightarrow>
     'a vm_scheme \<Rightarrow> (u64 \<Rightarrow> u64 list option) \<Rightarrow> nat list \<Rightarrow> bool" where
  "cow_copied n own fl s c t p i s' own' fl' \<longleftrightarrow> vm_wf own' fl' s' \<and> own \<subseteq>\<^sub>m own' \<and> same_but_mem s s' \<and>
     fl' = drop (tables_needed (3 - n) s t i) fl \<and> keeps_off own (prefix (p @ [i])) s s' \<and> cow_slot own (3 - n) s s' c t i"

lemma cow_skip:
  assumes "vm_wf own fl s" "\<not> present (pt_entry s c i)" "\<not> present (pt_entry s t i)"
  shows "cow_copied n own fl s c t p i s own fl"
proof -
  have "walk s u (i # ks) = None" if "\<not> present (pt_entry s u i)" for u ks using that by (cases ks) simp_all
  moreover have "tables_needed k s t i = 0" for k using assms(3) by (cases k) simp_all
  ultimately show ?thesis using assms by (simp add: cow_copied_def cow_slot_def keeps_off_refl same_but_mem_def)
qed

definition copies_cow :: "nat \<Rightarrow> (u64 \<Rightarrow> u64 \<Rightarrow> nat \<Rightarrow> 'a vm_scheme \<Rightarrow> 'a vm_scheme option) \<Rightarrow> bool" where
  "copies_cow n copy \<longleftrightarrow> (\<forall>own fl s c t p i. vm_wf own fl s \<longrightarrow> own c = Some p \<longrightarrow> own t = Some p \<longrightarrow> c \<noteq> t \<longrightarrow>
     length p = n \<longrightarrow> i < 512 \<longrightarrow> tables_needed (3 - n) s t (of_nat i) \<le> length fl \<longrightarrow> \<not> present (pt_entry s c (of_nat i)) \<longrightarrow>
     (\<exists>s' own' fl'. copy c t i s = Some s' \<and> cow_copied n own fl s c t p (of_nat i) s' own' fl'))"

lemma copies_cowE:
  assumes "copies_cow n copy" "vm_wf own fl s" "own c = Some p" "own t = Some p" "c \<noteq> t" "length p = n" "i < 512"
    "tables_needed (3 - n) s t (of_nat i) \<le> length fl" "\<not> present (pt_entry s c (of_nat i))"
  obtains s' own' fl' where "copy c t i s = Some s'" "vm_wf own' fl' s'" "own \<subseteq>\<^sub>m own'" "same_but_mem s s'"
    "fl' = drop (tables_needed (3 - n) s t (of_nat i)) fl"
    "keeps_off own (prefix (p @ [of_nat i])) s s'" "cow_slot own (3 - n) s s' c t (of_nat i)"
  using assms unfolding copies_cow_def cow_copied_def by blast

lemma copy_pt_entry_cow: "copies_cow 3 copy_pt_entry"
  unfolding copies_cow_def
proof (intro allI impI)
  fix own fl s c t p and i :: nat
  assume wf: "vm_wf own fl s" and p: "own c = Some p" "own t = Some p" and ne: "c \<noteq> t" and l: "length p = 3"
    and i: "i < 512" and np: "\<not> present (pt_entry s c (of_nat i))"
  let ?i = "of_nat i :: u64" let ?e = "pt_entry s t ?i"
  have i': "?i < 512" using of_nat_512 i by simp
  have ok: "tables_ok own s" using wf by (simp add: vm_wf_def)
  have al: "aligned c" "aligned t" "c \<noteq> 0" "t \<noteq> 0" using ok p by (auto dest: tables_okD)
  show "\<exists>s' own' fl'. copy_pt_entry c t i s = Some s' \<and> cow_copied 3 own fl s c t p ?i s' own' fl'"
  proof (cases "present ?e")
    case False
    then have "copy_pt_entry c t i s = Some s"
      using al by (simp add: copy_pt_entry_def get_pt_entry_def pt_get_def present_def)
    then show ?thesis using cow_skip [OF wf np False] by blast
  next
    case True
    let ?s1 = "pt_write s c ?i (cow_entry ?e)"
    let ?s' = "pt_write ?s1 t ?i (cow_entry ?e)"
    have wf1: "vm_wf own fl ?s1" by (rule vm_wf_write_leaf [OF wf p(1) l i'])
    have "copy_pt_entry c t i s = Some ?s'"
      using True al by (simp add: copy_pt_entry_def get_pt_entry_def pt_get_def pt_set_def present_def cow_entry_def Let_def)
    moreover have "vm_wf own fl ?s'" by (rule vm_wf_write_leaf [OF wf1 p(2) l i'])
    moreover have "keeps_off own (prefix (p @ [?i])) s ?s'"
      by (rule keeps_off_trans [OF keeps_off_write [OF wf p(1) i'] map_le_refl keeps_off_write [OF wf1 p(2) i']])
    moreover have "pt_entry ?s' t ?i = cow_entry ?e" "pt_entry ?s' c ?i = cow_entry ?e"
      using al ne i' by (simp_all add: pt_entry_update)
    ultimately show ?thesis
      using True by (intro exI [of _ ?s'] exI [of _ own] exI [of _ fl]) (simp add: cow_copied_def cow_slot_def same_but_mem_def pt_write_def [of _ _ _ "cow_entry ?e"])
  qed
qed

subsection \<open>All entries of a table\<close>

definition below :: "u64 list \<Rightarrow> nat \<Rightarrow> u64 list \<Rightarrow> bool" where
  "below p n x \<longleftrightarrow> (\<exists>j<n. prefix (p @ [of_nat j]) x)"

lemma of_nat_512_inj: "j < 512 \<Longrightarrow> i < 512 \<Longrightarrow> (of_nat j :: u64) = of_nat i \<longleftrightarrow> j = i"
  by (simp add: word_unat_eq_iff unsigned_of_nat take_bit_nat_eq_self)

lemma below_other: "n \<le> i \<Longrightarrow> i < 512 \<Longrightarrow> \<not> below p n (p @ of_nat i # ks)"
  by (auto simp: below_def of_nat_512_inj)

lemma below_prefix: "below p n x \<Longrightarrow> prefix p x"
  unfolding below_def using append_prefixD by blast

lemma entry_other_index:
  assumes "keeps_off own (prefix (p @ [of_nat n])) s s'" "own u = Some p" "n < 512" "j < 512" "j \<noteq> n"
    "set ks \<subseteq> {..<512}" "length p + length ks \<le> 3"
  shows "walk s' u (of_nat j # ks) = walk s u (of_nat j # ks)"
  by (rule keeps_offD [OF assms(1,2)]) (use assms of_nat_512 [of j] of_nat_512_inj [of n j] in auto)

lemma copy_loop_cow:
  assumes "copies_cow n copy" "n \<le> 3" "vm_wf own fl s" "own c = Some p" "own t = Some p" "c \<noteq> t" "length p = n"
    "N \<le> 512" "(\<Sum>j<N. tables_needed (3 - n) s t (of_nat j)) \<le> length fl" "\<And>j. j < N \<Longrightarrow> \<not> present (pt_entry s c (of_nat j))"
  shows "\<exists>s' own' fl'. for_each (copy c t) [0..<N] s = Some s' \<and> vm_wf own' fl' s' \<and> own \<subseteq>\<^sub>m own' \<and> same_but_mem s s' \<and>
    fl' = drop (\<Sum>j<N. tables_needed (3 - n) s t (of_nat j)) fl \<and> keeps_off own (below p N) s s' \<and>
    (\<forall>j<N. cow_slot own (3 - n) s s' c t (of_nat j))"
  using assms(8-10)
proof (induction N)
  case 0
  then show ?case using assms(3) by (intro exI [of _ s] exI [of _ own] exI [of _ fl]) (simp add: keeps_off_refl)
next
  case (Suc N)
  let ?S = "\<Sum>j<N. tables_needed (3 - n) s t (of_nat j)"
  have N: "N < 512" using Suc.prems(1) by simp
  obtain s1 own1 fl1 where 1: "for_each (copy c t) [0..<N] s = Some s1" "vm_wf own1 fl1 s1" "own \<subseteq>\<^sub>m own1" "same_but_mem s s1"
    "fl1 = drop ?S fl" "keeps_off own (below p N) s s1"
    "\<And>j. j < N \<Longrightarrow> cow_slot own (3 - n) s s1 c t (of_nat j)"
    using Suc.IH Suc.prems by auto
  have keep: "walk s1 u (of_nat N # ks) = walk s u (of_nat N # ks)"
    if "own u = Some p" "set ks \<subseteq> {..<512}" "length ks \<le> 3 - n" for u ks
    using that assms(2,7) N of_nat_512 [of N] below_other [of N N p ks] by (intro keeps_offD [OF 1(6)]) auto
  have need: "tables_needed (3 - n) s1 t (of_nat N) = tables_needed (3 - n) s t (of_nat N)"
    by (rule tables_needed_cong, rule keep) (use assms(5) in auto)
  have "walk s1 c [of_nat N] = None" using keep [OF assms(4), of "[]"] Suc.prems(3) [of N] by simp
  then have np: "\<not> present (pt_entry s1 c (of_nat N))" by (simp split: if_splits)
  note o1 = map_le_Some [OF 1(3) assms(4)] map_le_Some [OF 1(3) assms(5)]
  have "tables_needed (3 - n) s1 t (of_nat N) \<le> length fl1" using need Suc.prems(2) 1(5) by simp
  then obtain s' own' fl' where 2: "copy c t N s1 = Some s'" "vm_wf own' fl' s'" "own1 \<subseteq>\<^sub>m own'" "same_but_mem s1 s'"
    "fl' = drop (tables_needed (3 - n) s1 t (of_nat N)) fl1" "keeps_off own1 (prefix (p @ [of_nat N])) s1 s'"
    "cow_slot own1 (3 - n) s1 s' c t (of_nat N)"
    by (rule copies_cowE [OF assms(1) 1(2) o1 assms(6,7) N _ np]) blast
  have "for_each (copy c t) [0..<Suc N] s = Some s'" using 1(1) 2(1) by (simp add: for_each_append)
  moreover have "own \<subseteq>\<^sub>m own'" using 1(3) 2(3) by (rule map_le_trans)
  moreover have "same_but_mem s s'" using 1(4) 2(4) by (rule same_but_mem_trans)
  moreover have "keeps_off own (below p (Suc N)) s s'"
    by (rule keeps_off_trans [OF 1(6,3) 2(6)]) (auto simp: below_def less_Suc_eq)
  moreover have "cow_slot own (3 - n) s s' c t (of_nat j)" if j: "j < Suc N" for j
  proof (cases "j = N")
    case True
    then show ?thesis using cow_slot_weaken [OF 2(7) 1(3)] keep [OF assms(5)] by simp
  next
    case False
    then have "cow_slot own (3 - n) s s1 c t (of_nat j)" using j 1(7) by simp
    then show ?thesis
      by (rule cow_slot_kept) (use entry_other_index [OF 2(6)] False j o1 assms(2,7) N in auto)
  qed
  moreover have "fl' = drop (\<Sum>j<Suc N. tables_needed (3 - n) s t (of_nat j)) fl"
    using 1(5) 2(5) need by (simp add: add.commute)
  ultimately show ?case using 2(2,5) 1(5) need by (intro exI [of _ s'] exI [of _ own'] exI [of _ fl']) simp
qed

subsection \<open>The upper levels\<close>

text \<open>The new table of the child, hung into the absent slot \<open>(c, i)\<close>.\<close>

lemma new_table:
  assumes "vm_wf own (x # fl) s" "own c = Some p" "own t = Some p" "c \<noteq> t" "length p < 3" "i < 512"
    "present (pt_entry s t i)" "\<not> present (pt_entry s c i)"
  obtains c' s1 where "pdpt_alloc s c i = Some (c', s1)" "vm_wf (own(c' \<mapsto> p @ [i])) fl s1" "own c' = None"
    "same_but_mem s s1" "keeps_off own (prefix (p @ [i])) s s1" "pt_entry s1 c i = c' OR 7" "aligned c'"
    "\<And>j. j < 512 \<Longrightarrow> \<not> present (pt_entry s1 c' j)" "pt_entry s1 t i = pt_entry s t i"
    "\<And>ks. set ks \<subseteq> {..<512} \<Longrightarrow> length ks \<le> 3 - length p \<Longrightarrow>
       walk s1 (get_address (pt_entry s t i)) ks = walk s (get_address (pt_entry s t i)) ks"
proof -
  let ?t = "get_address (pt_entry s t i)" and ?f = "page_addr (pages s x)"
  obtain s1 where 1: "pdpt_alloc s c i = Some (?f, s1)" "vm_wf (own(?f \<mapsto> p @ [i])) fl s1" "vm_grows own s (own(?f \<mapsto> p @ [i])) s1"
    "pt_entry s1 c i = ?f OR 7" "aligned ?f" "\<And>j. j < 512 \<Longrightarrow> \<not> present (pt_entry s1 ?f j)"
    by (rule pdpt_alloc_spec [OF assms(1,2,5,6,8) refl]) blast
  define s0 where "s0 = s\<lparr>free_list := nxt (pages s x)\<rparr>"
  have ok: "tables_ok own s" "free_ok own (x # fl) s" using assms(1) by (auto simp: vm_wf_def)
  have f: "own ?f = None" using free_okD [OF ok(2), of x] by simp
  have ok0: "tables_ok own s0" using ok(1) by (simp add: s0_def tables_ok_def)
  have s1: "s1 = pt_write s0 c i (?f OR 7)"
    using 1(1) page_alloc_addr_head [OF assms(1)] by (auto simp: pdpt_alloc_def pt_set_def s0_def split: if_splits)
  have o: "own ?t = Some (p @ [i])" by (rule tables_ok_next [OF ok(1) assms(3,5,6,7)])
  have w0: "walk s0 u ks = walk s u ks" for u ks by (simp add: s0_def)
  have "keeps_off own (prefix (p @ [i])) s s1"
    unfolding keeps_off_def s1 using walk_write_other [OF ok0 assms(2,6)] by (simp add: w0)
  moreover have "walk s1 ?t ks = walk s ?t ks" if "set ks \<subseteq> {..<512}" "length ks \<le> 3 - length p" for ks
    unfolding s1 w0 [symmetric]
    by (rule walk_write_above [OF ok0 assms(2,6) o]) (use that assms(2,5) o in auto)
  moreover have "pt_entry s1 t i = pt_entry s t i"
    using tables_okD(1) [OF ok(1)] assms(2,3,4,6) by (auto simp: s1 pt_entry_update s0_def)
  moreover have "same_but_mem s s1" using 1(3) by (simp add: vm_grows_def)
  ultimately show thesis using that [of ?f s1] 1 f by simp
qed

lemma cow_slot_below:
  assumes "pt_entry s' t i = pt_entry s t i" "pt_entry s' c i = c' OR 7" "present (pt_entry s t i)" "own c' = None" "aligned c'"
    and "\<And>j. j < 512 \<Longrightarrow> cow_slot own1 k s1 s' c' (get_address (pt_entry s t i)) (of_nat j)" "own \<subseteq>\<^sub>m own1"
    and "\<And>ks. set ks \<subseteq> {..<512} \<Longrightarrow> length ks \<le> Suc k \<Longrightarrow> walk s1 (get_address (pt_entry s t i)) ks = walk s (get_address (pt_entry s t i)) ks"
  shows "cow_slot own (Suc k) s s' c t i"
proof -
  let ?t = "get_address (pt_entry s t i)"
  have sub: "cow_slot own k s s' c' ?t j" if "j < 512" for j
  proof -
    have j: "unat j < 512" "of_nat (unat j) = j" using that by (simp_all add: word_less_nat_alt)
    show ?thesis using cow_slot_weaken [OF assms(6) [OF j(1)] assms(7)] assms(8) that by (simp add: j(2))
  qed
  have c: "walk s' c (i # ks) = walk s' c' ks" "walk s' t (i # ks) = walk s' ?t ks" "walk s t (i # ks) = walk s ?t ks"
    if "ks \<noteq> []" for ks :: "u64 list"
    using that assms(1-3,5) by (simp_all add: walk_Cons get_address_idem)
  have one: "walk s' c [i] = Some (c' OR 7)" "get_address (c' OR 7) = c'" using assms(2) address_or_flags [OF assms(5)] by simp_all
  show ?thesis
    unfolding cow_slot_def
  proof (intro allI impI conjI)
    fix ks :: "u64 list" and e assume ks: "set ks \<subseteq> {..<512}"
    show "walk s' t (i # ks) = map_option cow_entry (walk s t (i # ks))" "walk s' c (i # ks) = map_option cow_entry (walk s t (i # ks))"
      if "length ks = Suc k"
      using that ks c [of ks] sub [of "hd ks"] by (cases ks; simp add: cow_slot_def)+
    show "walk s' t (i # ks) = walk s t (i # ks)" if "length ks < Suc k"
      using that ks assms(1) c(2,3) [of ks] sub [of "hd ks"] by (cases ks) (auto simp: cow_slot_def simp del: walk.simps(3))
    show "own (get_address e) = None" if "length ks < Suc k" "walk s' c (i # ks) = Some e"
      using that ks one assms(4) c(1) [of ks] sub [of "hd ks"] by (cases ks) (auto simp: cow_slot_def)
  qed
qed

lemma copy_level_present:
  assumes "copies_cow (Suc n) copy" "n < 3" and wf: "vm_wf own fl s" and p: "own c = Some p" "own t = Some p" and ne: "c \<noteq> t"
    and l: "length p = n" and i: "i < 512" and pages: "tables_needed (3 - n) s t (of_nat i) \<le> length fl"
    and np: "\<not> present (pt_entry s c (of_nat i))" and True: "present (pt_entry s t (of_nat i))"
  shows "\<exists>s' own' fl'. copy_level copy c t i s = Some s' \<and> cow_copied n own fl s c t p (of_nat i) s' own' fl'"
proof -
  let ?i = "of_nat i :: u64" let ?e = "pt_entry s t ?i" let ?t = "get_address ?e"
  have i': "?i < 512" using of_nat_512 i by simp
  have ok: "tables_ok own s" using wf by (simp add: vm_wf_def)
  have t0: "t \<noteq> 0" using ok p by (auto dest: tables_okD)
  have k: "3 - n = Suc (3 - Suc n)" using assms(2) by simp
  let ?S = "\<Sum>j<512. tables_needed (3 - Suc n) s ?t (of_nat j)"
  have need: "tables_needed (3 - n) s t ?i = Suc ?S" unfolding k using True by simp
  obtain x fl0 where fl: "fl = x # fl0" using pages need by (cases fl) auto
  obtain c' s1 where 1: "pdpt_alloc s c ?i = Some (c', s1)" "vm_wf (own(c' \<mapsto> p @ [?i])) fl0 s1" "own c' = None"
    "same_but_mem s s1" "keeps_off own (prefix (p @ [?i])) s s1" "pt_entry s1 c ?i = c' OR 7" "aligned c'"
    "\<And>j. j < 512 \<Longrightarrow> \<not> present (pt_entry s1 c' j)" "pt_entry s1 t ?i = ?e"
    "\<And>ks. set ks \<subseteq> {..<512} \<Longrightarrow> length ks \<le> 3 - length p \<Longrightarrow> walk s1 ?t ks = walk s ?t ks"
    by (rule new_table [OF wf[unfolded fl] p ne _ i' True np]) (use l assms(2) in blast)+
  define own1 where "own1 = own(c' \<mapsto> p @ [?i])"
  have le: "own \<subseteq>\<^sub>m own1" unfolding own1_def by (rule map_le_fresh) (rule 1(3))
  have ot: "own ?t = Some (p @ [?i])" by (rule tables_ok_next [OF ok p(2) _ i' True]) (use l assms(2) in simp)
  have o1: "own1 c' = Some (p @ [?i])" "own1 ?t = Some (p @ [?i])" "c' \<noteq> ?t"
    using map_le_Some [OF le ot] ot 1(3) by (auto simp: own1_def)
  have need1: "tables_needed (3 - Suc n) s1 ?t (of_nat j) = tables_needed (3 - Suc n) s ?t (of_nat j)" if "j < 512" for j
    by (rule tables_needed_cong, rule 1(10)) (use that l of_nat_512 [of j] in auto)
  then have S1: "(\<Sum>j<512. tables_needed (3 - Suc n) s1 ?t (of_nat j)) = ?S" by (intro sum.cong) auto
  obtain s' own' fl' where 2: "for_each (copy c' ?t) [0..<512] s1 = Some s'" "vm_wf own' fl' s'" "own1 \<subseteq>\<^sub>m own'" "same_but_mem s1 s'"
    "fl' = drop ?S fl0" "keeps_off own1 (below (p @ [?i]) 512) s1 s'"
    "\<And>j. j < 512 \<Longrightarrow> cow_slot own1 (3 - Suc n) s1 s' c' ?t (of_nat j)"
    using copy_loop_cow [OF assms(1) _ 1(2)[folded own1_def] o1, of 512] S1 pages need assms(2) l 1(8) of_nat_512
    unfolding fl by auto
  have run: "copy_level copy c t i s = Some s'"
    using True t0 1(1) 2(1) by (simp add: copy_level_def pt_get_def present_def del: upt_Suc upt_rec_numeral)
  have "walk s' u [?i] = walk s1 u [?i]" if "own u = Some p" for u
    by (rule keeps_offD [OF 2(6) map_le_Some [OF le that]]) (use l i' assms(2) in \<open>auto simp: below_def\<close>)
  from this [OF p(2)] this [OF p(1)] have e': "pt_entry s' t ?i = ?e" "pt_entry s' c ?i = c' OR 7"
    using True 1(6,9) by (auto split: if_splits)
  have "cow_slot own (3 - n) s s' c t ?i"
    unfolding k
  proof (rule cow_slot_below [OF e' True 1(3,7) 2(7) le])
    show "walk s1 ?t ks = walk s ?t ks" if "set ks \<subseteq> {..<512}" "length ks \<le> Suc (3 - Suc n)" for ks
      by (rule 1(10)) (use that l k in auto)
  qed
  moreover have "own \<subseteq>\<^sub>m own'" using le 2(3) by (rule map_le_trans)
  moreover have "same_but_mem s s'" using 1(4) 2(4) by (rule same_but_mem_trans)
  moreover have "keeps_off own (prefix (p @ [?i])) s s'"
    by (rule keeps_off_trans [OF 1(5) le 2(6)]) (auto intro: below_prefix)
  moreover have "fl' = drop (tables_needed (3 - n) s t ?i) fl" using 2(5) need by (simp add: fl)
  ultimately show ?thesis
    using run 2(2) by (intro exI [of _ s'] exI [of _ own'] exI [of _ fl']) (simp add: cow_copied_def)
qed

lemma copy_level_cow:
  fixes copy :: "u64 \<Rightarrow> u64 \<Rightarrow> nat \<Rightarrow> 'a vm_scheme \<Rightarrow> 'a vm_scheme option"
  assumes "copies_cow (Suc n) copy" "n < 3"
  shows "copies_cow n (copy_level copy)"
  unfolding copies_cow_def
proof (intro allI impI)
  fix own fl and s :: "'a vm_scheme" and c t p and i :: nat
  assume h: "vm_wf own fl s" "own c = Some p" "own t = Some p" "c \<noteq> t" "length p = n" "i < 512"
    "tables_needed (3 - n) s t (of_nat i) \<le> length fl" "\<not> present (pt_entry s c (of_nat i))"
  show "\<exists>s' own' fl'. copy_level copy c t i s = Some s' \<and> cow_copied n own fl s c t p (of_nat i) s' own' fl'"
  proof (cases "present (pt_entry s t (of_nat i))")
    case True
    then show ?thesis using copy_level_present [OF assms h] by blast
  next
    case False
    have "t \<noteq> 0" using h(1,3) by (auto simp: vm_wf_def dest: tables_okD)
    then have "copy_level copy c t i s = Some s" using False by (simp add: copy_level_def pt_get_def present_def)
    then show ?thesis using cow_skip [OF h(1,8) False] by blast
  qed
qed

lemma copy_pml4_entry_cow: "copies_cow 0 copy_pml4_entry"
proof -
  have "copies_cow (Suc (Suc (Suc 0))) copy_pt_entry" using copy_pt_entry_cow by (simp add: numeral_3_eq_3)
  then have "copies_cow (Suc (Suc 0)) copy_pdt_entry" unfolding copy_levels(1) by (intro copy_level_cow) simp_all
  then have "copies_cow (Suc 0) copy_pdpt_entry" unfolding copy_levels(2) by (intro copy_level_cow) simp_all
  then show ?thesis unfolding copy_levels(3) by (intro copy_level_cow) simp_all
qed

subsection \<open>The root\<close>

text \<open>A slot of the parent's root taken over by the child.\<close>

lemma take_slot:
  assumes "vm_wf own fl s" "own c = Some []" "own t = Some []" "c \<noteq> t" "i < 512"
  obtains s' where "pt_get s t i = Some (pt_entry s t i)" "pt_set s c i (pt_entry s t i) = Some s'" "vm_wf own fl s'"
    "same_but_mem s s'" "\<And>va. translate s' t va = translate s t va"
    "\<And>va. translate s' c va = (if getPML4Index va = i then translate s t va else translate s c va)"
    "\<And>va u. u = c \<or> u = t \<Longrightarrow> getPML4Index va \<noteq> i \<Longrightarrow> walk s' u (upath va) = walk s u (upath va)"
proof -
  have ok: "tables_ok own s" using assms(1) by (simp add: vm_wf_def)
  note al = tables_okD [OF ok assms(2)] tables_okD [OF ok assms(3)]
  define s' where "s' = pt_write s c i (pt_entry s t i)"
  have v: "set (vpath va) \<subseteq> {..<512}" for va using vpath_less by auto
  have t: "translate s' t va = translate s t va" for va
    unfolding translate_def s'_def by (rule walk_write_above [OF ok assms(2,5,3) v]) (use assms(4) in auto)
  have "pt_entry s' c i = pt_entry s' t i"
    using al assms(4,5) by (simp add: s'_def pt_entry_update)
  then have "translate s' c va = translate s t va" if "getPML4Index va = i" for va
    using translate_same_root_entry [of s' c va t] t that by simp
  moreover have "translate s' c va = translate s c va" if "getPML4Index va \<noteq> i" for va
    unfolding translate_def s'_def
    by (rule walk_write_other [OF ok assms(2,5,2) v]) (use that in \<open>auto simp: vpath_def\<close>)
  moreover have "walk s' u (upath va) = walk s u (upath va)" if "u = c \<or> u = t" "getPML4Index va \<noteq> i" for va u
    unfolding s'_def by (rule walk_write_other [OF ok assms(2,5)]) (use that assms(2,3) in \<open>auto simp: upath_def\<close>)
  moreover have "vm_wf own fl s'"
    unfolding s'_def by (rule vm_wf_write [OF assms(1,2,5)]) (use tables_ok_next [OF ok assms(3) _ assms(5)] in simp)
  moreover have "pt_set s c i (pt_entry s t i) = Some s'" "pt_get s t i = Some (pt_entry s t i)"
    using al by (simp_all add: pt_set_def pt_get_def s'_def)
  moreover have "same_but_mem s s'" by (simp add: s'_def same_but_mem_def pt_write_def)
  ultimately show thesis using t by (intro that [of s']) auto
qed

lemma not_below_high:
  assumes "510 \<le> getPML4Index va"
  shows "\<not> below [] 510 (vpath va)"
proof
  assume "below [] 510 (vpath va)"
  then obtain j :: nat where j: "j < 510" "getPML4Index va = of_nat j" by (auto simp: below_def vpath_def)
  show False using assms j(1) unfolding j(2) by (simp add: word_le_nat_alt unsigned_of_nat take_bit_nat_eq_self)
qed

text \<open>The loop over the slots of the root, on a fresh root for the child.\<close>

lemma copy_low_slots:
  fixes s :: "'a vm_scheme"
  assumes "vm_wf own (x # fl) s" "own (CR3 s) = Some []"
    and "(\<Sum>i<510. tables_needed 3 s (CR3 s) (of_nat i)) \<le> length fl"
  obtains c s1 s2 own2 fl2 where "page_alloc_addr s = Some (c, s1)" "CR3 s1 = CR3 s"
    "for_each (copy_pml4_entry c (CR3 s)) [0..<510] s1 = Some s2" "vm_wf own2 fl2 s2" "own \<subseteq>\<^sub>m own2"
    "own2 c = Some []" "c \<noteq> CR3 s" "same_but_mem s s2"
    "\<And>va u. getPML4Index va < 510 \<Longrightarrow> u = CR3 s \<or> u = c \<Longrightarrow> translate s2 u va = map_option cow_entry (translate s (CR3 s) va)"
    "\<And>va. 510 \<le> getPML4Index va \<Longrightarrow> translate s2 (CR3 s) va = translate s (CR3 s) va"
    "fl2 = drop (\<Sum>i<510. tables_needed 3 s (CR3 s) (of_nat i)) fl"
    "\<And>va e. getPML4Index va < 510 \<Longrightarrow> walk s2 c (upath va) = Some e \<Longrightarrow> own (get_address e) = None"
    "\<And>va. getPML4Index va < 510 \<Longrightarrow> walk s2 (CR3 s) (upath va) = walk s (CR3 s) (upath va)"
proof -
  let ?P = "CR3 s"
  define c where "c = page_addr (pages s x)"
  define s1 where "s1 = s\<lparr>free_list := nxt (pages s x)\<rparr>"
  define own1 where "own1 = own(c \<mapsto> [])"
  have ok: "free_ok own (x # fl) s" using assms(1) by (simp add: vm_wf_def)
  note fc = free_okD [OF ok, of x, simplified, folded c_def]
  have al: "page_alloc_addr s = Some (c, s1)" using page_alloc_addr_head [OF assms(1)] by (simp add: c_def s1_def)
  have wf1: "vm_wf own1 fl s1" unfolding own1_def s1_def by (rule vm_wf_claim [OF assms(1) _ c_def]) simp
  have le1: "own \<subseteq>\<^sub>m own1" unfolding own1_def by (rule map_le_fresh) (rule fc(3))
  have o1: "own1 c = Some []" "own1 ?P = Some []" "c \<noteq> ?P"
    using map_le_Some [OF le1 assms(2)] fc(3) assms(2) by (auto simp: own1_def)
  have w1: "walk s1 u ks = walk s u ks" for u ks by (simp add: s1_def)
  have tn: "tables_needed 3 s1 t i = tables_needed 3 s t i" for t i by (rule tables_needed_cong) (rule w1)
  have need: "(\<Sum>j<510. tables_needed (3 - 0) s1 ?P (of_nat j)) \<le> length fl"
    using assms(3) by (simp only: diff_zero tn)
  have np: "\<not> present (pt_entry s1 c (of_nat j))" if "j < 510" for j
    using fc(4) [of "of_nat j"] of_nat_512 [of j] that by (simp add: s1_def)
  have le510: "510 \<le> (512 :: nat)" by simp
  obtain s2 own2 fl2 where 2: "for_each (copy_pml4_entry c ?P) [0..<510] s1 = Some s2" "vm_wf own2 fl2 s2" "own1 \<subseteq>\<^sub>m own2"
    "same_but_mem s1 s2" "keeps_off own1 (below [] 510) s1 s2"
    "\<And>j. j < 510 \<Longrightarrow> cow_slot own1 3 s1 s2 c ?P (of_nat j)"
    "fl2 = drop (\<Sum>j<510. tables_needed 3 s ?P (of_nat j)) fl"
    using copy_loop_cow [OF copy_pml4_entry_cow zero_le wf1 o1 list.size(3) le510 need np] unfolding diff_zero tn
    by blast
  have slot: "cow_slot own 3 s s2 c ?P (getPML4Index va)" if "getPML4Index va < 510" for va
  proof -
    have j: "unat (getPML4Index va) < 510" "of_nat (unat (getPML4Index va)) = getPML4Index va"
      using that by (simp_all add: word_less_nat_alt)
    show ?thesis using cow_slot_weaken [OF 2(6) [OF j(1)] le1] w1 by (simp add: j(2))
  qed
  have low: "translate s2 u va = map_option cow_entry (translate s ?P va)" if "getPML4Index va < 510" "u = ?P \<or> u = c" for u va
    using cow_slotD(1,2) [OF slot [OF that(1)], of "tl (vpath va)"] that(2) by (auto simp: translate_def vpath_def simp del: walk.simps)
  have fresh: "own (get_address e) = None" if "getPML4Index va < 510" "walk s2 c (upath va) = Some e" for va e
    using cow_slotD(3) [OF slot [OF that(1)], of "tl (upath va)"] that(2) by (auto simp: upath_def simp del: walk.simps)
  have tabs: "walk s2 ?P (upath va) = walk s ?P (upath va)" if "getPML4Index va < 510" for va
    using cow_slotD(4) [OF slot [OF that], of "tl (upath va)"] by (simp add: upath_def del: walk.simps)
  have high: "translate s2 ?P va = translate s ?P va" if "510 \<le> getPML4Index va" for va
    using keeps_offD [OF 2(5) o1(2), of "vpath va"] not_below_high [OF that] vpath_less w1 by (auto simp: translate_def)
  have "own \<subseteq>\<^sub>m own2" using le1 2(3) by (rule map_le_trans)
  moreover have "same_but_mem s s2" "CR3 s1 = ?P" using 2(4) by (simp_all add: same_but_mem_def s1_def)
  ultimately show thesis using that [OF al _ 2(1,2) _ map_le_Some [OF 2(3) o1(1)] o1(3)] low high fresh tabs 2(7) by blast
qed

lemma high_slots:
  assumes "510 \<le> getPML4Index va"
  shows "getPML4Index va = 510 \<or> getPML4Index va = 511"
proof -
  have "510 \<le> unat (getPML4Index va)" "unat (getPML4Index va) < 512"
    using assms index_less(1) [of va] by (simp_all add: word_le_nat_alt word_less_nat_alt)
  then have "unat (getPML4Index va) = 510 \<or> unat (getPML4Index va) = 511" by linarith
  then show ?thesis by (simp add: word_unat_eq_iff)
qed

lemma fork_copy_spec:
  fixes s :: "'a vm_scheme"
  assumes "vm_wf own (x # fl) s" "own (CR3 s) = Some []"
    and "(\<Sum>i<510. tables_needed 3 s (CR3 s) (of_nat i)) \<le> length fl"
  obtains c s1 s' own' fl' where "page_alloc_addr s = Some (c, s1)" "copy_page_tables_forchild s1 c = Some s'" "c \<noteq> CR3 s"
    "same_but_mem s s'" "vm_wf own' fl' s'" "own \<subseteq>\<^sub>m own'" "own' c = Some []"
    "fl' = drop (\<Sum>i<510. tables_needed 3 s (CR3 s) (of_nat i)) fl"
    "\<And>va u. getPML4Index va < 510 \<Longrightarrow> u = CR3 s \<or> u = c \<Longrightarrow> translate s' u va = map_option cow_entry (translate s (CR3 s) va)"
    "\<And>va u. 510 \<le> getPML4Index va \<Longrightarrow> u = CR3 s \<or> u = c \<Longrightarrow> translate s' u va = translate s (CR3 s) va"
    "\<And>va e. getPML4Index va < 510 \<Longrightarrow> walk s' c (upath va) = Some e \<Longrightarrow> own (get_address e) = None"
    "\<And>va. getPML4Index va < 510 \<Longrightarrow> walk s' (CR3 s) (upath va) = walk s (CR3 s) (upath va)"
proof -
  let ?P = "CR3 s"
  obtain c s1 s2 own2 fl2 where 2: "page_alloc_addr s = Some (c, s1)" "CR3 s1 = ?P"
    "for_each (copy_pml4_entry c ?P) [0..<510] s1 = Some s2" "vm_wf own2 fl2 s2" "own \<subseteq>\<^sub>m own2"
    "own2 c = Some []" "c \<noteq> ?P" "same_but_mem s s2"
    "\<And>va u. getPML4Index va < 510 \<Longrightarrow> u = ?P \<or> u = c \<Longrightarrow> translate s2 u va = map_option cow_entry (translate s ?P va)"
    "\<And>va. 510 \<le> getPML4Index va \<Longrightarrow> translate s2 ?P va = translate s ?P va"
    "fl2 = drop (\<Sum>i<510. tables_needed 3 s ?P (of_nat i)) fl"
    "\<And>va e. getPML4Index va < 510 \<Longrightarrow> walk s2 c (upath va) = Some e \<Longrightarrow> own (get_address e) = None"
    "\<And>va. getPML4Index va < 510 \<Longrightarrow> walk s2 (CR3 s) (upath va) = walk s (CR3 s) (upath va)"
    by (rule copy_low_slots [OF assms]) blast
  note o2 = 2(6) map_le_Some [OF 2(5) assms(2)]
  obtain s3 where 3: "pt_get s2 ?P 511 = Some (pt_entry s2 ?P 511)" "pt_set s2 c 511 (pt_entry s2 ?P 511) = Some s3" "vm_wf own2 fl2 s3"
    "same_but_mem s2 s3" "\<And>va. translate s3 ?P va = translate s2 ?P va"
    "\<And>va. translate s3 c va = (if getPML4Index va = 511 then translate s2 ?P va else translate s2 c va)"
    "\<And>va u. u = c \<or> u = ?P \<Longrightarrow> getPML4Index va \<noteq> 511 \<Longrightarrow> walk s3 u (upath va) = walk s2 u (upath va)"
    by (rule take_slot [OF 2(4) o2 2(7), of 511]) auto
  obtain s4 where 4: "pt_get s3 ?P 510 = Some (pt_entry s3 ?P 510)" "pt_set s3 c 510 (pt_entry s3 ?P 510) = Some s4" "vm_wf own2 fl2 s4"
    "same_but_mem s3 s4" "\<And>va. translate s4 ?P va = translate s3 ?P va"
    "\<And>va. translate s4 c va = (if getPML4Index va = 510 then translate s3 ?P va else translate s3 c va)"
    "\<And>va u. u = c \<or> u = ?P \<Longrightarrow> getPML4Index va \<noteq> 510 \<Longrightarrow> walk s4 u (upath va) = walk s3 u (upath va)"
    by (rule take_slot [OF 3(3) o2 2(7), of 510]) auto
  have run: "copy_page_tables_forchild s1 c = Some s4"
    using 2(2,3) 3(1,2) 4(1,2) by (simp add: copy_page_tables_forchild_def get_CR3_def del: upt_Suc upt_rec_numeral)
  have "same_but_mem s s4" using 2(8) 3(4) 4(4) by (auto intro: same_but_mem_trans)
  moreover have "translate s4 u va = map_option cow_entry (translate s ?P va)" if "getPML4Index va < 510" "u = ?P \<or> u = c" for va u
    using that 2(9) [OF that(1)] 3(5,6) 4(5,6) by auto
  moreover have "translate s4 u va = translate s ?P va" if "510 \<le> getPML4Index va" "u = ?P \<or> u = c" for va u
    using that(2) high_slots [OF that(1)] 2(10) [OF that(1)] 3(5,6) 4(5,6) by auto
  moreover have "own (get_address e) = None" if "getPML4Index va < 510" "walk s4 c (upath va) = Some e" for va e
  proof -
    have "getPML4Index va \<noteq> 510" "getPML4Index va \<noteq> 511" using that(1) by auto
    then show ?thesis using 2(12) [OF that(1)] that(2) 3(7) 4(7) by simp
  qed
  moreover have "walk s4 ?P (upath va) = walk s ?P (upath va)" if "getPML4Index va < 510" for va
  proof -
    have "getPML4Index va \<noteq> 510" "getPML4Index va \<noteq> 511" using that by auto
    then show ?thesis using 2(13) [OF that] 3(7) 4(7) by simp
  qed
  ultimately show thesis using that [OF 2(1) run 2(7) _ 4(3) 2(5,6,11)] by blast
qed

text \<open>C4. The address space of a forked child: when as many pages are free as the parent has tables below
  its root, \<open>copy_page_tables_forchild\<close> ends and takes just these pages. Then every address that the parent had mapped below
  the last two slots of its root leads to the same frame from the parent and from the child, for both
  present, for the user, read-only and marked for copy on write; an address that was not mapped still is
  not, for either; and the last two slots are shared with the parent as they were.\<close>

theorem fork_shares_pages:
  fixes s :: "'a vm_scheme"
  assumes "vm_wf own (x # fl) s" "own (CR3 s) = Some []"
    and "(\<Sum>i<510. tables_needed 3 s (CR3 s) (of_nat i)) \<le> length fl"
  shows "\<exists>c s1 s'. page_alloc_addr s = Some (c, s1) \<and> copy_page_tables_forchild s1 c = Some s' \<and> c \<noteq> CR3 s \<and> CR3 s' = CR3 s \<and>
    (\<exists>own'. vm_wf own' (drop (\<Sum>i<510. tables_needed 3 s (CR3 s) (of_nat i)) fl) s' \<and> own \<subseteq>\<^sub>m own' \<and> own' c = Some []) \<and>
    (\<forall>va. getPML4Index va < 510 \<longrightarrow>
       translate s' (CR3 s) va = map_option cow_entry (translate s (CR3 s) va) \<and>
       translate s' c va = map_option cow_entry (translate s (CR3 s) va)) \<and>
    (\<forall>va. 510 \<le> getPML4Index va \<longrightarrow>
       translate s' (CR3 s) va = translate s (CR3 s) va \<and> translate s' c va = translate s (CR3 s) va)"
proof -
  obtain c s1 s' own' fl' where f: "page_alloc_addr s = Some (c, s1)" "copy_page_tables_forchild s1 c = Some s'" "c \<noteq> CR3 s"
    "same_but_mem s s'" "vm_wf own' fl' s'" "own \<subseteq>\<^sub>m own'" "own' c = Some []"
    "fl' = drop (\<Sum>i<510. tables_needed 3 s (CR3 s) (of_nat i)) fl"
    "\<And>va u. getPML4Index va < 510 \<Longrightarrow> u = CR3 s \<or> u = c \<Longrightarrow> translate s' u va = map_option cow_entry (translate s (CR3 s) va)"
    "\<And>va u. 510 \<le> getPML4Index va \<Longrightarrow> u = CR3 s \<or> u = c \<Longrightarrow> translate s' u va = translate s (CR3 s) va"
    by (rule fork_copy_spec [OF assms]) blast
  then have "CR3 s' = CR3 s" by (simp add: same_but_mem_def)
  with f show ?thesis by (intro exI [of _ c] exI [of _ s1] exI [of _ s'] conjI allI impI) blast+
qed

subsection \<open>Witnesses\<close>

lemma demo_cow_entry:
  assumes "aligned t" "i < 512"
  shows "pt_entry demo_cow t i =
    (if t = 0x4000 \<and> i = 7 then 0x7003 else if t = 0x4000 \<and> i = 16 then 0x5105 else if t = 0x3000 \<and> i = 0 then 0x4007
     else if t = 0x2000 \<and> i = 0 then 0x3007 else if t = 0x1000 \<and> i = 0 then 0x2007 else 0)"
proof -
  let ?z = "demo_proc\<lparr>mem := \<lambda>_. 0\<rparr>"
  let ?s = "pt_write (pt_write (pt_write (pt_write (pt_write ?z 0x1000 0 0x2007) 0x2000 0 0x3007) 0x3000 0 0x4007) 0x4000 16 0x5105) 0x4000 7 0x7003"
  have "pt_entry demo_cow t i = pt_entry ?s t i" by (simp add: pt_entry_def pt_write_def demo_cow_def)
  moreover have "pt_entry ?z t i = 0" by (simp add: pt_entry_def)
  moreover have "aligned 0x1000" "aligned 0x2000" "aligned 0x3000" "aligned 0x4000" by (simp_all add: aligned_def)
  ultimately show ?thesis using assms by (simp add: pt_entry_update)
qed

lemma sum_first: "0 < (N :: nat) \<Longrightarrow> (\<And>j. j < N \<Longrightarrow> f j = (if j = 0 then n else 0)) \<Longrightarrow> (\<Sum>j<N. f j) = (n :: nat)"
proof -
  assume N: "0 < N" and f: "\<And>j. j < N \<Longrightarrow> f j = (if j = 0 then n else 0)"
  have "(\<Sum>j<N. f j) = (\<Sum>j<N. if j = 0 then n else 0)" by (rule sum.cong) (use f in auto)
  also have "\<dots> = n" using sum.delta [of "{..<N}" 0 "\<lambda>_. n"] N by simp
  finally show ?thesis .
qed

lemma tables_needed_first:
  assumes "pt_entry s t (of_nat i) = (if i = 0 then e else 0)" "present e" "get_address e = u"
    and "\<And>j. j < 512 \<Longrightarrow> tables_needed k s u (of_nat j) = (if j = 0 then n else 0)"
  shows "tables_needed (Suc k) s t (of_nat i) = (if i = 0 then Suc n else 0)"
proof -
  have "(\<Sum>j<512. tables_needed k s u (of_nat j)) = n" by (rule sum_first) (use assms(4) in auto)
  moreover have "\<not> present 0" by (simp add: present_def)
  ultimately show ?thesis using assms(1-3) by (cases "i = 0") simp_all
qed

lemma demo_cow_needed: "(\<Sum>i<510. tables_needed 3 demo_cow 0x1000 (of_nat i)) = 3"
proof -
  have a: "aligned 0x1000" "aligned 0x2000" "aligned 0x3000" by (simp_all add: aligned_def)
  have z: "(of_nat j :: u64) = 0 \<longleftrightarrow> j = 0" if "j < 512" for j using of_nat_512_inj [of j 0] that by simp
  have e: "pt_entry demo_cow 0x1000 (of_nat j) = (if j = 0 then 0x2007 else 0)" "pt_entry demo_cow 0x2000 (of_nat j) = (if j = 0 then 0x3007 else 0)"
    "pt_entry demo_cow 0x3000 (of_nat j) = (if j = 0 then 0x4007 else 0)" if "j < 512" for j
    using that of_nat_512 [of j] by (simp_all add: demo_cow_entry a z)
  have p: "present 0x2007" "present 0x3007" "present 0x4007" "get_address 0x2007 = 0x2000" "get_address 0x3007 = 0x3000" "get_address 0x4007 = 0x4000"
    by (simp_all add: present_def get_address_def)
  have 1: "tables_needed (Suc 0) demo_cow 0x3000 (of_nat j) = (if j = 0 then Suc 0 else 0)" if "j < 512" for j
    by (rule tables_needed_first [OF e(3) [OF that] p(3,6)]) simp
  have 2: "tables_needed (Suc (Suc 0)) demo_cow 0x2000 (of_nat j) = (if j = 0 then Suc (Suc 0) else 0)" if "j < 512" for j
    by (rule tables_needed_first [OF e(2) [OF that] p(2,5) 1])
  have 3: "tables_needed 3 demo_cow 0x1000 (of_nat j) = (if j = 0 then 3 else 0)" if "j < 512" for j
    using tables_needed_first [OF e(1) [OF that] p(1,4) 2] by (simp add: numeral_3_eq_3 del: tables_needed.simps)
  show ?thesis by (rule sum_first) (use 3 in auto)
qed

theorem fork_shares_pages_witness:
  "\<exists>c s1 s'. page_alloc_addr demo_cow = Some (c, s1) \<and> copy_page_tables_forchild s1 c = Some s' \<and>
     translate s' c 0x10234 = Some 0x5105 \<and> translate s' 0x1000 0x7000 = Some 0x7105 \<and> translate s' c 0x9000 = None"
proof -
  have c: "CR3 demo_cow = 0x1000" by (simp add: demo_cow_def)
  have o: "demo_cow_own (CR3 demo_cow) = Some []" by (simp add: c demo_cow_own_def)
  have n: "(\<Sum>i<510. tables_needed 3 demo_cow (CR3 demo_cow) (of_nat i)) \<le> length [8..<16]"
    unfolding c demo_cow_needed by simp
  have t: "translate demo_cow 0x1000 0x10234 = Some 0x5105" "translate demo_cow 0x1000 0x7000 = Some 0x7003" "translate demo_cow 0x1000 0x9000 = None"
    by (simp_all add: translate_def vpath_def getPML4Index_def getPDPTIndex_def getPDTIndex_def getPTIndex_def
        pt_entry_def present_def get_address_def demo_cow_def)
  have i: "getPML4Index 0x10234 < 510" "getPML4Index 0x7000 < 510" "getPML4Index 0x9000 < 510" by (simp_all add: getPML4Index_def)
  obtain d s1 s' where s': "page_alloc_addr demo_cow = Some (d, s1)" "copy_page_tables_forchild s1 d = Some s'"
    "\<forall>va. getPML4Index va < 510 \<longrightarrow>
       translate s' 0x1000 va = map_option cow_entry (translate demo_cow 0x1000 va) \<and>
       translate s' d va = map_option cow_entry (translate demo_cow 0x1000 va)"
    using fork_shares_pages [OF demo_cow_wf o n] unfolding c by blast
  from s'(3) [rule_format, OF i(1)] s'(3) [rule_format, OF i(2)] s'(3) [rule_format, OF i(3)] s'(1,2) show ?thesis
    unfolding t by (intro exI [of _ d] exI [of _ s1] exI [of _ s']) (simp add: cow_entry_def get_address_def)
qed

end
