(* ===== verification/ForkIsolation.thy ===== *)
theory ForkIsolation
  imports ForkCopy
begin

unbundle bit_operations_syntax

text \<open>
  Parent and child after \<open>fork\<close>: their tables share frames (\<open>ForkCopy\<close>), and the page fault handler gives
  a page that one of them writes to a frame of its own (\<open>PageFault\<close>). Together: neither sees what the
  other writes.
\<close>

lemma page_offset: "unat (a AND 0xFFF :: u64) < 4096" "of_nat (unat (a AND 0xFFF :: u64)) = a AND 0xFFF"
  by (auto simp: unat_and_page_mask word_unat_eq_iff unsigned_of_nat take_bit_nat_eq_self)

lemma byte_of_other_frame:
  assumes "aligned f" "aligned g" "f \<noteq> g"
  shows "g + (a AND 0xFFF) \<notin> frame_bytes f"
proof
  assume "g + (a AND 0xFFF) \<in> frame_bytes f"
  then obtain k where k: "k < 4096" "g + (a AND 0xFFF) = f + of_nat k" by (auto simp: frame_bytes_def)
  then show False
    using frame_byte_inj [OF assms(2,1) page_offset(1) k(1), of a] assms(3) unfolding page_offset(2) by simp
qed

lemma offset_in_frame: "f + (a AND 0xFFF) \<in> frame_bytes f"
  unfolding frame_bytes_def by (rule image_eqI [of _ _ "unat (a AND 0xFFF)"]) (simp_all only: page_offset lessThan_iff)

lemma vload_in: "translate s r a = Some e \<Longrightarrow> vload a (set_CR3 s r) = Some (umem s (get_address e + (a AND 0xFFF)))"
  using translate_mem_cong [of "set_CR3 s r" s r a] by (simp add: vload_def set_CR3_def)

lemma translate_vpath: "vpath a = vpath b \<Longrightarrow> translate s r a = translate s r b"
  by (simp add: translate_def)

text \<open>A write by \<open>w\<close> through the page fault handler, seen from \<open>w\<close> and from another address space \<open>r\<close> that has a
  page table of its own for the address.\<close>

lemma cow_write:
  fixes s :: "'a proc_state_scheme"
  assumes "vm_wf own (x # fl) s" "own w = Some []" "own r = Some []" "3 \<le> length fl"
    and "translate s w va = Some e" "e AND PTE_COW \<noteq> 0" "own (get_address e) \<noteq> None"
    and "f = page_addr (pages s x)" "translate s w f = Some ef" "get_address ef = f"
    and "walk s w (upath va) = Some u" "walk s r (upath va) = Some u'" "get_address u' \<noteq> get_address u"
  obtains s3 s4 where "pg_fault_handler va (set_CR3 s w) = Some s3" "vstore va b s3 = Some s4" "vload va s4 = Some b"
    "\<And>a e'. translate s r a = Some e' \<Longrightarrow> own (get_address e') \<noteq> None \<Longrightarrow> vload a (set_CR3 s4 r) = vload a (set_CR3 s r)"
    "\<And>a e'. translate s w a = Some e' \<Longrightarrow> own (get_address e') \<noteq> None \<Longrightarrow> (vpath a, a AND 0xFFF) \<noteq> (vpath va, va AND 0xFFF) \<Longrightarrow>
      vload a s4 = vload a (set_CR3 s w)"
proof -
  define s0 where "s0 = set_CR3 s w"
  have t0: "translate s0 t a = translate s t a" "walk s0 t is = walk s t is" for t a "is"
    by (rule translate_mem_cong walk_mem_cong, simp add: s0_def set_CR3_def)+
  have wf: "vm_wf own (x # fl) s0 = vm_wf own (x # fl) s" by (rule vm_wf_cong) (simp_all add: s0_def set_CR3_def)
  have sel: "CR3 s0 = w" "pages s0 = pages s" "umem s0 = umem s" by (simp_all add: s0_def set_CR3_def)
  have fr: "aligned f" "own f = None"
    using assms(1,8) by (auto simp: vm_wf_def dest: free_okD [where x = x])
  obtain s3 where 3: "pg_fault_handler va s0 = Some s3" "CR3 s3 = w" "translate s3 w va = Some (ef OR 7)" "get_address e \<noteq> f"
    "\<And>k. k < 4096 \<Longrightarrow> umem s3 (f + of_nat k) = umem s (get_address e + of_nat k)"
    "\<And>p. p \<notin> frame_bytes f \<Longrightarrow> umem s3 p = umem s p"
    "\<And>t a. own t = Some [] \<Longrightarrow> vpath a \<noteq> vpath va \<Longrightarrow> translate s3 t a = translate s t a"
    "translate s3 r va = translate s r va"
    by (rule cow_fault_copy [of own x fl s0 va e f ef]) (use assms in \<open>auto simp: wf sel t0\<close>)
  define s4 where "s4 = s3\<lparr>umem := (umem s3)(f + (va AND 0xFFF) := b)\<rparr>"
  have st: "vstore va b s3 = Some s4" using 3(2,3) assms(10) by (simp add: vstore_def s4_def)
  have t4: "translate s4 t a = translate s3 t a" "translate (set_CR3 s4 t') t a = translate s3 t a" for t a t'
    by (rule translate_mem_cong, simp add: s4_def set_CR3_def)+
  have tr: "translate s3 r a = translate s r a" for a
  proof (cases "vpath a = vpath va")
    case True
    then show ?thesis using translate_vpath [OF True, of s3 r] translate_vpath [OF True, of s r] 3(8) by simp
  qed (rule 3(7) [OF assms(3)])
  have byte: "umem s4 (g + (a AND 0xFFF)) = umem s (g + (a AND 0xFFF))" if "aligned g" "g \<noteq> f" for g a
  proof -
    have "g + (a AND 0xFFF) \<notin> frame_bytes f" using byte_of_other_frame [OF fr(1) that(1)] that(2) by simp
    then show ?thesis using 3(6) [of "g + (a AND 0xFFF)"] offset_in_frame [of f va] by (auto simp: s4_def)
  qed
  have c4: "set_CR3 s4 w = s4" using 3(2) by (simp add: s4_def set_CR3_def)
  have other: "vload a (set_CR3 s4 r) = vload a (set_CR3 s r)" if "translate s r a = Some e'" "own (get_address e') \<noteq> None" for a e'
  proof -
    have "translate s4 r a = Some e'" "get_address e' \<noteq> f" using that tr t4 fr(2) by auto
    then show ?thesis using vload_in [OF that(1)] vload_in [of s4 r a] byte by simp
  qed
  have own: "vload a s4 = vload a (set_CR3 s w)"
    if "translate s w a = Some e'" "own (get_address e') \<noteq> None" "(vpath a, a AND 0xFFF) \<noteq> (vpath va, va AND 0xFFF)" for a e'
  proof (cases "vpath a = vpath va")
    case True
    have "umem s4 (f + (a AND 0xFFF)) = umem s (get_address e + (a AND 0xFFF))"
      using 3(5) [OF page_offset(1), of a] that(3) True unfolding page_offset(2) by (simp add: s4_def)
    moreover have "translate s w a = Some e" "translate s4 w a = Some (ef OR 7)"
      using translate_vpath [OF True, of s w] translate_vpath [OF True, of s3 w] assms(5) 3(3) t4 by simp_all
    ultimately show ?thesis using vload_in [of s w a] vload_in [of s4 w a] assms(10) by (simp add: c4)
  next
    case False
    then have "translate s4 w a = Some e'" "get_address e' \<noteq> f" using that(1,2) 3(7) [OF assms(2)] t4 fr(2) by auto
    then show ?thesis using vload_in [OF that(1)] vload_in [of s4 w a] byte by (simp add: c4)
  qed
  have "vload va s4 = Some b" using 3(2,3) assms(10) t4 by (simp add: vload_def s4_def)
  then show thesis using that [of s3 s4] 3(1) st other own unfolding s0_def by blast
qed

lemma cow_entry_marked: "cow_entry e AND PTE_COW \<noteq> 0"
proof -
  have "bit (cow_entry e AND PTE_COW) 8" by (simp add: cow_entry_def bit_and_iff bit_or_iff)
  then show ?thesis by auto
qed

lemma translate_upath: "translate s r va = Some e \<Longrightarrow> \<exists>u. walk s r (upath va) = Some u"
  unfolding translate_def vpath_upath by (cases "walk s r (upath va)") (simp_all add: walk_snoc)

text \<open>The two address spaces that \<open>fork\<close> leaves, alike for parent and child: at each address the same frame, for \<open>va\<close>
  a page table each.\<close>

lemma fork_pair:
  fixes s :: "'a proc_state_scheme"
  assumes "vm_wf own (x # fl) s" "own (CR3 s) = Some []"
    and "n = (\<Sum>i<510. tables_needed 3 s (CR3 s) (of_nat i))" "n < length fl"
    and "translate s (CR3 s) va = Some e" "getPML4Index va < 510"
  obtains c s1 s2 own' u u' where "page_alloc_addr s = Some (c, s1)" "copy_page_tables_forchild s1 c = Some s2"
    "pages s2 = pages s" "umem s2 = umem s" "vm_wf own' (fl ! n # drop (Suc n) fl) s2" "own' (CR3 s) = Some []" "own' c = Some []"
    "\<And>e'. own (get_address e') \<noteq> None \<Longrightarrow> own' (get_address e') \<noteq> None"
    "\<And>t a e'. t = CR3 s \<or> t = c \<Longrightarrow> translate s (CR3 s) a = Some e' \<Longrightarrow>
      \<exists>e2. translate s2 t a = Some e2 \<and> get_address e2 = get_address e'"
    "\<And>t. t = CR3 s \<or> t = c \<Longrightarrow> translate s2 t va = Some (cow_entry e)"
    "walk s2 (CR3 s) (upath va) = Some u" "walk s2 c (upath va) = Some u'" "get_address u \<noteq> get_address u'"
proof -
  let ?P = "CR3 s"
  obtain c s1 s2 own' fl' where 2: "page_alloc_addr s = Some (c, s1)" "copy_page_tables_forchild s1 c = Some s2"
    "same_but_mem s s2" "vm_wf own' fl' s2" "own \<subseteq>\<^sub>m own'" "own' c = Some []" "fl' = drop n fl"
    "\<And>a u. getPML4Index a < 510 \<Longrightarrow> u = ?P \<or> u = c \<Longrightarrow> translate s2 u a = map_option cow_entry (translate s ?P a)"
    "\<And>a u. 510 \<le> getPML4Index a \<Longrightarrow> u = ?P \<or> u = c \<Longrightarrow> translate s2 u a = translate s ?P a"
    "\<And>e. walk s2 c (upath va) = Some e \<Longrightarrow> own (get_address e) = None" "walk s2 ?P (upath va) = walk s ?P (upath va)"
    by (rule fork_copy_spec [OF assms(1,2)]) (use assms(3,4,6) in auto)
  have sel: "pages s2 = pages s" "umem s2 = umem s"
    using 2(3) by (cases s; cases s2; simp add: same_but_mem_def)+
  have fl': "fl' = fl ! n # drop (Suc n) fl" using assms(4) unfolding 2(7) by (simp add: Cons_nth_drop_Suc)
  have P: "own' ?P = Some []" by (rule map_le_Some [OF 2(5) assms(2)])
  have fr: "own' (get_address e') \<noteq> None" if "own (get_address e') \<noteq> None" for e'
    using that map_le_Some [OF 2(5)] by fastforce
  have tr: "\<exists>e2. translate s2 u a = Some e2 \<and> get_address e2 = get_address e'" if "u = ?P \<or> u = c" "translate s ?P a = Some e'" for u a e'
    using 2(8,9) [OF _ that(1), of a] that(2) by (cases "getPML4Index a < 510") auto
  have va: "translate s2 u va = Some (cow_entry e)" if "u = ?P \<or> u = c" for u
    using 2(8) [OF assms(6) that] assms(5) by simp
  obtain u u' where up: "walk s2 ?P (upath va) = Some u" "walk s2 c (upath va) = Some u'"
    using translate_upath [OF va, of ?P] translate_upath [OF va, of c] by blast
  have "own (get_address u) = Some (upath va)"
  proof -
    have "tables_ok own s" using assms(1) by (simp add: vm_wf_def)
    from walk_own [OF this assms(2), of "upath va" u] up(1) 2(11) show ?thesis by (simp add: upath_def)
  qed
  then have ne: "get_address u \<noteq> get_address u'" using 2(10) [OF up(2)] by auto
  show thesis using that [OF 2(1,2) sel 2(4)[unfolded fl'] P 2(6) fr tr va up ne] by blast
qed

text \<open>C1. Isolation after \<open>fork\<close>: when enough pages are free, the copy of the tables ends, and then parent and child
  can each write to an address \<open>va\<close> that the parent had mapped. Whichever of them writes, \<open>w\<close>, its fault is handled, the write goes
  through and \<open>w\<close> reads it back; at every address with memory in use the other, \<open>r\<close>, reads what the parent read
  before the fork, \<open>va\<close> included, and so does \<open>w\<close> itself at every address but \<open>va\<close>.\<close>

theorem fork_isolates:
  fixes s :: "'a proc_state_scheme"
  assumes "vm_wf own (x # fl) s" "own (CR3 s) = Some []"
    and "n = (\<Sum>i<510. tables_needed 3 s (CR3 s) (of_nat i))" "n + 4 \<le> length fl"
    and "f = page_addr (pages s (fl ! n))" "translate s (CR3 s) f = Some ef" "get_address ef = f"
    and "translate s (CR3 s) va = Some e" "getPML4Index va < 510" "own (get_address e) \<noteq> None"
  shows "\<exists>c s1 s2. page_alloc_addr s = Some (c, s1) \<and> copy_page_tables_forchild s1 c = Some s2 \<and>
    (\<forall>(w, r) \<in> {(CR3 s, c), (c, CR3 s)}. \<forall>b. \<exists>s3 s4. pg_fault_handler va (set_CR3 s2 w) = Some s3 \<and>
       vstore va b s3 = Some s4 \<and> vload va s4 = Some b \<and>
       (\<forall>a e'. translate s (CR3 s) a = Some e' \<longrightarrow> own (get_address e') \<noteq> None \<longrightarrow>
          vload a (set_CR3 s4 r) = vload a s \<and>
          ((vpath a, a AND 0xFFF) \<noteq> (vpath va, va AND 0xFFF) \<longrightarrow> vload a s4 = vload a s)))"
proof -
  let ?P = "CR3 s"
  have n: "n < length fl" "3 \<le> length (drop (Suc n) fl)" using assms(4) by simp_all
  obtain c s1 s2 own' u u' where 2: "page_alloc_addr s = Some (c, s1)" "copy_page_tables_forchild s1 c = Some s2"
    "pages s2 = pages s" "umem s2 = umem s" "vm_wf own' (fl ! n # drop (Suc n) fl) s2" "own' ?P = Some []" "own' c = Some []"
    and fr: "\<And>e'. own (get_address e') \<noteq> None \<Longrightarrow> own' (get_address e') \<noteq> None"
    and tr: "\<And>t a e'. t = ?P \<or> t = c \<Longrightarrow> translate s ?P a = Some e' \<Longrightarrow> \<exists>e2. translate s2 t a = Some e2 \<and> get_address e2 = get_address e'"
    and va: "\<And>t. t = ?P \<or> t = c \<Longrightarrow> translate s2 t va = Some (cow_entry e)"
    and up: "walk s2 ?P (upath va) = Some u" "walk s2 c (upath va) = Some u'" "get_address u \<noteq> get_address u'"
    by (rule fork_pair [OF assms(1-3) n(1) assms(8,9)]) blast
  have both: "\<exists>s3 s4. pg_fault_handler va (set_CR3 s2 w) = Some s3 \<and> vstore va b s3 = Some s4 \<and> vload va s4 = Some b \<and>
       (\<forall>a e'. translate s ?P a = Some e' \<longrightarrow> own (get_address e') \<noteq> None \<longrightarrow>
          vload a (set_CR3 s4 r) = vload a s \<and>
          ((vpath a, a AND 0xFFF) \<noteq> (vpath va, va AND 0xFFF) \<longrightarrow> vload a s4 = vload a s))"
    if wr: "(w, r) = (?P, c) \<or> (w, r) = (c, ?P)" for w r b
  proof -
    obtain v v' where v: "walk s2 w (upath va) = Some v" "walk s2 r (upath va) = Some v'" "get_address v' \<noteq> get_address v"
      using wr up by auto
    obtain ef' where ef': "translate s2 w f = Some ef'" "get_address ef' = f"
      using tr [OF _ assms(6), of w] wr assms(7) by auto
    have o: "own' w = Some []" "own' r = Some []" using wr 2(6,7) by auto
    have seen: "vload a (set_CR3 s2 u) = vload a s" if h: "u = w \<or> u = r" "translate s ?P a = Some e'" for u a e'
    proof -
      obtain e2 where "translate s2 u a = Some e2" "get_address e2 = get_address e'" using tr [OF _ h(2), of u] h(1) wr by auto
      then show ?thesis using vload_in [of s2 u a] h(2) 2(4) by (simp add: vload_def)
    qed
    have vw: "translate s2 w va = Some (cow_entry e)" "own' (get_address (cow_entry e)) \<noteq> None" "f = page_addr (pages s2 (fl ! n))"
      using va wr fr [OF assms(10)] assms(5) 2(3) by auto
    obtain s3 s4 where 4: "pg_fault_handler va (set_CR3 s2 w) = Some s3" "vstore va b s3 = Some s4" "vload va s4 = Some b"
      "\<And>a e'. translate s2 r a = Some e' \<Longrightarrow> own' (get_address e') \<noteq> None \<Longrightarrow> vload a (set_CR3 s4 r) = vload a (set_CR3 s2 r)"
      "\<And>a e'. translate s2 w a = Some e' \<Longrightarrow> own' (get_address e') \<noteq> None \<Longrightarrow>
        (vpath a, a AND 0xFFF) \<noteq> (vpath va, va AND 0xFFF) \<Longrightarrow> vload a s4 = vload a (set_CR3 s2 w)"
      by (rule cow_write [OF 2(5) o n(2) vw(1) cow_entry_marked vw(2,3) ef' v, of b]) blast
    have "vload a (set_CR3 s4 r) = vload a s \<and> ((vpath a, a AND 0xFFF) \<noteq> (vpath va, va AND 0xFFF) \<longrightarrow> vload a s4 = vload a s)"
      if a: "translate s ?P a = Some e'" "own (get_address e') \<noteq> None" for a e'
    proof -
      obtain e2 e3 where "translate s2 w a = Some e2" "get_address e2 = get_address e'" "translate s2 r a = Some e3" "get_address e3 = get_address e'"
        using tr [OF _ a(1), of w] tr [OF _ a(1), of r] wr by auto
      then show ?thesis using 4(4) [of a e3] 4(5) [of a e2] fr [OF a(2)] seen [OF _ a(1)] by simp
    qed
    then show ?thesis using 4(1-3) by blast
  qed
  show ?thesis
    by (intro exI [of _ c] exI [of _ s1] exI [of _ s2] conjI 2(1,2)) (use both in auto)
qed

subsection \<open>Witness\<close>

text \<open>The address space of \<open>demo_cow\<close>, with page 11, which is free when the tables are copied, mapped at its address.\<close>

definition demo_fork :: proc_state where
  "demo_fork = pt_write demo_cow 0x4000 11 0xB003"

lemma demo_fork_wf: "vm_wf demo_cow_own (7 # [8..<16]) demo_fork"
  unfolding demo_fork_def by (rule vm_wf_write_leaf [OF demo_cow_wf, of _ "[0, 0, 0]"]) (simp_all add: demo_cow_own_def)

lemma demo_fork_needed: "3 = (\<Sum>i<510. tables_needed 3 demo_fork (CR3 demo_fork) (of_nat i))"
proof -
  have ok: "tables_ok demo_cow_own demo_cow" using demo_cow_wf by (simp add: vm_wf_def)
  have o: "demo_cow_own 0x4000 = Some [0, 0, 0]" "demo_cow_own 0x1000 = Some []" by (simp_all add: demo_cow_own_def)
  have "tables_needed 3 demo_fork 0x1000 (of_nat i) = tables_needed 3 demo_cow 0x1000 (of_nat i)" if "i < 510" for i
  proof (rule tables_needed_cong)
    fix ks :: "u64 list" assume ks: "length ks < 3" "set ks \<subseteq> {..<512}"
    have "length ([0, 0, 0] @ [11 :: u64]) > length ([] @ of_nat i # ks)" using ks(1) by simp
    then have "\<not> prefix ([0, 0, 0] @ [11]) ([] @ of_nat i # ks)" using prefix_length_le leD by blast
    then show "walk demo_fork 0x1000 (of_nat i # ks) = walk demo_cow 0x1000 (of_nat i # ks)"
      unfolding demo_fork_def
      by (intro walk_write_other [OF ok o(1) _ o(2)]) (use ks that of_nat_512 [of i] in auto)
  qed
  then have "(\<Sum>i<510. tables_needed 3 demo_fork 0x1000 (of_nat i)) = (\<Sum>i<510. tables_needed 3 demo_cow 0x1000 (of_nat i))"
    by (intro sum.cong) auto
  moreover have "CR3 demo_fork = 0x1000" by (simp add: demo_fork_def demo_cow_def)
  ultimately show ?thesis using demo_cow_needed by simp
qed

theorem fork_isolates_witness:
  "\<exists>c s1 s2 s3 s4. page_alloc_addr demo_fork = Some (c, s1) \<and> copy_page_tables_forchild s1 c = Some s2 \<and>
     pg_fault_handler 0x10234 (set_CR3 s2 c) = Some s3 \<and> vstore 0x10234 99 s3 = Some s4 \<and> vload 0x10234 s4 = Some 99 \<and>
     vload 0x10234 (set_CR3 s4 0x1000) = Some 0x34 \<and> vload 0x10041 s4 = Some 0x41"
proof -
  have sel: "CR3 demo_fork = 0x1000" "pages demo_fork = pages demo_proc" "umem demo_fork = (\<lambda>a. ucast a)"
    by (simp_all add: demo_fork_def demo_cow_def pt_write_def)
  have t: "translate demo_fork 0x1000 0x10234 = Some 0x5105" "translate demo_fork 0x1000 0x10041 = Some 0x5105"
    "translate demo_fork 0x1000 0xB000 = Some 0xB003"
    by (simp_all add: translate_def vpath_def getPML4Index_def getPDPTIndex_def getPDTIndex_def getPTIndex_def
        pt_entry_def present_def get_address_def demo_fork_def demo_cow_def pt_write_def)
  have o: "demo_cow_own (CR3 demo_fork) = Some []" "demo_cow_own (get_address 0x5105) \<noteq> None"
    by (simp_all add: sel demo_cow_own_def get_address_def)
  have f: "0xB000 = page_addr (pages demo_fork ([8..<16] ! 3))" by (simp add: sel demo_page)
  have l: "3 + 4 \<le> length [8..<16]" "getPML4Index 0x10234 < 510" "get_address 0xB003 = 0xB000"
    by (simp_all add: getPML4Index_def get_address_def)
  note t' = t [folded sel(1)]
  obtain c s1 s2 s3 s4 where s: "page_alloc_addr demo_fork = Some (c, s1)" "copy_page_tables_forchild s1 c = Some s2"
    "pg_fault_handler 0x10234 (set_CR3 s2 c) = Some s3" "vstore 0x10234 99 s3 = Some s4" "vload 0x10234 s4 = Some 99"
    "\<And>a e'. translate demo_fork (CR3 demo_fork) a = Some e' \<Longrightarrow> demo_cow_own (get_address e') \<noteq> None \<Longrightarrow>
       vload a (set_CR3 s4 (CR3 demo_fork)) = vload a demo_fork \<and>
       ((vpath a, a AND 0xFFF) \<noteq> (vpath 0x10234, 0x10234 AND 0xFFF) \<longrightarrow> vload a s4 = vload a demo_fork)"
    using fork_isolates [OF demo_fork_wf o(1) demo_fork_needed l(1) f t'(3) l(3) t'(1) l(2) o(2)] by blast
  have v: "vload 0x10234 demo_fork = Some 0x34" "vload 0x10041 demo_fork = Some 0x41"
    by (simp_all add: vload_def sel t get_address_def)
  have "(vpath 0x10041, 0x10041 AND 0xFFF) \<noteq> (vpath 0x10234, (0x10234 :: u64) AND 0xFFF)" by simp
  with s v show ?thesis using s(6) [OF t'(1) o(2)] s(6) [OF t'(2) o(2)] unfolding sel(1) by metis
qed

end
