(* ===== verification/Malloc.thy ===== *)
theory Malloc
  imports Libc
begin

unbundle bit_operations_syntax

text \<open>
  The heap of \<^verbatim>\<open>libc/malloc.c\<close>: a doubly linked list of block headers, allocated first fit. The headers are
  a heap of records indexed by address, null is 0, and a header at 0 is a fault. More memory comes
  from the parameter \<open>bk\<close>: in the program it is the system call 12, which the kernel
  does not implement (\<open>brk_unimplemented\<close>). What the allocator prints is recorded in \<open>mout\<close>.
\<close>

record meta_block =
  bsize :: u64
  bnext :: u64
  previous :: u64
  bstatus :: u32
  magic_code :: u32

abbreviation HEADER_SIZE :: u64 where "HEADER_SIZE \<equiv> 32"
abbreviation ALLOC :: u32 where "ALLOC \<equiv> 1"
abbreviation FREED :: u32 where "FREED \<equiv> 2"
abbreviation magic_alloc :: u32 where "magic_alloc \<equiv> 11"
abbreviation magic_freed :: u32 where "magic_freed \<equiv> 22"
abbreviation magic_reall :: u32 where "magic_reall \<equiv> 33"

datatype mevent = Double_free | Dangling u32 u64 u32

record 'b mheap =
  blocks :: "u64 \<Rightarrow> meta_block"
  head_node :: u64
  bstate :: 'b
  mout :: "mevent list"

definition brk :: "env \<Rightarrow> u32 \<Rightarrow> sysstate \<Rightarrow> (u64 \<times> sysstate) option" where
  "brk e no_of_pages s = syscall_1 e 12 (scast no_of_pages) s"

definition sbrk :: "(u32 \<Rightarrow> 'b \<Rightarrow> (u64 \<times> 'b) option) \<Rightarrow> u64 \<Rightarrow> 'b mheap \<Rightarrow> (u64 \<times> 'b mheap) option" where
  "sbrk bk inc h = do {
     let no_of_pages = (word_of_int (sint inc sdiv 4096 + 1) :: u32);
     (oldbrk, b) \<leftarrow> bk no_of_pages (bstate h);
     Some (oldbrk, h\<lparr>bstate := b\<rparr>) }"

text \<open>An assignment to a field of the header at \<open>p\<close>.\<close>

definition set_block :: "u64 \<Rightarrow> (meta_block \<Rightarrow> meta_block) \<Rightarrow> 'b mheap \<Rightarrow> 'b mheap option" where
  "set_block p f h = (if p = 0 then None else Some (h\<lparr>blocks := (blocks h)(p := f (blocks h p))\<rparr>))"

definition block_request ::
    "(u32 \<Rightarrow> 'b \<Rightarrow> (u64 \<times> 'b) option) \<Rightarrow> u64 \<Rightarrow> u64 \<Rightarrow> 'b mheap \<Rightarrow> (u64 \<times> 'b mheap) option" where
  "block_request bk lst sz h = do {
     (new_block, h) \<leftarrow> sbrk bk (HEADER_SIZE + sz) h;
     h \<leftarrow> (if lst \<noteq> 0 then do {
            h \<leftarrow> set_block lst (bnext_update (\<lambda>_. new_block)) h;
            set_block new_block (previous_update (\<lambda>_. lst)) h }
          else Some h);
     h \<leftarrow> set_block new_block (\<lambda>b. b\<lparr>bstatus := ALLOC, magic_code := magic_alloc, bsize := sz, bnext := 0\<rparr>) h;
     Some (new_block, h) }"

partial_function (option) find_freed_block :: "'b mheap \<Rightarrow> u64 \<Rightarrow> u64 \<Rightarrow> u64 \<Rightarrow> (u64 \<times> u64) option" where
  "find_freed_block h sz lst new =
     (if new \<noteq> 0 then
        if bstatus (blocks h new) = FREED \<and> bsize (blocks h new) \<ge> sz then Some (new, lst)
        else find_freed_block h sz new (bnext (blocks h new))
      else Some (new, lst))"

definition block_header :: "u64 \<Rightarrow> u64" where
  "block_header block_pointer = block_pointer - HEADER_SIZE"

definition malloc :: "(u32 \<Rightarrow> 'b \<Rightarrow> (u64 \<times> 'b) option) \<Rightarrow> u64 \<Rightarrow> 'b mheap \<Rightarrow> (u64 \<times> 'b mheap) option" where
  "malloc bk sz h =
     (if sz \<le> 0 then Some (0, h)
      else if head_node h = 0 then do {
        (block, h) \<leftarrow> block_request bk 0 sz h;
        if block = 0 then Some (0, h)
        else do {
          h \<leftarrow> set_block block (previous_update (\<lambda>_. 0)) (h\<lparr>head_node := block\<rparr>);
          Some (block + HEADER_SIZE, h) } }
      else do {
        (block, lst) \<leftarrow> find_freed_block h sz (head_node h) (head_node h);
        if block = 0 then do {
          (block, h) \<leftarrow> block_request bk lst sz h;
          if block = 0 then Some (0, h) else Some (block + HEADER_SIZE, h) }
        else do {
          h \<leftarrow> set_block block (\<lambda>b. b\<lparr>magic_code := magic_reall, bstatus := ALLOC\<rparr>) h;
          Some (block + HEADER_SIZE, h) } })"

definition free :: "u64 \<Rightarrow> 'b mheap \<Rightarrow> 'b mheap option" where
  "free data h =
     (if data = 0 then Some h
      else let new = block_header data in
        if new = 0 then None
        else if bstatus (blocks h new) = FREED then Some (h\<lparr>mout := mout h @ [Double_free]\<rparr>)
        else do {
          h \<leftarrow> set_block new (bstatus_update (\<lambda>_. FREED)) h;
          let b = blocks h new;
          if magic_code b = magic_alloc \<or> magic_code b = magic_reall
          then set_block new (magic_code_update (\<lambda>_. magic_freed)) h
          else Some (h\<lparr>mout := mout h @ [Dangling (magic_code b) (bsize b) (bstatus b)]\<rparr>) })"

subsection \<open>The kernel has no \<open>brk\<close>\<close>

lemma brk_unimplemented: "\<exists>s'. brk e n s = Some (- 1, s')"
proof -
  let ?c = "(cpu_state s)\<lparr>rax := 12, rbx := scast n\<rparr>"
  let ?s1 = "isr_syscall_entry (isr_addr e) 0x08 0 (s\<lparr>cpu_state := ?c\<rparr>)"
  have "syscall_caller e (rax ?c) (rdi ?c) (rsi ?c) (rdx ?c) ?s1 = Some (- 1, ?s1)"
    by (simp add: syscall_caller_def)
  then show ?thesis using syscall_with_returns [of e "\<lambda>c. c\<lparr>rax := 12, rbx := scast n\<rparr>" s "- 1" ?s1]
    by (auto simp: brk_def syscall_1_def)
qed

subsection \<open>First fit\<close>

text \<open>The abstract heap: the blocks in order, with address, size and whether they are in use.\<close>

type_synonym ablock = "u64 \<times> u64 \<times> bool"

definition fit :: "u64 \<Rightarrow> ablock \<Rightarrow> bool" where
  "fit n b \<longleftrightarrow> \<not> snd (snd b) \<and> n \<le> fst (snd b)"

fun take_fit :: "u64 \<Rightarrow> ablock list \<Rightarrow> (u64 \<times> ablock list) option" where
  "take_fit n [] = None"
| "take_fit n (b # bs) =
     (if fit n b then Some (fst b, (fst b, fst (snd b), True) # bs)
      else map_option (\<lambda>(a, bs). (a, b # bs)) (take_fit n bs))"

definition first_fit :: "u64 \<Rightarrow> u64 \<Rightarrow> ablock list \<Rightarrow> u64 \<times> ablock list" where
  "first_fit fresh n bs = (case take_fit n bs of Some r \<Rightarrow> r | None \<Rightarrow> (fresh, bs @ [(fresh, n, True)]))"

definition release :: "u64 \<Rightarrow> ablock list \<Rightarrow> ablock list" where
  "release a bs = map (\<lambda>b. if fst b = a then (fst b, fst (snd b), False) else b) bs"

definition ptr_of :: "u64 \<Rightarrow> u64 option" where
  "ptr_of p = (if p = 0 then None else Some p)"

definition block_rep :: "(u64 \<Rightarrow> meta_block) \<Rightarrow> ablock \<Rightarrow> bool" where
  "block_rep m b \<longleftrightarrow> fst b \<noteq> 0 \<and> bsize (m (fst b)) = fst (snd b) \<and>
     (if snd (snd b) then bstatus (m (fst b)) = ALLOC \<and> magic_code (m (fst b)) \<in> {magic_alloc, magic_reall}
      else bstatus (m (fst b)) = FREED)"

definition heap_rep :: "'b mheap \<Rightarrow> ablock list \<Rightarrow> bool" where
  "heap_rep h bs \<longleftrightarrow> chain (\<lambda>a. ptr_of (bnext (blocks h a))) (ptr_of (head_node h)) (map fst bs) \<and>
     (\<forall>b \<in> set bs. block_rep (blocks h) b)"

lemma ptr_of_simps [simp]: "ptr_of 0 = None" "p \<noteq> 0 \<Longrightarrow> ptr_of p = Some p" "ptr_of p = None \<longleftrightarrow> p = 0"
  by (simp_all add: ptr_of_def)

lemma take_fit_Some:
  "take_fit n bs = Some (a, bs') \<Longrightarrow>
    \<exists>xs sz ys. bs = xs @ (a, sz, False) # ys \<and> bs' = xs @ (a, sz, True) # ys \<and> n \<le> sz"
proof (induction bs arbitrary: bs')
  case (Cons b bs)
  show ?case
  proof (cases "fit n b")
    case True
    then show ?thesis using Cons.prems by (cases b) (auto simp: fit_def intro!: exI [of _ "[]"])
  next
    case False
    then obtain r where r: "take_fit n bs = Some (a, r)" "bs' = b # r" using Cons.prems by auto
    from Cons.IH [OF r(1)] obtain xs sz ys where
      "bs = xs @ (a, sz, False) # ys" "r = xs @ (a, sz, True) # ys" "n \<le> sz" by blast
    then show ?thesis using r(2) by (intro exI [of _ "b # xs"] exI [of _ sz] exI [of _ ys]) simp
  qed
qed simp

text \<open>The search of the code finds the block of the specification, or else the last block.\<close>

lemma find_freed_block_spec:
  assumes "chain (\<lambda>a. ptr_of (bnext (blocks h a))) (ptr_of new) (map fst bs)" "\<forall>b \<in> set bs. block_rep (blocks h) b"
  shows "\<exists>l. find_freed_block h n lst new = Some (case take_fit n bs of Some (a, _) \<Rightarrow> a | None \<Rightarrow> 0, l) \<and>
    (take_fit n bs = None \<longrightarrow> l = (if bs = [] then lst else fst (last bs)))"
  using assms
proof (induction bs arbitrary: lst new)
  case Nil
  then show ?case by (simp add: find_freed_block.simps)
next
  case (Cons b bs)
  have b: "fst b \<noteq> 0" "new = fst b" using Cons.prems by (auto simp: block_rep_def ptr_of_def split: if_splits)
  have f: "(bstatus (blocks h new) = FREED \<and> bsize (blocks h new) \<ge> n) = fit n b"
    using Cons.prems(2) b(2) by (auto simp: block_rep_def fit_def split: if_splits)
  have ih: "\<exists>l. find_freed_block h n new (bnext (blocks h new)) = Some (case take_fit n bs of Some (a, _) \<Rightarrow> a | None \<Rightarrow> 0, l) \<and>
    (take_fit n bs = None \<longrightarrow> l = (if bs = [] then new else fst (last bs)))"
    using Cons.prems b by (intro Cons.IH) auto
  show ?case
  proof (cases "fit n b")
    case True
    then show ?thesis using f b by (subst find_freed_block.simps) auto
  next
    case False
    then have "find_freed_block h n lst new = find_freed_block h n new (bnext (blocks h new))"
      using f b by (subst find_freed_block.simps) auto
    with ih False b show ?thesis by (auto split: option.splits)
  qed
qed

lemma set_block_chain:
  assumes "chain (\<lambda>a. ptr_of (bnext (blocks h a))) p xs" "\<And>b. bnext (f b) = bnext b" "set_block x f h = Some h'"
  shows "chain (\<lambda>a. ptr_of (bnext (blocks h' a))) p xs"
proof -
  have "(\<lambda>a. ptr_of (bnext (blocks h' a))) = (\<lambda>a. ptr_of (bnext (blocks h a)))"
    using assms(2,3) by (auto simp: set_block_def fun_eq_iff split: if_splits)
  with assms(1) show ?thesis by simp
qed

text \<open>Changing status and magic number of one block of the list.\<close>

lemma heap_rep_mark:
  assumes "heap_rep h (xs @ (a, sz, st) # ys)" "set_block a f h = Some h'"
    and "\<And>b. bnext (f b) = bnext b \<and> bsize (f b) = bsize b" "block_rep (blocks h') (a, sz, st')"
  shows "heap_rep h' (xs @ (a, sz, st') # ys)"
proof -
  have d: "distinct (map fst (xs @ (a, sz, st) # ys))" using assms(1) unfolding heap_rep_def by (blast dest: chain_distinct)
  have h': "blocks h' = (blocks h)(a := f (blocks h a))" "head_node h' = head_node h"
    using assms(2) by (auto simp: set_block_def split: if_splits)
  have "block_rep (blocks h') b" if "b \<in> set xs \<union> set ys" for b
  proof -
    have "fst b \<noteq> a" using that d by auto
    moreover have "block_rep (blocks h) b" using that assms(1) by (auto simp: heap_rep_def)
    ultimately show ?thesis by (auto simp: block_rep_def h' split: if_splits)
  qed
  moreover have "chain (\<lambda>a. ptr_of (bnext (blocks h' a))) (ptr_of (head_node h')) (map fst (xs @ (a, sz, st') # ys))"
    using set_block_chain [OF _ _ assms(2)] assms(1,3) h'(2) by (simp add: heap_rep_def)
  ultimately show ?thesis using assms(4) by (auto simp: heap_rep_def)
qed

text \<open>A fresh block behind the last.\<close>

lemma block_request_spec:
  assumes "heap_rep h bs" "bk (word_of_int (sint (HEADER_SIZE + n) sdiv 4096 + 1)) (bstate h) = Some (a, b')"
    and "a \<noteq> 0" "a \<notin> fst ` set bs" "bs \<noteq> []"
  shows "\<exists>h'. block_request bk (fst (last bs)) n h = Some (a, h') \<and> heap_rep h' (bs @ [(a, n, True)])"
proof -
  let ?l = "fst (last bs)" and ?nx = "\<lambda>h a. ptr_of (bnext (blocks h a))"
  have l: "?l \<noteq> 0" "?l \<noteq> a" using assms(1,4,5) last_in_set [OF assms(5)] by (auto simp: heap_rep_def block_rep_def)
  define h' where "h' = h\<lparr>bstate := b', blocks := (blocks h)(?l := (blocks h ?l)\<lparr>bnext := a\<rparr>,
    a := (blocks h a)\<lparr>previous := ?l, bstatus := ALLOC, magic_code := magic_alloc, bsize := n, bnext := 0\<rparr>)\<rparr>"
  have r: "block_request bk ?l n h = Some (a, h')"
    using assms(2,3) l by (simp add: block_request_def sbrk_def set_block_def h'_def Let_def)
  have nx: "?nx h' = ((?nx h)(a := None))(?l := Some a)"
    using l assms(3) by (auto simp: h'_def fun_eq_iff)
  have "chain ((?nx h)(a := None)) (ptr_of (head_node h)) (map fst bs)"
    using assms(1,4) by (simp add: heap_rep_def chain_upd_notin)
  then have "chain (?nx h') (ptr_of (head_node h)) (map fst bs @ [a])"
    unfolding nx using chain_snoc [of "(?nx h)(a := None)" _ "map fst bs" a] assms(4,5) by (simp add: last_map)
  moreover have "block_rep (blocks h') b" if "b \<in> set bs" for b
  proof -
    have "block_rep (blocks h) b" "fst b \<noteq> a" using assms(1,4) that by (auto simp: heap_rep_def)
    then show ?thesis by (auto simp: block_rep_def h'_def)
  qed
  moreover have "block_rep (blocks h') (a, n, True)" using assms(3) by (simp add: block_rep_def h'_def)
  ultimately have "heap_rep h' (bs @ [(a, n, True)])" by (auto simp: heap_rep_def h'_def)
  with r show ?thesis by blast
qed


lemma malloc_spec:
  assumes "heap_rep h bs" "n \<noteq> 0" "a \<noteq> 0" "a \<notin> fst ` set bs"
    and "bk (word_of_int (sint (HEADER_SIZE + n) sdiv 4096 + 1)) (bstate h) = Some (a, b')"
  shows "\<exists>h'. malloc bk n h = Some (fst (first_fit a n bs) + HEADER_SIZE, h') \<and> heap_rep h' (snd (first_fit a n bs))"
proof (cases "bs = []")
  case True
  then have "head_node h = 0" using assms(1) by (simp add: heap_rep_def)
  with True show ?thesis using assms(2,3,5)
    by (simp add: malloc_def block_request_def sbrk_def set_block_def first_fit_def heap_rep_def block_rep_def Let_def)
next
  case False
  then obtain b cs where bs: "bs = b # cs" by (cases bs) auto
  have hd: "head_node h \<noteq> 0" using assms(1) by (auto simp: heap_rep_def bs block_rep_def ptr_of_def split: if_splits)
  obtain l where f: "find_freed_block h n (head_node h) (head_node h) = Some (case take_fit n bs of Some (a, _) \<Rightarrow> a | None \<Rightarrow> 0, l)"
    "take_fit n bs = None \<Longrightarrow> l = fst (last bs)"
    using find_freed_block_spec [of h "head_node h" bs n "head_node h"] assms(1) False by (auto simp: heap_rep_def)
  show ?thesis
  proof (cases "take_fit n bs")
    case None
    then show ?thesis
      using block_request_spec [where bk = bk, OF assms(1,5,3,4) False] f hd assms(2,3) by (auto simp: malloc_def first_fit_def)
  next
    case (Some r)
    then obtain x bs' where r: "take_fit n bs = Some (x, bs')" by (cases r) auto
    then obtain xs sz ys where sp: "bs = xs @ (x, sz, False) # ys" "bs' = xs @ (x, sz, True) # ys"
      using take_fit_Some by blast
    have x: "x \<noteq> 0" "bsize (blocks h x) = sz" using assms(1) sp(1) by (auto simp: heap_rep_def block_rep_def)
    obtain h' where h': "set_block x (\<lambda>b. b\<lparr>magic_code := magic_reall, bstatus := ALLOC\<rparr>) h = Some h'"
      using x by (simp add: set_block_def)
    have "block_rep (blocks h') (x, sz, True)" using h' x by (auto simp: set_block_def block_rep_def)
    then have "heap_rep h' bs'" using heap_rep_mark [OF assms(1)[unfolded sp(1)] h'] sp(2) by simp
    then show ?thesis using f(1) r h' hd assms(2) x(1) by (simp add: malloc_def first_fit_def)
  qed
qed

lemma free_spec:
  assumes "heap_rep h bs" "(x, sz, True) \<in> set bs" "x + HEADER_SIZE \<noteq> 0"
  shows "\<exists>h'. free (x + HEADER_SIZE) h = Some h' \<and> heap_rep h' (release x bs) \<and> mout h' = mout h"
proof -
  obtain xs ys where sp: "bs = xs @ (x, sz, True) # ys" using assms(2) by (meson split_list)
  have d: "distinct (map fst bs)" using assms(1) unfolding heap_rep_def by (blast dest: chain_distinct)
  have b: "x \<noteq> 0" "bsize (blocks h x) = sz" "bstatus (blocks h x) = ALLOC" "magic_code (blocks h x) \<in> {magic_alloc, magic_reall}"
    using assms(1) sp by (auto simp: heap_rep_def block_rep_def)
  obtain h' where h': "set_block x (\<lambda>b. b\<lparr>bstatus := FREED, magic_code := magic_freed\<rparr>) h = Some h'"
    using b(1) by (simp add: set_block_def)
  have "free (x + HEADER_SIZE) h = Some h'"
    using h' b assms(3) by (auto simp: free_def block_header_def set_block_def Let_def)
  moreover have "block_rep (blocks h') (x, sz, False)" using h' b by (auto simp: set_block_def block_rep_def)
  then have "heap_rep h' (xs @ (x, sz, False) # ys)" using heap_rep_mark [OF assms(1)[unfolded sp] h'] by simp
  moreover have "release x bs = xs @ (x, sz, False) # ys"
    using d by (force simp: sp release_def intro!: map_idI)
  moreover have "mout h' = mout h" using h' by (auto simp: set_block_def split: if_splits)
  ultimately show ?thesis by auto
qed


text \<open>A program break that works, on the heap with one free block of 100 and one used block of 50 bytes.\<close>

definition demo_brk :: "u32 \<Rightarrow> u64 \<Rightarrow> (u64 \<times> u64) option" where
  "demo_brk p b = Some (b, b + 4096 * ucast p)"

definition demo_heap :: "u64 mheap" where
  "demo_heap = \<lparr>blocks = (\<lambda>_. \<lparr>bsize = 0, bnext = 0, previous = 0, bstatus = 0, magic_code = 0\<rparr>)
      (0x8000000 := \<lparr>bsize = 100, bnext = 0x8001000, previous = 0, bstatus = FREED, magic_code = magic_freed\<rparr>,
       0x8001000 := \<lparr>bsize = 50, bnext = 0, previous = 0x8000000, bstatus = ALLOC, magic_code = magic_alloc\<rparr>),
     head_node = 0x8000000, bstate = 0x8002000, mout = []\<rparr>"



end
