(* ===== verification/Ahci.thy ===== *)
theory Ahci
  imports Syscall
begin

unbundle bit_operations_syntax

text \<open>
  The AHCI disk driver of \<^verbatim>\<open>sys/ahci.c\<close> and the structures of \<^verbatim>\<open>include/sys/ahci.h\<close>.
  The controller is a parameter: a \<open>bus\<close> says what a volatile register read returns and what a
  register write does. Both may change the state of the device and the memory, since the device
  transfers data by itself. The command list and the command tables are bytes of the memory, laid out
  as the packed structures of the header file are.
\<close>

subsection \<open>Integers and structure fields in memory\<close>

definition wr16 :: "bytes \<Rightarrow> u64 \<Rightarrow> u16 \<Rightarrow> bytes" where
  "wr16 m a v = m(a := ucast v, a + 1 := ucast (drop_bit 8 v))"

definition wr32 :: "bytes \<Rightarrow> u64 \<Rightarrow> u32 \<Rightarrow> bytes" where
  "wr32 m a v = wr16 (wr16 m a (ucast v)) (a + 2) (ucast (drop_bit 16 v))"

definition wr64 :: "bytes \<Rightarrow> u64 \<Rightarrow> u64 \<Rightarrow> bytes" where
  "wr64 m a v = wr32 (wr32 m a (ucast v)) (a + 4) (ucast (drop_bit 32 v))"

text \<open>The command header \<open>hba_cmd_header_t\<close> at address \<open>h\<close>.\<close>

definition set_cfl :: "bytes \<Rightarrow> u64 \<Rightarrow> u8 \<Rightarrow> bytes" where
  "set_cfl m h v = m(h := (m h AND 0xE0) OR (v AND 0x1F))"
definition get_cfl :: "bytes \<Rightarrow> u64 \<Rightarrow> u8" where "get_cfl m h = m h AND 0x1F"
definition set_w :: "bytes \<Rightarrow> u64 \<Rightarrow> bool \<Rightarrow> bytes" where
  "set_w m h v = m(h := (m h AND 0xBF) OR (if v then 0x40 else 0))"
definition get_w :: "bytes \<Rightarrow> u64 \<Rightarrow> bool" where "get_w m h = bit (m h) 6"
definition set_prdtl :: "bytes \<Rightarrow> u64 \<Rightarrow> u16 \<Rightarrow> bytes" where "set_prdtl m h v = wr16 m (h + 2) v"
definition get_prdtl :: "bytes \<Rightarrow> u64 \<Rightarrow> u16" where "get_prdtl m h = rd16 m (h + 2)"
definition set_ctba :: "bytes \<Rightarrow> u64 \<Rightarrow> u64 \<Rightarrow> bytes" where "set_ctba m h v = wr64 m (h + 8) v"
definition get_ctba :: "bytes \<Rightarrow> u64 \<Rightarrow> u64" where "get_ctba m h = rd64 m (h + 8)"

text \<open>An entry \<open>hba_prdt_entry_t\<close> at address \<open>e\<close>: \<open>dbc\<close> has 22 bits, \<open>i\<close> is bit 31 of the same word.\<close>

definition prdt_entry :: "u64 \<Rightarrow> u64 \<Rightarrow> u64" where "prdt_entry t i = t + 0x80 + 16 * i"
definition set_dba :: "bytes \<Rightarrow> u64 \<Rightarrow> u64 \<Rightarrow> bytes" where "set_dba m e v = wr64 m e v"
definition get_dba :: "bytes \<Rightarrow> u64 \<Rightarrow> u64" where "get_dba m e = rd64 m e"
definition set_dbc :: "bytes \<Rightarrow> u64 \<Rightarrow> u32 \<Rightarrow> bytes" where
  "set_dbc m e v = wr32 m (e + 12) ((rd32 m (e + 12) AND 0xFFC00000) OR (v AND 0x3FFFFF))"
definition get_dbc :: "bytes \<Rightarrow> u64 \<Rightarrow> u32" where "get_dbc m e = rd32 m (e + 12) AND 0x3FFFFF"
definition set_i :: "bytes \<Rightarrow> u64 \<Rightarrow> bytes" where
  "set_i m e = wr32 m (e + 12) ((rd32 m (e + 12) AND 0x7FFFFFFF) OR 0x80000000)"

text \<open>The command \<open>fis_reg_h2d_t\<close> at the start of the command table \<open>t\<close>.\<close>

record fis_reg_h2d =
  fis_type :: u8
  fis_c :: bool
  fis_command :: u8
  lba :: "u8 list"
  fis_device :: u8
  fis_count :: u16

definition fis_at :: "bytes \<Rightarrow> u64 \<Rightarrow> fis_reg_h2d" where
  "fis_at m t = \<lparr>fis_type = m t, fis_c = bit (m (t + 1)) 7, fis_command = m (t + 2),
     lba = [m (t + 4), m (t + 5), m (t + 6), m (t + 8), m (t + 9), m (t + 10)],
     fis_device = m (t + 7), fis_count = rd16 m (t + 12)\<rparr>"

definition setup_fis :: "bytes \<Rightarrow> u64 \<Rightarrow> u8 \<Rightarrow> u32 \<Rightarrow> u32 \<Rightarrow> u32 \<Rightarrow> bytes" where
  "setup_fis m t command startl starth count =
     (let m = m(t := 0x27);
          m = m(t + 1 := (m (t + 1) AND 0x7F) OR 0x80);
          m = m(t + 2 := command);
          m = m(t + 4 := ucast startl, t + 5 := ucast (drop_bit 8 startl), t + 6 := ucast (drop_bit 16 startl));
          m = m(t + 7 := push_bit 6 1);
          m = m(t + 8 := ucast (drop_bit 24 startl), t + 9 := ucast starth, t + 10 := ucast (drop_bit 8 starth));
          m = wr16 m (t + 12) (ucast count)
      in wr16 m (t + 12) (ucast count))"

subsection \<open>The command table\<close>

definition fill_prdt :: "bytes \<Rightarrow> u64 \<Rightarrow> u64 \<Rightarrow> u32 \<Rightarrow> bytes" where
  "fill_prdt m e buf dbc = set_i (set_dbc (set_dba m e buf) e dbc) e"

text \<open>The loop reads \<open>prdtl\<close> from the header each time. The pointer \<open>buf\<close> counts 16-bit words, so 4096
  of them are 8192 bytes.\<close>

partial_function (option) prdt_loop ::
    "bytes \<Rightarrow> u64 \<Rightarrow> u64 \<Rightarrow> nat \<Rightarrow> u64 \<Rightarrow> u32 \<Rightarrow> (bytes \<times> nat \<times> u64 \<times> u32) option" where
  "prdt_loop m h t i buf count =
     (if int i < int (unat (get_prdtl m h)) - 1
      then prdt_loop (fill_prdt m (prdt_entry t (of_nat i)) buf (8 * 1024)) h t (i + 1) (buf + 8192) (count - 16)
      else Some (m, i, buf, count))"

definition build_command ::
    "bytes \<Rightarrow> u64 \<Rightarrow> bool \<Rightarrow> u8 \<Rightarrow> u32 \<Rightarrow> u32 \<Rightarrow> u32 \<Rightarrow> u64 \<Rightarrow> bytes option" where
  "build_command m h w command startl starth count buf = do {
     let m = set_cfl m h (4 div 4);
     let m = set_w m h w;
     let m = set_prdtl m h (ucast (drop_bit 4 (count - 1)) + 1);
     let t = get_ctba m h;
     m \<leftarrow> memset m t 0 (256 + (ucast (get_prdtl m h) - 1) * 16);
     (m, i, buf, count) \<leftarrow> prdt_loop m h t 0 buf count;
     let m = fill_prdt m (prdt_entry t (of_nat i)) buf (push_bit 9 count);
     Some (setup_fis m t command startl starth count) }"

subsection \<open>Registers\<close>

datatype port_reg = Clb | Fb | Is_rwc | Ie | Cmd | Rsv0 | Tfd | Sig | Ssts | Sctl | Serr_rwc | Sact | Ci
  | Sntf_rwc | Fbs

primrec port_off :: "port_reg \<Rightarrow> u64" where
  "port_off Clb = 0x00" | "port_off Fb = 0x08" | "port_off Is_rwc = 0x10" | "port_off Ie = 0x14"
| "port_off Cmd = 0x18" | "port_off Rsv0 = 0x1C" | "port_off Tfd = 0x20" | "port_off Sig = 0x24"
| "port_off Ssts = 0x28" | "port_off Sctl = 0x2C" | "port_off Serr_rwc = 0x30" | "port_off Sact = 0x34"
| "port_off Ci = 0x38" | "port_off Sntf_rwc = 0x3C" | "port_off Fbs = 0x40"

datatype hba_reg = Cap | Ghc | Hba_is | Pi | Vs | Ccc_ctl | Ccc_pts | Em_loc | Em_ctl | Cap2 | Bohc

primrec hba_off :: "hba_reg \<Rightarrow> u64" where
  "hba_off Cap = 0x00" | "hba_off Ghc = 0x04" | "hba_off Hba_is = 0x08" | "hba_off Pi = 0x0C"
| "hba_off Vs = 0x10" | "hba_off Ccc_ctl = 0x14" | "hba_off Ccc_pts = 0x18" | "hba_off Em_loc = 0x1C"
| "hba_off Em_ctl = 0x20" | "hba_off Cap2 = 0x24" | "hba_off Bohc = 0x28"

definition ports :: "u64 \<Rightarrow> nat \<Rightarrow> u64" where "ports abar i = abar + 0x100 + 0x80 * of_nat i"

record 'd bus =
  bus_read :: "u64 \<Rightarrow> 'd \<times> bytes \<Rightarrow> u32 \<times> 'd \<times> bytes"
  bus_write :: "u64 \<Rightarrow> u32 \<Rightarrow> 'd \<times> bytes \<Rightarrow> 'd \<times> bytes"
  bus_read_long :: "u64 \<Rightarrow> 'd \<times> bytes \<Rightarrow> u64 \<times> 'd \<times> bytes"
  bus_write_long :: "u64 \<Rightarrow> u64 \<Rightarrow> 'd \<times> bytes \<Rightarrow> 'd \<times> bytes"
  inl :: "u16 \<Rightarrow> 'd \<times> bytes \<Rightarrow> u32 \<times> 'd \<times> bytes"
  outl :: "u16 \<Rightarrow> u32 \<Rightarrow> 'd \<times> bytes \<Rightarrow> 'd \<times> bytes"

text \<open>The globals \<open>abar\<close> (a pointer, \<open>NULL\<close> until it is assigned) and \<open>bar5\<close>, beside the console.\<close>

record 'd ahci = console +
  dev :: 'd
  abar :: "u64 option"
  bar5 :: u64

definition on_dev :: "('d \<times> bytes \<Rightarrow> 'd \<times> bytes) \<Rightarrow> 'd ahci \<Rightarrow> 'd ahci" where
  "on_dev f s = (let (d, m) = f (dev s, cmem s) in s\<lparr>dev := d, cmem := m\<rparr>)"

definition from_dev :: "('d \<times> bytes \<Rightarrow> 'a \<times> 'd \<times> bytes) \<Rightarrow> 'd ahci \<Rightarrow> 'a \<times> 'd ahci" where
  "from_dev f s = (let (v, d, m) = f (dev s, cmem s) in (v, s\<lparr>dev := d, cmem := m\<rparr>))"

definition get_reg :: "'d bus \<Rightarrow> u64 \<Rightarrow> port_reg \<Rightarrow> 'd ahci \<Rightarrow> u32 \<times> 'd ahci" where
  "get_reg b port r = from_dev (bus_read b (port + port_off r))"
definition put_reg :: "'d bus \<Rightarrow> u64 \<Rightarrow> port_reg \<Rightarrow> u32 \<Rightarrow> 'd ahci \<Rightarrow> 'd ahci" where
  "put_reg b port r v = on_dev (bus_write b (port + port_off r) v)"
definition get_long :: "'d bus \<Rightarrow> u64 \<Rightarrow> port_reg \<Rightarrow> 'd ahci \<Rightarrow> u64 \<times> 'd ahci" where
  "get_long b port r = from_dev (bus_read_long b (port + port_off r))"
definition put_long :: "'d bus \<Rightarrow> u64 \<Rightarrow> port_reg \<Rightarrow> u64 \<Rightarrow> 'd ahci \<Rightarrow> 'd ahci" where
  "put_long b port r v = on_dev (bus_write_long b (port + port_off r) v)"
definition get_hba :: "'d bus \<Rightarrow> u64 \<Rightarrow> hba_reg \<Rightarrow> 'd ahci \<Rightarrow> u32 \<times> 'd ahci" where
  "get_hba b a r = from_dev (bus_read b (a + hba_off r))"
definition put_hba :: "'d bus \<Rightarrow> u64 \<Rightarrow> hba_reg \<Rightarrow> u32 \<Rightarrow> 'd ahci \<Rightarrow> 'd ahci" where
  "put_hba b a r v = on_dev (bus_write b (a + hba_off r) v)"

definition set_ram :: "bytes \<Rightarrow> 'd ahci \<Rightarrow> 'd ahci" where "set_ram m s = s\<lparr>cmem := m\<rparr>"

text \<open>Calls of \<open>kprintf\<close> whose literal format has numbers in it.\<close>

datatype fmt = Txt string | Dec u64 | Hex u64

primrec kp_char_lit :: "u8 list \<Rightarrow> 'a console_scheme \<Rightarrow> 'a console_scheme" where
  "kp_char_lit [] s = s"
| "kp_char_lit (c # rest) s =
     (let s = wide_line s in
      kp_char_lit rest (if c = 10 then kprintf_newline s
                        else putc c (s\<lparr>line_width := line_width s + 1\<rparr>)))"

primrec kp :: "fmt list \<Rightarrow> 'a console_scheme \<Rightarrow> 'a console_scheme" where
  "kp [] s = wide_line s"
| "kp (x # xs) s =
     kp xs (case x of
              Txt t \<Rightarrow> kp_char_lit (of_string t) s
            | Dec n \<Rightarrow> print_str n (wide_line s)
            | Hex n \<Rightarrow> print_char n (wide_line s))"

subsection \<open>Ports\<close>

definition resetGHC :: "'d bus \<Rightarrow> u64 \<Rightarrow> 'd ahci \<Rightarrow> 'd ahci" where
  "resetGHC b a s =
     (let (g, s) = get_hba b a Ghc s; s = put_hba b a Ghc (g OR push_bit 31 1) s;
          (g, s) = get_hba b a Ghc s; s = put_hba b a Ghc (g OR push_bit 1 1) s;
          (g, s) = get_hba b a Ghc s
      in put_hba b a Ghc (g OR 1) s)"

definition check_type :: "'d bus \<Rightarrow> u64 \<Rightarrow> 'd ahci \<Rightarrow> u32 \<times> 'd ahci" where
  "check_type b port s =
     (let (ssts, s) = get_reg b port Ssts s;
          ipm = ucast (drop_bit 8 ssts AND 0x0F) :: u8;
          det = ucast (ssts AND 0x0F) :: u8
      in if det \<noteq> 3 then (0, s)
         else if ipm \<noteq> 1 then (0, s)
         else let (sig, s) = get_reg b port Sig s
              in if sig = 0xEB140101 then (0xEB140101, s)
                 else if sig = 0xC33C0101 then (0xC33C0101, s)
                 else if sig = 0x96690101 then (0x96690101, s)
                 else (0x00000101, s))"

partial_function (option) wait_cr :: "'d bus \<Rightarrow> u64 \<Rightarrow> 'd ahci \<Rightarrow> 'd ahci option" where
  "wait_cr b port s =
     (let (c, s) = get_reg b port Cmd s in if bit c 15 then wait_cr b port s else Some s)"

definition start_cmd :: "'d bus \<Rightarrow> u64 \<Rightarrow> 'd ahci \<Rightarrow> 'd ahci option" where
  "start_cmd b port s = do {
     s \<leftarrow> wait_cr b port s;
     let (c, s) = get_reg b port Cmd s;
     let s = put_reg b port Cmd (c OR push_bit 4 1) s;
     let (c, s) = get_reg b port Cmd s;
     Some (put_reg b port Cmd (c OR 1) s) }"

partial_function (option) wait_stopped :: "'d bus \<Rightarrow> u64 \<Rightarrow> 'd ahci \<Rightarrow> 'd ahci option" where
  "wait_stopped b port s =
     (let (c, s) = get_reg b port Cmd s in
      if bit c 14 then wait_stopped b port s
      else let (c, s) = get_reg b port Cmd s in
           if bit c 15 then wait_stopped b port s else Some s)"

definition stop_cmd :: "'d bus \<Rightarrow> u64 \<Rightarrow> 'd ahci \<Rightarrow> 'd ahci option" where
  "stop_cmd b port s = do {
     let (c, s) = get_reg b port Cmd s;
     let s = put_reg b port Cmd (c AND NOT 1) s;
     s \<leftarrow> wait_stopped b port s;
     let (c, s) = get_reg b port Cmd s;
     Some (put_reg b port Cmd (c AND NOT (push_bit 4 1)) s) }"

abbreviation AHCI_BASE :: u64 where "AHCI_BASE \<equiv> 0x800000"

function rebase_headers :: "bytes \<Rightarrow> u64 \<Rightarrow> u64 \<Rightarrow> nat \<Rightarrow> bytes option" where
  "rebase_headers m clb portno i =
     (if i < 32 then do {
        let h = clb + 32 * of_nat i;
        let m = set_prdtl m h 8;
        let m = set_ctba m h (AHCI_BASE + push_bit 10 40 + push_bit 13 portno + push_bit 8 (of_nat i));
        m \<leftarrow> memset m (get_ctba m h) 0 256;
        rebase_headers m clb portno (i + 1) }
      else Some m)"
  by pat_completeness auto

termination rebase_headers by (relation "measure (\<lambda>(_, _, _, i). 32 - i)") auto

declare rebase_headers.simps [simp del]

definition port_rebase :: "'d bus \<Rightarrow> u64 \<Rightarrow> u64 \<Rightarrow> 'd ahci \<Rightarrow> 'd ahci option" where
  "port_rebase b port portno s = do {
     s \<leftarrow> stop_cmd b port s;
     let s = put_long b port Clb (AHCI_BASE + push_bit 10 portno) s;
     let (clb, s) = get_long b port Clb s;
     m \<leftarrow> memset (cmem s) clb 0 1024;
     let s = set_ram m s;
     let s = put_long b port Fb (AHCI_BASE + push_bit 10 32 + push_bit 8 portno) s;
     let (fb, s) = get_long b port Fb s;
     m \<leftarrow> memset (cmem s) fb 0 256;
     let s = set_ram m s;
     let (clb, s) = get_long b port Clb s;
     m \<leftarrow> rebase_headers (cmem s) clb portno 0;
     start_cmd b port (set_ram m s) }"

subsection \<open>Reading and writing sectors\<close>

function free_slot :: "u32 \<Rightarrow> nat \<Rightarrow> nat \<Rightarrow> nat option" where
  "free_slot slots cmdslots i =
     (if i < cmdslots then if slots AND 1 = 0 then Some i else free_slot (drop_bit 1 slots) cmdslots (i + 1)
      else None)"
  by pat_completeness auto

termination free_slot by (relation "measure (\<lambda>(_, n, i). n - i)") auto

declare free_slot.simps [simp del]

text \<open>A slot number, or \<open>None\<close> inside for the result \<open>-1\<close>; reading \<open>cap\<close> through a null \<open>abar\<close> is a fault.\<close>

definition find_cmdslot :: "'d bus \<Rightarrow> u64 \<Rightarrow> 'd ahci \<Rightarrow> (nat option \<times> 'd ahci) option" where
  "find_cmdslot b port s = do {
     let (sact, s) = get_reg b port Sact s;
     let (ci, s) = get_reg b port Ci s;
     a \<leftarrow> abar s;
     let (cap, s) = get_hba b a Cap s;
     let r = free_slot (sact OR ci) (unat (drop_bit 8 (cap AND 0x0f00))) 0;
     Some (r, if r = None then kp [Txt ''Cannot find free command list entry\<newline>''] s else s) }"

function spin_loop :: "'d bus \<Rightarrow> u64 \<Rightarrow> nat \<Rightarrow> 'd ahci \<Rightarrow> nat \<times> 'd ahci" where
  "spin_loop b port spin s =
     (let (tfd, s) = get_reg b port Tfd s
      in if tfd AND (0x80 OR 0x08) \<noteq> 0 \<and> spin < 1000000 then spin_loop b port (spin + 1) s else (spin, s))"
  by pat_completeness auto

termination spin_loop by (relation "measure (\<lambda>(_, _, spin, _). 1000000 - spin)") auto

declare spin_loop.simps [simp del]

text \<open>Waiting for the device: \<open>True\<close> when the bit of the slot is clear, \<open>False\<close> on a task file error.\<close>

partial_function (option) wait_done :: "'d bus \<Rightarrow> u64 \<Rightarrow> nat \<Rightarrow> 'd ahci \<Rightarrow> (bool \<times> 'd ahci) option" where
  "wait_done b port slot s =
     (let (ci, s) = get_reg b port Ci s in
      if ci AND push_bit slot 1 = 0 then Some (True, s)
      else let (is_rwc, s) = get_reg b port Is_rwc s in
           if bit is_rwc 30 then Some (False, s) else wait_done b port slot s)"

definition transfer ::
    "bool \<Rightarrow> u8 \<Rightarrow> string \<Rightarrow> 'd bus \<Rightarrow> u64 \<Rightarrow> u32 \<Rightarrow> u32 \<Rightarrow> u32 \<Rightarrow> u64 \<Rightarrow> 'd ahci \<Rightarrow> (bool \<times> 'd ahci) option" where
  "transfer w command err b port startl starth count buf s = do {
     let s = put_reg b port Is_rwc (- 1) s;
     (slot, s) \<leftarrow> find_cmdslot b port s;
     case slot of None \<Rightarrow> Some (False, s) | Some slot \<Rightarrow> do {
       let (clb, s) = get_long b port Clb s;
       m \<leftarrow> build_command (cmem s) (clb + 32 * of_nat slot) w command startl starth count buf;
       let (spin, s) = spin_loop b port 0 (set_ram m s);
       if spin = 1000000 then Some (False, kp [Txt ''Port is hung\<newline>''] s)
       else do {
         let s = put_reg b port Ci (push_bit slot 1) s;
         (ok, s) \<leftarrow> wait_done b port slot s;
         if \<not> ok then Some (False, kp [Txt err] s)
         else do {
           let (is_rwc, s) = get_reg b port Is_rwc s;
           if bit is_rwc 30 then Some (False, kp [Txt err] s) else Some (True, s) } } } }"

definition ahciread ::
    "'d bus \<Rightarrow> u64 \<Rightarrow> u32 \<Rightarrow> u32 \<Rightarrow> u32 \<Rightarrow> u64 \<Rightarrow> 'd ahci \<Rightarrow> (bool \<times> 'd ahci) option" where
  "ahciread = transfer False 0x25 ''Read disk error\<newline>''"

definition ahciwrite ::
    "'d bus \<Rightarrow> u64 \<Rightarrow> u32 \<Rightarrow> u32 \<Rightarrow> u32 \<Rightarrow> u64 \<Rightarrow> 'd ahci \<Rightarrow> (bool \<times> 'd ahci) option" where
  "ahciwrite = transfer True 0x35 ''Write disk error\<newline>''"

subsection \<open>Finding the controller and the disk\<close>

function scan_ports :: "'d bus \<Rightarrow> u64 \<Rightarrow> u32 \<Rightarrow> nat \<Rightarrow> nat \<Rightarrow> 'd ahci \<Rightarrow> nat \<times> 'd ahci" where
  "scan_ports b a pi i sata s =
     (if i < 32 then
        let (sata, s) =
          (if pi AND 1 \<noteq> 0 then
             let (dt, s) = check_type b (ports a i) s
             in if dt = 0x00000101 then (i, kp [Txt ''SATA drive found at port '', Dec (of_nat i), Txt ''\<newline>''] s)
                else if dt = 0xEB140101 then (sata, kp [Txt ''SATAPI drive found at port '', Dec (of_nat i), Txt ''\<newline>''] s)
                else if dt = 0xC33C0101 then (sata, kp [Txt ''SEMB drive found at port '', Dec (of_nat i), Txt ''\<newline>''] s)
                else if dt = 0x96690101 then (sata, kp [Txt ''PM drive found at port '', Dec (of_nat i), Txt ''\<newline>''] s)
                else (sata, s)
           else (sata, s))
        in scan_ports b a (drop_bit 1 pi) (i + 1) sata s
      else (sata, s))"
  by pat_completeness auto

termination scan_ports by (relation "measure (\<lambda>(_, _, _, i, _, _). 32 - i)") auto

declare scan_ports.simps [simp del]

definition fill_buffer :: "u64 \<Rightarrow> u8 \<Rightarrow> 'd ahci \<Rightarrow> 'd ahci" where
  "fill_buffer p v s = set_ram (fold (\<lambda>k m. m(p + of_nat k := v)) [0..<512] (cmem s)) s"

primrec write_block :: "'d bus \<Rightarrow> u64 \<Rightarrow> nat \<Rightarrow> nat \<Rightarrow> 'd ahci \<Rightarrow> 'd ahci option" where
  "write_block b port 0 sectors s = Some s"
| "write_block b port (Suc n) sectors s = do {
     (r, s) \<leftarrow> ahciwrite b port (of_nat sectors) 0 1 0x400000 s;
     write_block b port n (sectors + 1) s }"

function write_blocks :: "'d bus \<Rightarrow> u64 \<Rightarrow> nat \<Rightarrow> 'd ahci \<Rightarrow> 'd ahci option" where
  "write_blocks b port j s =
     (if j < 100 then do {
        s \<leftarrow> write_block b port 8 (8 * j) (fill_buffer 0x400000 (of_nat j) s);
        write_blocks b port (j + 1) s }
      else Some s)"
  by pat_completeness auto

termination write_blocks by (relation "measure (\<lambda>(_, _, j, _). 100 - j)") auto

function read_sectors :: "'d bus \<Rightarrow> u64 \<Rightarrow> nat \<Rightarrow> 'd ahci \<Rightarrow> 'd ahci option" where
  "read_sectors b port sector s =
     (if sector < 800 then do {
        (r, s) \<leftarrow> ahciread b port (of_nat sector) 0 1 0x500000 s;
        let s = (if sector mod 8 = 0 then kp [Txt ''|Sector '', Dec (of_nat (sector div 8)), Txt '':''] s else s);
        let s = kp [Hex (ucast (cmem s 0x500000)), Txt '',''] s;
        read_sectors b port (sector + 1) s }
      else Some s)"
  by pat_completeness auto

termination read_sectors by (relation "measure (\<lambda>(_, _, sector, _). 800 - sector)") auto

declare write_blocks.simps [simp del] read_sectors.simps [simp del]

definition probe_port :: "'d bus \<Rightarrow> u64 \<Rightarrow> 'd ahci \<Rightarrow> 'd ahci option" where
  "probe_port b a s = do {
     let (pi, s) = get_hba b a Pi s;
     let (sata, s) = scan_ports b a pi 0 0 s;
     let s = resetGHC b a s;
     s \<leftarrow> port_rebase b (ports a sata) (of_nat sata) s;
     s \<leftarrow> write_blocks b (ports a sata) 0 s;
     let s = kp [Txt ''Writing completed!''] s;
     let s = kp [Txt ''Reading from disk''] s;
     s \<leftarrow> read_sectors b (ports a sata) 0 s;
     Some (kp [Txt ''Reading completed!''] s) }"

definition pci_address :: "u8 \<Rightarrow> u8 \<Rightarrow> u8 \<Rightarrow> u8 \<Rightarrow> u32" where
  "pci_address bus slot func offset =
     push_bit 16 (ucast bus) OR push_bit 11 (ucast slot) OR push_bit 8 (ucast func) OR
     (ucast offset AND 0xfc) OR 0x80000000"

definition sysOutLong :: "'d bus \<Rightarrow> u16 \<Rightarrow> u32 \<Rightarrow> 'd ahci \<Rightarrow> 'd ahci" where
  "sysOutLong b port v = on_dev (outl b port v)"
definition sysInLong :: "'d bus \<Rightarrow> u16 \<Rightarrow> 'd ahci \<Rightarrow> u32 \<times> 'd ahci" where
  "sysInLong b port = from_dev (inl b port)"

definition pciConfigReadWord :: "'d bus \<Rightarrow> u8 \<Rightarrow> u8 \<Rightarrow> u8 \<Rightarrow> u8 \<Rightarrow> 'd ahci \<Rightarrow> u16 \<times> 'd ahci" where
  "pciConfigReadWord b bus slot func offset s =
     (let s = sysOutLong b 0xCF8 (pci_address bus slot func offset) s;
          (v, s) = sysInLong b 0xCFC s
      in (ucast (drop_bit (unat (offset AND 2) * 8) v AND 0xffff), s))"

definition ReadWord :: "'d bus \<Rightarrow> u8 \<Rightarrow> u8 \<Rightarrow> u8 \<Rightarrow> u8 \<Rightarrow> 'd ahci \<Rightarrow> u32 \<times> 'd ahci" where
  "ReadWord b bus slot func offset s =
     (let s = sysOutLong b 0xCF8 (pci_address bus slot func offset) s;
          s = sysOutLong b 0xCFC 0x3EBF1000 s
      in sysInLong b 0xCFC s)"

definition check_slot :: "'d bus \<Rightarrow> u8 \<Rightarrow> u8 \<Rightarrow> 'd ahci \<Rightarrow> 'd ahci option" where
  "check_slot b bus slot s = do {
     let (vendorID, s) = pciConfigReadWord b bus slot 0 0 s;
     let (deviceID, s) = pciConfigReadWord b bus slot 0 0x02 s;
     let (tmp, s) = pciConfigReadWord b bus slot 0 0x0A s;
     let baseClass = (ucast (drop_bit 8 (tmp AND 0xFF00)) :: u8);
     let subClass = (ucast (tmp AND 0x00FF) :: u8);
     if subClass = 0x06 \<and> baseClass = 0x01 then do {
       let s = kp [Txt ''Vendor ID : '', Dec (ucast vendorID), Txt '', Device ID : '', Dec (ucast deviceID), Txt ''\<newline>''] s;
       let s = kp [Txt ''AHCI Found at Bus : '', Dec (ucast bus), Txt '' , Slot : '', Dec (ucast slot), Txt '' \<newline>''] s;
       let (v, s) = ReadWord b bus slot 0 0x24 s;
       let s = s\<lparr>bar5 := ucast v\<rparr>;
       probe_port b (0xFFFFFFFF00000000 + bar5 s) s }
     else Some s }"

function check_slots :: "'d bus \<Rightarrow> nat \<Rightarrow> nat \<Rightarrow> 'd ahci \<Rightarrow> 'd ahci option" where
  "check_slots b bus slot s =
     (if slot < 32 then do { s \<leftarrow> check_slot b (of_nat bus) (of_nat slot) s; check_slots b bus (slot + 1) s }
      else Some s)"
  by pat_completeness auto

termination check_slots by (relation "measure (\<lambda>(_, _, slot, _). 32 - slot)") auto

function checkAllBuses :: "'d bus \<Rightarrow> nat \<Rightarrow> 'd ahci \<Rightarrow> 'd ahci option" where
  "checkAllBuses b bus s =
     (if bus < 255 then do { s \<leftarrow> check_slots b bus 0 s; checkAllBuses b (bus + 1) s }
      else Some s)"
  by pat_completeness auto

termination checkAllBuses by (relation "measure (\<lambda>(_, bus, _). 255 - bus)") auto

declare check_slots.simps [simp del] checkAllBuses.simps [simp del]

subsection \<open>Reading back what was written\<close>

text \<open>What a typed access to memory promises: it reads back what it wrote, and it touches and depends on
  its own bytes only. The structure fields rely on this and not on the byte order.\<close>

locale mem_field =
  fixes rd :: "bytes \<Rightarrow> u64 \<Rightarrow> 'v" and wr :: "bytes \<Rightarrow> u64 \<Rightarrow> 'v \<Rightarrow> bytes" and width :: nat
  assumes rd_wr: "rd (wr m a v) a = v"
    and wr_outside: "x \<notin> region a width \<Longrightarrow> wr m a v x = m x"
    and rd_cong: "(\<And>x. x \<in> region a width \<Longrightarrow> m x = m' x) \<Longrightarrow> rd m a = rd m' a"
begin

lemma rd_apart:
  assumes "region a width \<inter> A = {}" "\<And>x. x \<notin> A \<Longrightarrow> m' x = m x"
  shows "rd m' a = rd m a"
  using assms by (intro rd_cong) blast

text \<open>Fields at offset \<open>k\<close> of a structure of \<open>n\<close> bytes at \<open>p\<close>.\<close>

lemma field_cong:
  assumes "k + width \<le> n" "n \<le> 2 ^ 64" "\<And>x. x \<in> region p n \<Longrightarrow> m x = m' x"
  shows "rd m (p + of_nat k) = rd m' (p + of_nat k)"
  using region_sub [OF assms(1,2), of p] assms(3) by (intro rd_cong) blast

lemma field_outside:
  assumes "k + width \<le> n" "n \<le> 2 ^ 64" "x \<notin> region p n"
  shows "wr m (p + of_nat k) v x = m x"
  using region_sub [OF assms(1,2), of p] assms(3) by (intro wr_outside) blast

end

lemma region_ne: "x \<notin> region a k \<Longrightarrow> n < k \<Longrightarrow> n < 2 ^ 64 \<Longrightarrow> x \<noteq> a + of_nat n"
  by (auto simp: region_def unat_of_nat)

lemma region_apart: "n \<le> k \<Longrightarrow> k + l \<le> 2 ^ 64 \<Longrightarrow> region a n \<inter> region (a + of_nat k) l = {}"
  by (auto simp: region_offset region_def [of a n])

lemma rd16_wr16: "rd16 (wr16 m a v) a = v"
  unfolding rd16_def wr16_def by (rule bit_word_eqI) (auto simp: bit_simps)

interpretation f16: mem_field rd16 wr16 2
proof
  show "wr16 m a v x = m x" if "x \<notin> region a 2" for x a m v
    using region_ne [OF that, of 0] region_ne [OF that, of 1] by (simp add: wr16_def)
  show "rd16 (wr16 m a v) a = v" for m a v by (rule rd16_wr16)
qed (simp add: rd16_def region_def)

lemma rd32_wr32: "rd32 (wr32 m a v) a = v"
proof -
  have "rd16 (wr32 m a v) a = rd16 (wr16 m a (ucast v)) a"
    unfolding wr32_def rd16_def by (simp add: wr16_def)
  moreover have "rd16 (wr32 m a v) (a + 2) = ucast (drop_bit 16 v)" unfolding wr32_def by (rule rd16_wr16)
  ultimately show ?thesis unfolding rd32_def rd16_wr16 by (simp only:) (rule bit_word_eqI, auto simp: bit_simps)
qed

interpretation f32: mem_field rd32 wr32 4
proof
  show "wr32 m a v x = m x" if "x \<notin> region a 4" for x a m v
    using region_ne [OF that, of 0] region_ne [OF that, of 1] region_ne [OF that, of 2] region_ne [OF that, of 3]
    by (simp add: wr32_def wr16_def add.assoc)
  show "rd32 (wr32 m a v) a = v" for m a v by (rule rd32_wr32)
qed (simp add: rd32_def rd16_def region_def add.assoc)

lemma rd64_wr64: "rd64 (wr64 m a v) a = v"
proof -
  have "region a 4 \<inter> region (a + 4) 4 = {}" using region_apart [of 4 4 4 a] by simp
  then have "rd32 (wr64 m a v) a = rd32 (wr32 m a (ucast v)) a"
    unfolding wr64_def by (rule f32.rd_apart) (simp add: f32.wr_outside)
  moreover have "rd32 (wr64 m a v) (a + 4) = ucast (drop_bit 32 v)" unfolding wr64_def by (rule rd32_wr32)
  ultimately show ?thesis unfolding rd64_def rd32_wr32 by (simp only:) (rule bit_word_eqI, auto simp: bit_simps)
qed

interpretation f64: mem_field rd64 wr64 8
proof
  show "wr64 m a v x = m x" if "x \<notin> region a 8" for x a m v
    using f32.field_outside [of 0 8 x a _ "ucast v"] f32.field_outside [of 4 8 x a _ "ucast (drop_bit 32 v)"] that
    by (simp add: wr64_def)
  show "rd64 m a = rd64 m' a" if "\<And>x. x \<in> region a 8 \<Longrightarrow> m x = m' x" for a m m'
    using f32.field_cong [of 0 8 a m m'] f32.field_cong [of 4 8 a m m'] that by (simp add: rd64_def)
qed (rule rd64_wr64)

lemma fill_prdt_outside:
  assumes "x \<notin> region e 16"
  shows "fill_prdt m e buf dbc x = m x"
  using f64.field_outside [of 0 16 x e _ buf] f32.field_outside [of 12 16 x e] assms
  by (simp add: fill_prdt_def set_i_def set_dbc_def set_dba_def)

lemma fill_prdt_dba: "get_dba (fill_prdt m e buf dbc) e = buf"
proof -
  have "region e 8 \<inter> region (e + 12) 4 = {}" using region_apart [of 8 12 4 e] by simp
  then have "rd64 (wr32 m (e + 12) v) e = rd64 m e" for m v
    by (rule f64.rd_apart) (simp add: f32.wr_outside)
  then show ?thesis by (simp add: get_dba_def fill_prdt_def set_i_def set_dbc_def set_dba_def rd64_wr64)
qed

lemma fill_prdt_dbc: "get_dbc (fill_prdt m e buf dbc) e = dbc AND 0x3FFFFF"
proof -
  have c: "0x3FFFFF = (mask 22 :: u32)" "0xFFC00000 = (NOT (mask 22) :: u32)"
    "0x7FFFFFFF = (mask 31 :: u32)" "0x80000000 = (NOT (mask 31) :: u32)"
    by (simp_all add: mask_eq_exp_minus_1)
  show ?thesis
    unfolding get_dbc_def fill_prdt_def set_i_def set_dbc_def set_dba_def rd32_wr32 c
    by (rule bit_word_eqI) (auto simp: bit_simps)
qed

lemma dba_cong: "(\<And>a. a \<in> region e 16 \<Longrightarrow> m a = m' a) \<Longrightarrow> get_dba m e = get_dba m' e"
  using f64.field_cong [of 0 16 e m m'] by (simp add: get_dba_def)

lemma dbc_cong: "(\<And>a. a \<in> region e 16 \<Longrightarrow> m a = m' a) \<Longrightarrow> get_dbc m e = get_dbc m' e"
  using f32.field_cong [of 12 16 e m m'] by (simp add: get_dbc_def)

subsection \<open>The region descriptors\<close>

text \<open>Offsets from the start of the command table of the bytes of entries \<open>i\<close> to \<open>k - 1\<close>.\<close>

definition entry_bytes :: "u64 \<Rightarrow> nat \<Rightarrow> nat \<Rightarrow> u64 set" where
  "entry_bytes t i k = {a. 128 + 16 * i \<le> unat (a - t) \<and> unat (a - t) < 128 + 16 * k}"

lemma entry_bytes_mono: "i \<le> i' \<Longrightarrow> k' \<le> k \<Longrightarrow> entry_bytes t i' k' \<subseteq> entry_bytes t i k"
  by (auto simp: entry_bytes_def)

lemma entry_region:
  assumes "i < 2 ^ 32"
  shows "region (prdt_entry t (of_nat i)) 16 = entry_bytes t i (Suc i)"
proof -
  have e: "prdt_entry t (of_nat i) = t + of_nat (128 + 16 * i)" by (simp add: prdt_entry_def)
  have "128 + 16 * i + 16 \<le> 2 ^ 64" using assms by simp
  from region_offset [OF this, of _ t] show ?thesis unfolding e by (auto simp: entry_bytes_def)
qed

lemma prdt_loop_spec:
  assumes "n = unat (get_prdtl m h)" "0 < n" "i < n"
    and "h + 2 \<notin> entry_bytes t 0 n" "h + 3 \<notin> entry_bytes t 0 n"
  shows "\<exists>m'. prdt_loop m h t i buf count = Some (m', n - 1, buf + 8192 * of_nat (n - 1 - i), count - 16 * of_nat (n - 1 - i)) \<and>
    (\<forall>a. a \<notin> entry_bytes t i (n - 1) \<longrightarrow> m' a = m a) \<and>
    (\<forall>k. i \<le> k \<longrightarrow> k < n - 1 \<longrightarrow> get_dba m' (prdt_entry t (of_nat k)) = buf + 8192 * of_nat (k - i) \<and>
       get_dbc m' (prdt_entry t (of_nat k)) = 8192)"
  using assms
proof (induction "n - 1 - i" arbitrary: i m buf count)
  case 0
  then have "i = n - 1" by simp
  with 0 show ?case by (subst prdt_loop.simps) auto
next
  case (Suc d)
  let ?e = "prdt_entry t (of_nat i)"
  let ?m = "fill_prdt m ?e buf (8 * 1024)"
  have n: "n < 2 ^ 32" unfolding Suc.prems(1) using unsigned_less [of "get_prdtl m h", where 'a = nat] by simp
  have i: "i + 1 < n" using Suc.hyps(2) by simp
  have e: "region ?e 16 = entry_bytes t i (Suc i)" using i n by (intro entry_region) simp
  have s: "entry_bytes t i (Suc i) \<subseteq> entry_bytes t 0 n" using i by (auto simp: entry_bytes_def)
  have o: "?m a = m a" if "a \<notin> entry_bytes t i (Suc i)" for a
    using that by (simp add: fill_prdt_outside e)
  have "?m (h + 2) = m (h + 2)" "?m (h + 3) = m (h + 3)" using o s Suc.prems by auto
  then have p: "get_prdtl ?m h = get_prdtl m h" by (simp add: get_prdtl_def rd16_def add.assoc)
  have d: "d = n - 1 - (i + 1)" using Suc.hyps(2) by simp
  obtain m' where m': "prdt_loop ?m h t (i + 1) (buf + 8192) (count - 16) =
      Some (m', n - 1, buf + 8192 + 8192 * of_nat (n - 1 - (i + 1)), count - 16 - 16 * of_nat (n - 1 - (i + 1)))"
    "\<forall>a. a \<notin> entry_bytes t (i + 1) (n - 1) \<longrightarrow> m' a = ?m a"
    "\<forall>k. i + 1 \<le> k \<longrightarrow> k < n - 1 \<longrightarrow> get_dba m' (prdt_entry t (of_nat k)) = buf + 8192 + 8192 * of_nat (k - (i + 1)) \<and>
       get_dbc m' (prdt_entry t (of_nat k)) = 8192"
    using Suc.hyps(1) [OF d _ Suc.prems(2) i Suc.prems(4,5), of ?m "buf + 8192" "count - 16", unfolded p, OF Suc.prems(1)]
    by (elim exE conjE)
  have u: "prdt_loop m h t i buf count = prdt_loop ?m h t (i + 1) (buf + 8192) (count - 16)"
    using i by (subst prdt_loop.simps) (simp flip: Suc.prems(1))
  have r: "n - 1 - i = Suc (n - 1 - (i + 1))" using i by simp
  have own: "m' a = ?m a" if "a \<in> region ?e 16" for a
    using that unfolding e by (intro m'(2) [rule_format]) (auto simp: entry_bytes_def)
  have k: "get_dba m' (prdt_entry t (of_nat k)) = buf + 8192 * of_nat (k - i) \<and>
       get_dbc m' (prdt_entry t (of_nat k)) = 8192" if "i \<le> k" "k < n - 1" for k
  proof (cases "k = i")
    case True
    then show ?thesis using dba_cong [OF own] dbc_cong [OF own] by (simp add: fill_prdt_dba fill_prdt_dbc)
  next
    case False
    then have "k - i = Suc (k - (i + 1))" "i + 1 \<le> k" using that by simp_all
    with m'(3) [rule_format, of k] that show ?thesis by (simp add: algebra_simps)
  qed
  have f: "m' a = m a" if "a \<notin> entry_bytes t i (n - 1)" for a
  proof -
    have "Suc i \<le> n - 1" using i by simp
    then have "a \<notin> entry_bytes t (i + 1) (n - 1)" "a \<notin> entry_bytes t i (Suc i)"
      using that entry_bytes_mono [of i "i + 1" "n - 1" "n - 1" t] entry_bytes_mono [of i i "Suc i" "n - 1" t] by auto
    with m'(2) o show ?thesis by simp
  qed
  show ?case unfolding u m'(1) r using k f by (intro exI [of _ m']) (simp add: algebra_simps)
qed

subsection \<open>The command that the device receives\<close>

lemma setup_fis_fields:
  "fis_at (setup_fis m t command startl starth count) t =
     \<lparr>fis_type = 0x27, fis_c = True, fis_command = command,
      lba = [ucast startl, ucast (drop_bit 8 startl), ucast (drop_bit 16 startl), ucast (drop_bit 24 startl),
             ucast starth, ucast (drop_bit 8 starth)],
      fis_device = 0x40, fis_count = ucast count\<rparr>"
proof -
  have "bit ((m (t + 1) AND 0x7F) OR (0x80 :: u8)) 7" by (simp add: bit_simps)
  then show ?thesis
    by (simp add: fis_at_def setup_fis_def Let_def rd16_wr16) (simp add: wr16_def)
qed

lemma setup_fis_outside:
  assumes "a \<notin> region t 16"
  shows "setup_fis m t command startl starth count a = m a"
proof -
  note d = region_ne [OF assms]
  have "a \<notin> {t, t + 1, t + 2, t + 4, t + 5, t + 6, t + 7, t + 8, t + 9, t + 10, t + 12, t + 13}"
    using d [of 0] d [of 1] d [of 2] d [of 4] d [of 5] d [of 6] d [of 7] d [of 8] d [of 9] d [of 10] d [of 12] d [of 13]
    by simp
  then show ?thesis by (simp add: setup_fis_def Let_def wr16_def add.assoc)
qed

text \<open>The number of region descriptors of a request, and the sectors of the last one.\<close>

definition prdt_count :: "u32 \<Rightarrow> nat" where "prdt_count count = (unat count - 1) div 16 + 1"
definition last_sectors :: "u32 \<Rightarrow> nat" where "last_sectors count = (unat count - 1) mod 16 + 1"

lemma prdt_count_bounds:
  assumes "0 < count" "count \<le> 0xFFFF0"
  shows "0 < prdt_count count" "prdt_count count < 65536"
    and "unat count = 16 * (prdt_count count - 1) + last_sectors count"
proof -
  have c: "0 < unat count" "unat count \<le> 0xFFFF0" using assms by (simp_all add: word_le_nat_alt unat_gt_0)
  show "0 < prdt_count count" by (simp add: prdt_count_def)
  show "prdt_count count < 65536" using c by (simp add: prdt_count_def)
  show "unat count = 16 * (prdt_count count - 1) + last_sectors count"
    using c(1) by (simp add: prdt_count_def last_sectors_def)
qed

lemma prdtl_word:
  assumes "0 < count" "count \<le> 0xFFFF0"
  shows "unat (ucast (drop_bit 4 (count - 1)) + 1 :: u16) = prdt_count count"
proof -
  note b = prdt_count_bounds [OF assms]
  have "unat (count - 1) = unat count - 1" using assms(1) by (simp add: unat_minus_one)
  then have d: "unat (drop_bit 4 (count - 1)) = prdt_count count - 1"
    by (simp add: unat_div drop_bit_eq_div prdt_count_def)
  have "ucast (drop_bit 4 (count - 1)) = (of_nat (prdt_count count - 1) :: u16)"
    unfolding d [symmetric] by simp
  then have "ucast (drop_bit 4 (count - 1)) + 1 = (of_nat (prdt_count count) :: u16)"
    using b(1) by (metis Suc_diff_1 add.commute of_nat_Suc)
  then show ?thesis using b(2) by (simp add: unat_of_nat)
qed

lemma last_word:
  assumes "0 < count" "count \<le> 0xFFFF0"
  shows "count - 16 * of_nat (prdt_count count - 1) = of_nat (last_sectors count)"
proof -
  have "count = of_nat (unat count)" by simp
  also have "\<dots> = 16 * of_nat (prdt_count count - 1) + of_nat (last_sectors count)"
    unfolding prdt_count_bounds(3) [OF assms] by simp
  finally show ?thesis by (metis add_diff_cancel_left')
qed

lemma set_prdtl_get: "get_prdtl (set_prdtl m h v) h = v"
  by (simp add: get_prdtl_def set_prdtl_def rd16_wr16)

lemma header_outside:
  assumes "a \<notin> region h 4"
  shows "set_prdtl (set_w (set_cfl m h c) h w) h n a = m a"
proof -
  have "unat (a - h) \<noteq> k" if "k < 4" for k using assms that by (auto simp: region_def)
  from this [of 0] this [of 2] this [of 3] have "a \<noteq> h" "a \<noteq> h + 2" "a \<noteq> h + 3" by auto
  then show ?thesis by (simp add: set_prdtl_def set_w_def set_cfl_def wr16_def add.assoc)
qed

lemma ctba_kept: "get_ctba (set_prdtl (set_w (set_cfl m h c) h w) h n) h = get_ctba m h"
  by (simp add: get_ctba_def rd64_def rd32_def rd16_def add.assoc set_prdtl_def set_w_def set_cfl_def wr16_def)

lemma header_bits:
  "get_cfl (set_prdtl (set_w (set_cfl m h c) h w) h n) h = c AND 0x1F"
  "get_w (set_prdtl (set_w (set_cfl m h c) h w) h n) h = w"
proof -
  have c: "0xE0 = (NOT (mask 5) :: u8)" "0x1F = (mask 5 :: u8)" "0xBF = (NOT (Bit_Operations.set_bit 6 0) :: u8)"
    by (simp_all add: mask_eq_exp_minus_1 set_bit_eq_or)
  have h: "set_prdtl (set_w (set_cfl m h c) h w) h n h = ((m h AND 0xE0) OR (c AND 0x1F)) AND 0xBF OR (if w then 0x40 else 0)"
    by (simp add: set_prdtl_def set_w_def set_cfl_def wr16_def)
  have q: "\<not> bit (64 :: int) n" if "n < 5" for n
  proof -
    have "n \<in> {0, 1, 2, 3, 4}" using that by auto
    then show ?thesis by auto
  qed
  show "get_cfl (set_prdtl (set_w (set_cfl m h c) h w) h n) h = c AND 0x1F"
    unfolding get_cfl_def h by (rule bit_word_eqI) (auto simp: c bit_simps dest: q)
  show "get_w (set_prdtl (set_w (set_cfl m h c) h w) h n) h = w"
    unfolding get_w_def h by (auto simp: bit_simps)
qed

lemma memset_table:
  assumes "0 < n" "n < 65536" "unat p = n"
  shows "memset m t 0 (256 + (ucast (p :: u16) - 1) * 16) =
    Some (\<lambda>a. if a \<in> region t (256 + 16 * (n - 1)) then 0 else m a)"
proof -
  have "ucast p = (of_nat n :: u64)" unfolding assms(3) [symmetric] by simp
  moreover have "(of_nat n :: u64) = of_nat (n - 1) + 1" using assms(1) by (metis Suc_diff_1 add.commute of_nat_Suc)
  ultimately have w: "256 + (ucast p - 1) * 16 = (of_nat (256 + 16 * (n - 1)) :: u64)" by simp
  show ?thesis
    using memset_spec [of "256 + 16 * (n - 1)" m t 0] assms(1,2)
    unfolding w by (simp del: of_nat_add of_nat_mult cong: if_cong)
qed

lemma bytes_value:
  fixes x :: nat
  shows "x mod 256 + 256 * (x div 256 mod 256 + 256 * r) = x mod 65536 + 65536 * r"
    and "x < 2 ^ 32 \<Longrightarrow> x mod 65536 + 65536 * (x div 65536 mod 256 + 256 * (x div 16777216 mod 256 + 256 * r)) = x + 2 ^ 32 * r"
proof -
  have two: "y mod 65536 = y mod 256 + 256 * (y div 256 mod 256)" for y :: nat
    using mod_mult2_eq [of y 256 256] by (simp add: add.commute)
  show "x mod 256 + 256 * (x div 256 mod 256 + 256 * r) = x mod 65536 + 65536 * r"
    using two [of x] by simp
  assume "x < 2 ^ 32"
  then have "x div 65536 mod 65536 = x div 65536" by simp
  with two [of "x div 65536"] have d: "x div 65536 mod 256 + 256 * (x div 16777216 mod 256) = x div 65536"
    using div_mult2_eq [of x 65536 256] by simp
  have "c + 65536 * (a + 256 * (b + 256 * r)) = c + 65536 * (a + 256 * b) + 2 ^ 32 * r" for a b c :: nat by simp
  then show "x mod 65536 + 65536 * (x div 65536 mod 256 + 256 * (x div 16777216 mod 256 + 256 * r)) = x + 2 ^ 32 * r"
    by (simp only: d mod_mult_div_eq)
qed

lemma lba_value:
  fixes l h :: u32
  shows "horner_sum unat 256 ([ucast l, ucast (drop_bit 8 l), ucast (drop_bit 16 l), ucast (drop_bit 24 l),
             ucast h, ucast (drop_bit 8 h)] :: u8 list) = unat l + 2 ^ 32 * (unat h mod 2 ^ 16)"
proof -
  have "unat l < 2 ^ 32" using unsigned_less [of l, where 'a = nat] by simp
  moreover have "unat (ucast (drop_bit n w) :: u8) = unat w div 2 ^ n mod 256" "unat (ucast w :: u8) = unat w mod 256"
    for n and w :: u32
    using unsigned_drop_bit_eq [of n w, where 'a = nat] unsigned_less [of w, where 'a = nat]
    by (simp_all add: unsigned_ucast_eq take_bit_eq_mod flip: drop_bit_eq_div)
  moreover have "horner_sum unat 256 [a, b, c, d, e, f] =
      unat a + 256 * (unat b + 256 * (unat c + 256 * (unat d + 256 * (unat e + 256 * (unat f + 256 * 0)))))"
    for a b c d e f :: u8 by simp
  moreover have "unat l div 2 ^ 8 = unat l div 256" "unat l div 2 ^ 16 = unat l div 65536"
    "unat l div 2 ^ 24 = unat l div 16777216" "unat h div 2 ^ 8 = unat h div 256" by simp_all
  ultimately show ?thesis by (simp only: bytes_value) simp
qed

lemma build_command_steps:
  assumes "0 < count" "count \<le> 0xFFFF0" "t = get_ctba m h" "n = prdt_count count"
    and "region h 32 \<inter> region t (256 + 16 * (n - 1)) = {}"
  obtains m2 m1 where
    "build_command m h w command startl starth count buf =
       Some (setup_fis (fill_prdt m2 (prdt_entry t (of_nat (n - 1))) (buf + 8192 * of_nat (n - 1))
         (of_nat (512 * last_sectors count))) t command startl starth (of_nat (last_sectors count)))"
    and "m1 = set_prdtl (set_w (set_cfl m h 1) h w) h (ucast (drop_bit 4 (count - 1)) + 1)"
    and "\<And>a. a \<notin> region t (256 + 16 * (n - 1)) \<Longrightarrow> m2 a = m1 a"
    and "\<And>k. k < n - 1 \<Longrightarrow> get_dba m2 (prdt_entry t (of_nat k)) = buf + 8192 * of_nat k \<and>
       get_dbc m2 (prdt_entry t (of_nat k)) = 8192"
proof -
  define m1 where "m1 = set_prdtl (set_w (set_cfl m h 1) h w) h (ucast (drop_bit 4 (count - 1)) + 1)"
  define mz where "mz = (\<lambda>a. if a \<in> region t (256 + 16 * (n - 1)) then 0 else m1 a)"
  note b = prdt_count_bounds [OF assms(1,2), folded assms(4)]
  have pm: "unat (get_prdtl m1 h) = n"
    unfolding m1_def set_prdtl_get assms(4) by (rule prdtl_word [OF assms(1,2)])
  have hz: "mz a = m1 a" if "a \<in> region h 32" for a using that assms(5) by (auto simp: mz_def)
  have hr: "h + 2 \<in> region h 32" "h + 3 \<in> region h 32" by (simp_all add: region_def)
  have "mz (h + 2) = m1 (h + 2)" "mz (h + 3) = m1 (h + 3)" using hr by (simp_all add: hz)
  then have pz: "n = unat (get_prdtl mz h)" using pm by (simp add: get_prdtl_def rd16_def add.assoc)
  have sub: "entry_bytes t 0 n \<subseteq> region t (256 + 16 * (n - 1))" using b(1) by (auto simp: entry_bytes_def region_def)
  then have out: "h + 2 \<notin> entry_bytes t 0 n" "h + 3 \<notin> entry_bytes t 0 n" using hr assms(5) by blast+
  obtain m2 where m2: "prdt_loop mz h t 0 buf count = Some (m2, n - 1, buf + 8192 * of_nat (n - 1), count - 16 * of_nat (n - 1))"
    "\<forall>a. a \<notin> entry_bytes t 0 (n - 1) \<longrightarrow> m2 a = mz a"
    "\<forall>k. 0 \<le> k \<longrightarrow> k < n - 1 \<longrightarrow> get_dba m2 (prdt_entry t (of_nat k)) = buf + 8192 * of_nat (k - 0) \<and>
       get_dbc m2 (prdt_entry t (of_nat k)) = 8192"
    using prdt_loop_spec [OF pz b(1) b(1) out, of buf count] unfolding diff_zero by (elim exE conjE)
  have ct: "get_ctba m1 h = t"
    by (simp add: assms(3) m1_def ctba_kept)
  have l: "count - 16 * of_nat (n - 1) = of_nat (last_sectors count)"
    unfolding assms(4) by (rule last_word [OF assms(1,2)])
  have s: "push_bit 9 (of_nat k :: u32) = of_nat (512 * k)" for k by (simp add: push_bit_eq_mult)
  have c: "build_command m h w command startl starth count buf =
     Some (setup_fis (fill_prdt m2 (prdt_entry t (of_nat (n - 1))) (buf + 8192 * of_nat (n - 1))
         (of_nat (512 * last_sectors count))) t command startl starth (of_nat (last_sectors count)))"
    using memset_table [OF b(1,2) pm, of m1 t, folded mz_def] m2(1) [unfolded l]
    by (simp add: build_command_def Let_def m1_def [symmetric] ct s del: of_nat_mult)
  show thesis
  proof (rule that [OF c m1_def])
    fix a assume a: "a \<notin> region t (256 + 16 * (n - 1))"
    have "entry_bytes t 0 (n - 1) \<subseteq> entry_bytes t 0 n" by (rule entry_bytes_mono) simp_all
    with a sub have "a \<notin> entry_bytes t 0 (n - 1)" by blast
    with m2(2) have "m2 a = mz a" by simp
    with a show "m2 a = m1 a" by (simp add: mz_def)
  next
    fix k assume "k < n - 1"
    then show "get_dba m2 (prdt_entry t (of_nat k)) = buf + 8192 * of_nat k \<and>
       get_dbc m2 (prdt_entry t (of_nat k)) = 8192" using m2(3) by simp
  qed
qed

lemma header_cong:
  assumes "\<And>a. a \<in> region h 32 \<Longrightarrow> m' a = m a"
  shows "get_w m' h = get_w m h" "get_cfl m' h = get_cfl m h" "get_prdtl m' h = get_prdtl m h"
    "get_ctba m' h = get_ctba m h"
  using assms [of h] f16.field_cong [of 2 32 h m' m] f64.field_cong [of 8 32 h m' m] assms
  by (simp_all add: get_w_def get_cfl_def get_prdtl_def get_ctba_def region_def [of h 32])

lemma last_sectors_bounds: "0 < last_sectors count" "last_sectors count \<le> 16"
  by (simp_all add: last_sectors_def Suc_le_eq)

lemma last_dbc: "unat ((of_nat (512 * last_sectors count) :: u32) AND 0x3FFFFF) = 512 * last_sectors count"
proof -
  have c: "0x3FFFFF = (mask 22 :: u32)" by (simp add: mask_eq_exp_minus_1)
  have "512 * last_sectors count < 2 ^ 22" using last_sectors_bounds(2) [of count] by simp
  then show ?thesis unfolding c take_bit_eq_mask [symmetric] unsigned_take_bit_eq
    by (simp add: take_bit_eq_mod unat_of_nat del: of_nat_mult)
qed

lemma command_entries:
  assumes "0 < n" "n < 65536"
    and "\<And>k. k < n - 1 \<Longrightarrow> get_dba m (prdt_entry t (of_nat k)) = buf + 8192 * of_nat k \<and>
       get_dbc m (prdt_entry t (of_nat k)) = 8192"
    and "m' = setup_fis (fill_prdt m (prdt_entry t (of_nat (n - 1))) (buf + 8192 * of_nat (n - 1))
         (of_nat (512 * last_sectors count))) t command startl starth c"
    and "k < n"
  shows "get_dba m' (prdt_entry t (of_nat k)) = buf + 8192 * of_nat k \<and>
       unat (get_dbc m' (prdt_entry t (of_nat k))) = (if k = n - 1 then 512 * last_sectors count else 8192)"
proof -
  let ?f = "fill_prdt m (prdt_entry t (of_nat (n - 1))) (buf + 8192 * of_nat (n - 1)) (of_nat (512 * last_sectors count))"
  let ?e = "prdt_entry t (of_nat k)"
  have e: "region (prdt_entry t (of_nat j)) 16 = entry_bytes t j (Suc j)" if "j < n" for j
    using that assms(2) by (intro entry_region) simp
  have f: "m' a = ?f a" if "a \<in> region ?e 16" for a
    using that unfolding assms(4) e [OF assms(5)]
    by (intro setup_fis_outside) (auto simp: region_def entry_bytes_def)
  show ?thesis
  proof (cases "k = n - 1")
    case True
    then show ?thesis using dba_cong [OF f] dbc_cong [OF f] by (simp add: fill_prdt_dba fill_prdt_dbc last_dbc del: of_nat_mult)
  next
    case False
    then have k: "k < n - 1" using assms(5) by simp
    have "n - 1 < n" using assms(1) by simp
    have "a \<notin> region (prdt_entry t (of_nat (n - 1))) 16" if "a \<in> region ?e 16" for a
      using that k unfolding e [OF assms(5)] e [OF \<open>n - 1 < n\<close>] by (auto simp: entry_bytes_def)
    then have "?f a = m a" if "a \<in> region ?e 16" for a using that by (intro fill_prdt_outside)
    with f have "m' a = m a" if "a \<in> region ?e 16" for a using that by simp
    from dba_cong [OF this] dbc_cong [OF this] assms(3) [OF k] False show ?thesis by simp
  qed
qed

lemma sectors_sum:
  assumes "0 < count" "count \<le> 0xFFFF0" "n = prdt_count count"
  shows "(\<Sum>k < n. if k = n - 1 then 512 * last_sectors count else 8192) = 512 * unat count"
proof -
  have n: "n = Suc (n - 1)" using prdt_count_bounds(1) [OF assms(1,2)] assms(3) by simp
  have "(\<Sum>k < n - 1. if k = n - 1 then 512 * last_sectors count else 8192) = 8192 * (n - 1)"
    by simp
  then show ?thesis
    using prdt_count_bounds(3) [OF assms(1,2)] unfolding assms(3) [symmetric]
    by (subst n) (simp only: sum.lessThan_Suc, simp)
qed

subsection \<open>The memory layout that \<open>port_rebase\<close> sets up\<close>

definition cmd_list :: "nat \<Rightarrow> u64" where "cmd_list p = AHCI_BASE + of_nat (1024 * p)"
definition cmd_tables :: "nat \<Rightarrow> u64" where "cmd_tables p = AHCI_BASE + of_nat (40960 + 8192 * p)"

abbreviation cmd_hdr :: "nat \<Rightarrow> nat \<Rightarrow> u64" where "cmd_hdr p i \<equiv> cmd_list p + of_nat (32 * i)"
abbreviation cmd_tbl :: "nat \<Rightarrow> nat \<Rightarrow> u64" where "cmd_tbl p i \<equiv> cmd_tables p + of_nat (256 * i)"

lemma layout_unat:
  assumes "p < 32"
  shows "unat (cmd_list p) = 0x800000 + 1024 * p" "unat (cmd_tables p) = 0x80A000 + 8192 * p"
proof -
  have "cmd_list p = of_nat (0x800000 + 1024 * p)" "cmd_tables p = of_nat (0x80A000 + 8192 * p)"
    by (simp_all add: cmd_list_def cmd_tables_def)
  with assms show "unat (cmd_list p) = 0x800000 + 1024 * p" "unat (cmd_tables p) = 0x80A000 + 8192 * p"
    by (simp_all only: unat_of_nat) simp_all
qed

lemma lists_tables_apart:
  assumes "p < 32" "n \<le> 0x100000"
  shows "region (cmd_list p) 1024 \<inter> region (cmd_tables p) n = {}"
  using layout_unat [OF assms(1)] assms by (subst Int_commute, intro region_disjoint) simp_all

lemma hdr_sub: "i < 32 \<Longrightarrow> region (cmd_hdr p i) 32 \<subseteq> region (cmd_list p) 1024"
  by (rule region_sub) simp_all

lemma tbl_sub: "256 * i + n \<le> k \<Longrightarrow> k \<le> 2 ^ 64 \<Longrightarrow> region (cmd_tbl p i) n \<subseteq> region (cmd_tables p) k"
  by (rule region_sub) simp_all

lemma header_fields:
  "get_prdtl (set_ctba (set_prdtl m h n) h t) h = n" "get_ctba (set_ctba m h t) h = t"
proof -
  have "region (h + of_nat 2) 2 \<inter> region (h + of_nat 8) 8 = {}"
    by (auto simp: region_offset simp del: of_nat_numeral)
  then have "get_prdtl (set_ctba m h t) h = get_prdtl m h" for m
    unfolding get_prdtl_def set_ctba_def using f16.rd_apart [of "h + 2" "region (h + 8) 8" "wr64 m (h + 8) t" m]
    by (simp add: f64.wr_outside)
  then show "get_prdtl (set_ctba (set_prdtl m h n) h t) h = n" by (simp add: set_prdtl_get)
  show "get_ctba (set_ctba m h t) h = t" by (simp add: get_ctba_def set_ctba_def rd64_wr64)
qed

lemma header_written:
  "a \<notin> region h 32 \<Longrightarrow> set_ctba (set_prdtl m h n) h t a = m a"
  using f16.field_outside [of 2 32 a h m n] f64.field_outside [of 8 32 a h _ t]
  by (simp add: set_ctba_def set_prdtl_def)

lemma rebase_headers_spec:
  assumes "p < 32" "i \<le> 32"
  shows "\<exists>m'. rebase_headers m (cmd_list p) (of_nat p) i = Some m' \<and>
    (\<forall>k. i \<le> k \<longrightarrow> k < 32 \<longrightarrow> get_prdtl m' (cmd_hdr p k) = 8 \<and> get_ctba m' (cmd_hdr p k) = cmd_tbl p k) \<and>
    (\<forall>a. a \<notin> region (cmd_tables p) 8192 \<longrightarrow>
       a \<notin> region (cmd_list p) 1024 \<or> unat (a - cmd_list p) < 32 * i \<longrightarrow> m' a = m a)"
  using assms(2)
proof (induction "32 - i" arbitrary: i m)
  case 0
  then have "i = 32" by simp
  then show ?case by (subst rebase_headers.simps) simp
next
  case (Suc d)
  then have i: "i < 32" by simp
  let ?h = "cmd_hdr p i" and ?t = "cmd_tbl p i"
  define m1 where "m1 = set_ctba (set_prdtl m ?h 8) ?h ?t"
  define m2 where "m2 = (\<lambda>a. if a \<in> region ?t 256 then 0 else m1 a)"
  have c1: "get_ctba m1 ?h = ?t" "get_prdtl m1 ?h = 8" unfolding m1_def by (rule header_fields)+
  have "AHCI_BASE + push_bit 10 40 + push_bit 13 (of_nat p) + push_bit 8 (of_nat i) = ?t"
    by (simp add: cmd_tables_def push_bit_eq_mult)
  moreover have "memset m1 ?t 0 256 = Some m2" using memset_spec [of 256 m1 ?t 0] by (simp add: m2_def cong: if_cong)
  ultimately have step: "rebase_headers m (cmd_list p) (of_nat p) i = rebase_headers m2 (cmd_list p) (of_nat p) (i + 1)"
    using i c1(1) by (subst rebase_headers.simps) (simp add: m1_def Let_def)
  have dd: "d = 32 - (i + 1)" "i + 1 \<le> 32" using Suc by simp_all
  obtain m' where m': "rebase_headers m2 (cmd_list p) (of_nat p) (i + 1) = Some m'"
    "\<forall>k. i + 1 \<le> k \<longrightarrow> k < 32 \<longrightarrow> get_prdtl m' (cmd_hdr p k) = 8 \<and> get_ctba m' (cmd_hdr p k) = cmd_tbl p k"
    "\<forall>a. a \<notin> region (cmd_tables p) 8192 \<longrightarrow>
       a \<notin> region (cmd_list p) 1024 \<or> unat (a - cmd_list p) < 32 * (i + 1) \<longrightarrow> m' a = m2 a"
    using Suc.hyps(1) [OF dd, of m2] by (elim exE conjE)
  have ap: "region (cmd_list p) 1024 \<inter> region (cmd_tables p) 8192 = {}" by (rule lists_tables_apart [OF assms(1)]) simp
  have ts: "region ?t 256 \<subseteq> region (cmd_tables p) 8192" using i by (intro tbl_sub) simp_all
  have hs: "a \<in> region (cmd_list p) 1024 \<and> unat (a - cmd_list p) < 32 * (i + 1) \<and> \<not> unat (a - cmd_list p) < 32 * i"
    if "a \<in> region ?h 32" for a
    using that i hdr_sub [OF i, of p] region_offset [of "32 * i" 32 a "cmd_list p"] by auto
  have own: "m' a = m1 a" if "a \<in> region ?h 32" for a
  proof -
    have n: "a \<notin> region (cmd_tables p) 8192" using hs [OF that] ap by blast
    then have "m' a = m2 a" using m'(3) hs [OF that] by blast
    with n ts show ?thesis by (auto simp: m2_def)
  qed
  have "get_prdtl m' ?h = 8 \<and> get_ctba m' ?h = ?t"
    using header_cong(3) [of ?h m' m1, OF own] header_cong(4) [of ?h m' m1, OF own] c1 by simp
  then have f: "\<forall>k. i \<le> k \<longrightarrow> k < 32 \<longrightarrow> get_prdtl m' (cmd_hdr p k) = 8 \<and> get_ctba m' (cmd_hdr p k) = cmd_tbl p k"
    using m'(2) by (metis Suc_eq_plus1 Suc_leI le_neq_implies_less)
  have "m' a = m a" if "a \<notin> region (cmd_tables p) 8192" "a \<notin> region (cmd_list p) 1024 \<or> unat (a - cmd_list p) < 32 * i" for a
  proof -
    have "a \<notin> region ?h 32" using hs [of a] that by blast
    moreover have "m' a = m2 a" using m'(3) that by auto
    ultimately show ?thesis using that(1) ts by (auto simp: m2_def m1_def header_written)
  qed
  with f m'(1) step show ?case by auto
qed

text \<open>So every slot of a rebased port has a table of its own that is apart from the headers: the set-up of a
  command for up to 128 sectors, the eight descriptors that fit the table, meets its conditions.\<close>

lemma rebased_slot_ready:
  assumes "p < 32" "i < 32" "get_ctba m (cmd_hdr p i) = cmd_tbl p i" "0 < count" "count \<le> 128"
  shows "region (cmd_hdr p i) 32 \<inter> region (get_ctba m (cmd_hdr p i)) (256 + 16 * (prdt_count count - 1)) = {}"
proof -
  have "unat count \<le> 128" using assms(5) by (simp add: word_le_nat_alt)
  then have "prdt_count count \<le> 8" by (simp add: prdt_count_def)
  then have "256 * i + (256 + 16 * (prdt_count count - 1)) \<le> 0x100000" using assms(2) by simp
  then have "region (cmd_tbl p i) (256 + 16 * (prdt_count count - 1)) \<subseteq> region (cmd_tables p) 0x100000"
    by (rule tbl_sub) simp
  moreover have "region (cmd_list p) 1024 \<inter> region (cmd_tables p) 0x100000 = {}" by (rule lists_tables_apart [OF assms(1)]) simp
  ultimately show ?thesis using hdr_sub [OF assms(2), of p] unfolding assms(3) by blast
qed

subsection \<open>Slots and waiting\<close>

text \<open>The slot chosen is the least one below the limit that is neither active nor issued.\<close>

lemma free_slot_spec:
  "free_slot slots n i = Some j \<longleftrightarrow> i \<le> j \<and> j < n \<and> \<not> bit slots (j - i) \<and> (\<forall>k. i \<le> k \<longrightarrow> k < j \<longrightarrow> bit slots (k - i))"
proof (induction slots n i rule: free_slot.induct)
  case (1 slots n i)
  have b: "slots AND 1 = 0 \<longleftrightarrow> \<not> bit slots 0" by (simp add: and_one_eq even_iff_mod_2_eq_zero bit_0)
  have s: "bit (drop_bit 1 slots) (k - (i + 1)) = bit slots (k - i)" if "i < k" for k
    using that by (simp add: bit_drop_bit_eq Suc_diff_Suc)
  show ?case
  proof (cases "i < n \<and> bit slots 0")
    case True
    have "free_slot slots n i = Some j \<longleftrightarrow> i + 1 \<le> j \<and> j < n \<and> \<not> bit (drop_bit 1 slots) (j - (i + 1)) \<and>
       (\<forall>k. i + 1 \<le> k \<longrightarrow> k < j \<longrightarrow> bit (drop_bit 1 slots) (k - (i + 1)))"
      using 1 True by (subst free_slot.simps) (simp add: b)
    also have "\<dots> \<longleftrightarrow> i < j \<and> j < n \<and> \<not> bit slots (j - i) \<and> (\<forall>k. i < k \<longrightarrow> k < j \<longrightarrow> bit slots (k - i))"
      using s by (auto simp: Suc_le_eq)
    finally show ?thesis using True by (metis diff_self_eq_0 le_neq_implies_less less_or_eq_imp_le)
  next
    case False
    then show ?thesis by (subst free_slot.simps) (auto simp: b)
  qed
qed

lemma spin_loop_bound: "spin \<le> 1000000 \<Longrightarrow> fst (spin_loop b port spin s) \<le> 1000000"
proof (induction b port spin s rule: spin_loop.induct)
  case (1 b port spin s)
  obtain v s' where g: "get_reg b port Tfd s = (v, s')" by fastforce
  let ?go = "v AND (0x80 OR 0x08) \<noteq> 0 \<and> spin < 1000000"
  have s: "spin_loop b port spin s = (if ?go then spin_loop b port (spin + 1) s' else (spin, s'))"
    by (subst spin_loop.simps) (simp only: g prod.case Let_def)
  show ?case
  proof (cases ?go)
    case True
    then have "spin + 1 \<le> 1000000" by simp
    from 1(1) [OF g [symmetric] refl True this] show ?thesis unfolding s if_P [OF True] .
  next
    case False
    then show ?thesis unfolding s if_not_P [OF False] using 1(2) by simp
  qed
qed

text \<open>The global \<open>abar\<close> is never assigned: every transfer dereferences a null pointer.\<close>

lemma abar_kept [simp]:
  "abar (on_dev f s) = abar s" "abar (snd (from_dev g s)) = abar s"
  by (simp_all add: on_dev_def from_dev_def split: prod.splits)

lemma get_reg_abar: "get_reg b port r s = (v, s') \<Longrightarrow> abar s' = abar s"
  by (metis abar_kept(2) get_reg_def snd_conv)

lemma find_cmdslot_null:
  assumes "abar s = None"
  shows "find_cmdslot b port s = None"
proof -
  obtain sact s1 where g1: "get_reg b port Sact s = (sact, s1)" by fastforce
  obtain ci s2 where g2: "get_reg b port Ci s1 = (ci, s2)" by fastforce
  have "abar s2 = None" using get_reg_abar [OF g1] get_reg_abar [OF g2] assms by simp
  then show ?thesis by (simp only: find_cmdslot_def Let_def g1 g2 prod.case bind.simps)
qed

lemma transfer_null:
  assumes "abar s = None"
  shows "transfer w command err b port startl starth count buf s = None"
proof -
  have "abar (put_reg b port Is_rwc (- 1) s) = None" using assms by (simp add: put_reg_def)
  from find_cmdslot_null [OF this] show ?thesis by (simp only: transfer_def Let_def bind.simps)
qed


definition demo_ram :: bytes where "demo_ram = set_ctba (\<lambda>_. 0) 0x800000 0x80A000"


end
