(* ===== verification/Sbush.thy ===== *)
theory Sbush
  imports Libc
begin

unbundle bit_operations_syntax

text \<open>
  The user programs: the shell \<^verbatim>\<open>bin/sbush/sbush.c\<close> and the utilities \<^verbatim>\<open>bin/ls\<close>, \<^verbatim>\<open>bin/cat\<close>,
  \<^verbatim>\<open>bin/echo\<close>, \<^verbatim>\<open>bin/ps\<close> and \<^verbatim>\<open>bin/kill\<close>. The addresses of the global arrays, of the local ones
  and of the string literals are parameters (\<open>shell\<close>); the arrays themselves are bytes of the memory, so
  a row that is overrun runs into the next one.
\<close>

record shell =
  arglist :: u64
  ipCommand :: u64
  s_cwd :: u64
  commands :: u64
  tempecho :: u64
  tempcat :: u64
  shellbuf :: u64
  shellcommands :: u64
  cdcwd :: u64
  tempcwd :: u64
  m_cwd :: u64
  sh_loc :: u64
  lit :: "string \<Rightarrow> u64"

definition arg_row :: "shell \<Rightarrow> nat \<Rightarrow> u64" where "arg_row sh i = arglist sh + of_nat (64 * i)"
definition cmd_row :: "shell \<Rightarrow> nat \<Rightarrow> u64" where "cmd_row sh i = commands sh + of_nat (100 * i)"
definition shell_row :: "shell \<Rightarrow> nat \<Rightarrow> u64" where "shell_row sh i = shellcommands sh + of_nat (100 * i)"

definition with_mem :: "(bytes \<Rightarrow> bytes option) \<Rightarrow> sysstate \<Rightarrow> sysstate option" where
  "with_mem f s = do { m \<leftarrow> f (umemory s); Some (set_umemory m s) }"

text \<open>\<open>strcmp(a, "...") == 0 || ...\<close>, from left to right.\<close>

primrec is_lit :: "shell \<Rightarrow> bytes \<Rightarrow> u64 \<Rightarrow> string list \<Rightarrow> bool option" where
  "is_lit sh m a [] = Some False"
| "is_lit sh m a (l # ls) = do {
     c \<leftarrow> strcmp m a (lit sh l);
     if c = 0 then Some True else is_lit sh m a ls }"

subsection \<open>Clearing and splitting the line\<close>

definition clearip :: "shell \<Rightarrow> bytes \<Rightarrow> bytes option" where
  "clearip sh m = do {
     m \<leftarrow> memset m (tempcat sh) 0 64;
     m \<leftarrow> memset m (ipCommand sh) 0 128;
     m \<leftarrow> for_each (\<lambda>i m. do {
       m \<leftarrow> memset m (cmd_row sh i) 0 100;
       memset m (arg_row sh i) 0 64 }) [0..<10] m;
     m \<leftarrow> for_each (\<lambda>i m. memset m (shell_row sh i) 0 100) [0..<10] m;
     memset m (s_cwd sh) 0 128 }"

partial_function (option) line_loop :: "bytes \<Rightarrow> u64 \<Rightarrow> u64 \<Rightarrow> nat \<Rightarrow> nat \<Rightarrow> (bytes \<times> nat \<times> nat) option" where
  "line_loop m buf row sj sk =
     (if m (buf + of_nat sj) \<noteq> 10
      then line_loop (m(row + of_nat sk := m (buf + of_nat sj))) buf row (sj + 1) (sk + 1)
      else Some (m, sj, sk))"

partial_function (option) shellparser_loop :: "shell \<Rightarrow> bytes \<Rightarrow> nat \<Rightarrow> nat \<Rightarrow> (bytes \<times> nat) option" where
  "shellparser_loop sh m si sp = do {
     len \<leftarrow> strlen m (arg_row sh 1);
     if int si < sint len then do {
       (m, sj, sk) \<leftarrow> line_loop m (shellbuf sh) (shell_row sh sp) si 0;
       shellparser_loop sh (m(shell_row sh sp + of_nat sk := 0)) (sj + 1) (sp + 1) }
     else Some (m, sp) }"

definition shellparser :: "shell \<Rightarrow> bytes \<Rightarrow> (bytes \<times> nat) option" where
  "shellparser sh m = shellparser_loop sh m 0 0"

definition word_char :: "u8 \<Rightarrow> bool" where "word_char c \<longleftrightarrow> c \<noteq> 0 \<and> c \<noteq> 10 \<and> c \<noteq> 32"

partial_function (option) word_loop :: "bytes \<Rightarrow> u64 \<Rightarrow> u64 \<Rightarrow> nat \<Rightarrow> nat \<Rightarrow> (bytes \<times> nat \<times> nat) option" where
  "word_loop m ip row j k =
     (if word_char (m (ip + of_nat j))
      then word_loop (m(row + of_nat k := m (ip + of_nat j))) ip row (j + 1) (k + 1)
      else Some (m, j, k))"

partial_function (option) tokenize :: "shell \<Rightarrow> bytes \<Rightarrow> nat \<Rightarrow> nat \<Rightarrow> (bytes \<times> nat) option" where
  "tokenize sh m i n = do {
     len \<leftarrow> strlen m (ipCommand sh);
     if int i < sint len then do {
       (m, j, k) \<leftarrow> word_loop m (ipCommand sh) (cmd_row sh n) i 0;
       tokenize sh (m(cmd_row sh n + of_nat k := 0)) (j + 1) (n + 1) }
     else Some (m, n) }"

definition command_name :: "shell \<Rightarrow> bytes \<Rightarrow> u64 \<Rightarrow> u64 option" where
  "command_name sh m c = do {
     b \<leftarrow> is_lit sh m c [''/bin/ls'', ''ls''];
     if b then Some (lit sh ''ls'') else do {
     b \<leftarrow> is_lit sh m c [''/bin/cat'', ''cat''];
     if b then Some (lit sh ''cat'') else do {
     b \<leftarrow> is_lit sh m c [''/bin/echo'', ''echo''];
     if b then Some (lit sh ''echo'') else do {
     b \<leftarrow> is_lit sh m c [''/bin/ps'', ''ps''];
     if b then Some (lit sh ''ps'') else do {
     b \<leftarrow> is_lit sh m c [''/bin/kill'', ''kill''];
     if b then Some (lit sh ''kill'') else Some c } } } } }"

definition set_arg :: "shell \<Rightarrow> nat \<Rightarrow> bytes \<Rightarrow> bytes option" where
  "set_arg sh i m = do {
     m \<leftarrow> memset m (arg_row sh i) 0 100;
     src \<leftarrow> command_name sh m (cmd_row sh i);
     map_option snd (strcpy m (arg_row sh i) src) }"

definition parse_command :: "shell \<Rightarrow> bytes \<Rightarrow> (bytes \<times> nat) option" where
  "parse_command sh m = do {
     (m, n) \<leftarrow> tokenize sh m 0 0;
     m \<leftarrow> for_each (set_arg sh) [0..<n] m;
     Some (m, n) }"

subsection \<open>Running a command\<close>

definition cd :: "shell \<Rightarrow> env \<Rightarrow> u64 \<Rightarrow> sysstate \<Rightarrow> sysstate option" where
  "cd sh e path s = do {
     (_, s) \<leftarrow> getcwd e (cdcwd sh) 128 s;
     b \<leftarrow> is_lit sh (umemory s) path ['''', ''..''];
     if b then changedir e (lit sh '''') s
     else do {
       s \<leftarrow> with_mem (\<lambda>m. map_option snd (strcpy m (tempcwd sh) (cdcwd sh))) s;
       s \<leftarrow> with_mem (\<lambda>m. strcat m (tempcwd sh) path) s;
       (i, s) \<leftarrow> chdir e (tempcwd sh) s;
       if i \<noteq> 0 then changedir e (tempcwd sh) s else Some s } }"

partial_function (option) echo_loop :: "shell \<Rightarrow> bytes \<Rightarrow> nat \<Rightarrow> (bytes \<times> nat) option" where
  "echo_loop sh m i = do {
     len \<leftarrow> strlen m (ipCommand sh);
     if int i < sint len - 4
     then echo_loop sh (m(tempecho sh + of_nat i := m (ipCommand sh + of_nat (i + 4)))) (i + 1)
     else Some (m, i) }"

definition run_echo :: "shell \<Rightarrow> env \<Rightarrow> sysstate \<Rightarrow> sysstate option" where
  "run_echo sh e s = do {
     len \<leftarrow> strlen (umemory s) (ipCommand sh);
     if sint len > 4 then do {
       s \<leftarrow> with_mem (\<lambda>m. do {
         m \<leftarrow> memset m (tempecho sh) 0 1024;
         (m, i) \<leftarrow> echo_loop sh m 0;
         let m = m(tempecho sh + of_nat i := 0);
         map_option snd (strcpy m (arg_row sh 0) (tempecho sh)) }) s;
       map_option snd (execve e (lit sh ''bin/echo'') (arglist sh) 0 s) }
     else Some s }"

definition run_exec :: "shell \<Rightarrow> env \<Rightarrow> string \<Rightarrow> sysstate \<Rightarrow> sysstate option" where
  "run_exec sh e prog s = map_option snd (execve e (lit sh prog) (arglist sh) 0 s)"

definition run_kill :: "shell \<Rightarrow> env \<Rightarrow> sysstate \<Rightarrow> sysstate option" where
  "run_kill sh e s = do {
     b \<leftarrow> is_lit sh (umemory s) (arg_row sh 1) [''-9''];
     if b then run_exec sh e ''bin/kill'' s else Some s }"

text \<open>\<open>printf("%s,", shellbuf[d])\<close> passes the character itself where a pointer is expected.\<close>

definition run_script :: "shell \<Rightarrow> env \<Rightarrow> sysstate \<Rightarrow> sysstate option" where
  "run_script sh e s = do {
     (m, sp) \<leftarrow> shellparser sh (umemory s);
     for_each (\<lambda>d s.
       printf e (sh_loc sh) (lit sh ''%s,'') [ucast (scast (umemory s (shellbuf sh + of_nat d)) :: u32)] s)
       [0..<sp] (set_umemory m s) }"

text \<open>One of the tests of the child: run \<open>f\<close> when the command is \<open>name\<close>.\<close>

definition when_cmd :: "shell \<Rightarrow> string \<Rightarrow> (sysstate \<Rightarrow> sysstate option) \<Rightarrow> sysstate \<Rightarrow> sysstate option" where
  "when_cmd sh name f s = do {
     b \<leftarrow> is_lit sh (umemory s) (arg_row sh 0) [name];
     if b then f s else Some s }"

definition run_child :: "shell \<Rightarrow> env \<Rightarrow> sysstate \<Rightarrow> sysstate option" where
  "run_child sh e s = do {
     s \<leftarrow> when_cmd sh ''ls'' (run_exec sh e ''bin/ls'') s;
     s \<leftarrow> when_cmd sh ''echo'' (run_echo sh e) s;
     s \<leftarrow> when_cmd sh ''cat'' (run_exec sh e ''bin/cat'') s;
     s \<leftarrow> when_cmd sh ''ps'' (run_exec sh e ''bin/ps'') s;
     s \<leftarrow> when_cmd sh ''kill'' (run_kill sh e) s;
     b \<leftarrow> is_lit sh (umemory s) (arg_row sh 0) [''sh''];
     if b then run_script sh e s
     else map_option snd (execve e (arg_row sh 0) (arglist sh) 0 s) }"

definition executeCommand :: "shell \<Rightarrow> env \<Rightarrow> sysstate \<Rightarrow> sysstate option" where
  "executeCommand sh e s = do {
     b \<leftarrow> is_lit sh (umemory s) (arg_row sh 0) [''cd''];
     if b then cd sh e (arg_row sh 1) s
     else do {
       b \<leftarrow> is_lit sh (umemory s) (arg_row sh 0) [''ls'', ''cat'', ''echo'', ''sh'', ''ps'', ''kill''];
       if b then do {
         (p, s) \<leftarrow> fork e s;
         if p \<noteq> 0 then map_option snd (waitpid e p 0 0 s) else run_child sh e s }
       else Some s } }"

definition performCommand :: "shell \<Rightarrow> env \<Rightarrow> sysstate \<Rightarrow> sysstate option" where
  "performCommand sh e s = do {
     (m, n) \<leftarrow> parse_command sh (umemory s);
     executeCommand sh e (set_umemory m s) }"

definition prompt :: "shell \<Rightarrow> env \<Rightarrow> sysstate \<Rightarrow> sysstate option" where
  "prompt sh e s = do {
     (_, s) \<leftarrow> getcwd e (m_cwd sh) 128 s;
     len \<leftarrow> strlen (umemory s) (m_cwd sh);
     s \<leftarrow> (if len = 0 then printf e (sh_loc sh) (lit sh ''~'') [] s else Some s);
     printf e (sh_loc sh) (lit sh ''%s>'') [m_cwd sh] s }"

definition shell_turn :: "shell \<Rightarrow> env \<Rightarrow> sysstate \<Rightarrow> sysstate option" where
  "shell_turn sh e s = do {
     s \<leftarrow> with_mem (clearip sh) s;
     s \<leftarrow> prompt sh e s;
     (_, s) \<leftarrow> gets e (ipCommand sh) s;
     b \<leftarrow> is_lit sh (umemory s) (ipCommand sh) [''help''];
     s \<leftarrow> (if b then do {
             (_, s) \<leftarrow> catfiles e (lit sh ''etc/README.txt'') 1 s;
             printf e (sh_loc sh) (lit sh ''\<newline>'') [] s }
           else Some s);
     performCommand sh e s }"

partial_function (option) shell_loop :: "shell \<Rightarrow> env \<Rightarrow> sysstate \<Rightarrow> sysstate option" where
  "shell_loop sh e s = do {
     s \<leftarrow> shell_turn sh e s;
     b \<leftarrow> is_lit sh (umemory s) (ipCommand sh) [''exit''];
     if b then Some s else shell_loop sh e s }"

text \<open>The state in which \<open>main\<close> enters its final endless loop.\<close>

definition sbush_main :: "shell \<Rightarrow> env \<Rightarrow> sysstate \<Rightarrow> sysstate option" where
  "sbush_main sh e s = do {
     s \<leftarrow> printf e (sh_loc sh) (lit sh ''..............Welcome to F E R D O S............\<newline>'') [] s;
     s \<leftarrow> printf e (sh_loc sh) (lit sh ''Type \"help\" if you want help.\<newline>'') [] s;
     s \<leftarrow> shell_loop sh e s;
     printf e (sh_loc sh) (lit sh ''\<newline>Exiting SBUSH... Stuck on While loop'') [] s }"

subsection \<open>The utilities\<close>

text \<open>\<open>temp\<close> and \<open>dir\<close> are the addresses of the local arrays. An argument that is missing is a null pointer.\<close>

definition nth_arg :: "u64 list \<Rightarrow> nat \<Rightarrow> u64 option" where
  "nth_arg argv i = (if i < length argv then Some (argv ! i) else None)"

definition ls_main :: "u64 \<Rightarrow> u64 \<Rightarrow> env \<Rightarrow> u32 \<Rightarrow> u64 list \<Rightarrow> sysstate \<Rightarrow> sysstate option" where
  "ls_main dir temp e argc argv s = do {
     (_, s) \<leftarrow> getcwd e dir 128 s;
     src \<leftarrow> (if sint argc \<ge> 2 then nth_arg argv 1 else Some dir);
     s \<leftarrow> with_mem (\<lambda>m. map_option snd (strcpy m temp src)) s;
     map_option snd (listfiles e temp 1 s) }"

definition cat_main :: "shell \<Rightarrow> u64 \<Rightarrow> u64 \<Rightarrow> env \<Rightarrow> u32 \<Rightarrow> u64 list \<Rightarrow> sysstate \<Rightarrow> sysstate option" where
  "cat_main sh dir fileContent e argc argv s = do {
     (_, s) \<leftarrow> getcwd e dir 128 s;
     arg \<leftarrow> nth_arg argv 1;
     s \<leftarrow> with_mem (\<lambda>m. strcat m dir arg) s;
     (fd, s) \<leftarrow> open_file e dir 1 s;
     (_, s) \<leftarrow> read e fd fileContent 1024 s;
     printf e (sh_loc sh) (lit sh ''%s'') [fileContent] s }"

definition echo_main :: "shell \<Rightarrow> u64 \<Rightarrow> env \<Rightarrow> u32 \<Rightarrow> u64 list \<Rightarrow> sysstate \<Rightarrow> sysstate option" where
  "echo_main sh temp e argc argv s = do {
     src \<leftarrow> (if sint argc \<ge> 2 then nth_arg argv 1 else Some (lit sh '' ''));
     s \<leftarrow> with_mem (\<lambda>m. map_option snd (strcpy m temp src)) s;
     arg \<leftarrow> nth_arg argv 0;
     s \<leftarrow> with_mem (\<lambda>m. map_option snd (strcpy m temp arg)) s;
     map_option snd (echofiles e temp 1 s) }"

definition ps_main :: "env \<Rightarrow> u32 \<Rightarrow> u64 list \<Rightarrow> sysstate \<Rightarrow> sysstate option" where
  "ps_main e argc argv s = ps e s"

definition kill_main :: "env \<Rightarrow> u32 \<Rightarrow> u64 list \<Rightarrow> sysstate \<Rightarrow> sysstate option" where
  "kill_main e argc argv s =
     (if sint argc \<ge> 3 then do {
        arg \<leftarrow> nth_arg argv 2;
        p \<leftarrow> str_to_int (umemory s) arg;
        if sint p > 0 then map_option snd (kill e p s) else Some s }
      else Some s)"

subsection \<open>The words of a line\<close>

function tokens :: "u8 list \<Rightarrow> u8 list list" where
  "tokens xs = (if xs = [] then [] else
     let w = takeWhile word_char xs in w # tokens (drop (Suc (length w)) xs))"
  by pat_completeness auto

termination tokens by (relation "measure length") (auto simp: Let_def)

declare tokens.simps [simp del]

lemma tokens_Nil [simp]: "tokens [] = []"
  by (simp add: tokens.simps)

lemma region_pred: "n < 2 ^ 64 \<Longrightarrow> x \<in> region (p + 1) n \<Longrightarrow> x \<in> region p (Suc n)"
  using region_tail [of n p] by blast

lemma word_loop_spec:
  assumes "cstr m (ip + of_nat j) ds" "w = takeWhile word_char ds"
    and "region (row + of_nat k) (length w) \<inter> region (ip + of_nat j) (Suc (length ds)) = {}"
  shows "word_loop m ip row j k = Some (blit m (row + of_nat k) w, j + length w, k + length w)"
  using assms
proof (induction ds arbitrary: m j k w)
  case Nil
  then have "m (ip + of_nat j) = 0" by (simp add: cstr_Nil)
  with Nil show ?case by (subst word_loop.simps) (simp add: word_char_def)
next
  case (Cons c ds)
  have c: "m (ip + of_nat j) = c" and t: "cstr m (ip + of_nat (Suc j)) ds"
    using Cons.prems(1) by (simp_all add: cstr_Cons ac_simps)
  show ?case
  proof (cases "word_char c")
    case False
    with Cons.prems(2) c show ?thesis by (subst word_loop.simps) simp
  next
    case True
    let ?w = "takeWhile word_char ds"
    let ?m = "m(row + of_nat k := c)"
    have w: "w = c # ?w" using True Cons.prems(2) by simp
    have l: "length ds < 2 ^ 64 - 1" "length ?w \<le> length ds"
      using cstr_length [OF Cons.prems(1)] by (simp_all add: length_takeWhile_le)
    have d: "a \<notin> region (ip + of_nat (Suc j)) (Suc (length ds))"
      if "a = row + of_nat k \<or> a \<in> region (row + of_nat (Suc k)) (length ?w)" for a
    proof -
      have "a \<in> region (row + of_nat k) (length w)"
        using that l region_Suc [of "length ?w" "row + of_nat k"] unfolding w by (auto simp: ac_simps)
      then have "a \<notin> region (ip + of_nat j) (Suc (Suc (length ds)))" using Cons.prems(3) by auto
      then show ?thesis using l region_pred [of "Suc (length ds)" a "ip + of_nat j"] by (auto simp: ac_simps)
    qed
    have "word_loop ?m ip row (Suc j) (Suc k) =
      Some (blit ?m (row + of_nat (Suc k)) ?w, Suc j + length ?w, Suc k + length ?w)"
    proof (rule Cons.IH [OF _ refl])
      show "cstr ?m (ip + of_nat (Suc j)) ds" by (rule cstr_upd [OF t]) (use d in blast)
      show "region (row + of_nat (Suc k)) (length ?w) \<inter> region (ip + of_nat (Suc j)) (Suc (length ds)) = {}"
        using d by blast
    qed
    moreover have "word_loop m ip row j k = word_loop ?m ip row (Suc j) (Suc k)"
      using True c by (subst word_loop.simps) simp
    moreover have "blit m (row + of_nat k) w = blit ?m (row + of_nat (Suc k)) ?w"
      unfolding w using blit_Cons [of ?w m "row + of_nat k" c] l by (simp add: ac_simps)
    ultimately show ?thesis by (simp add: w)
  qed
qed

lemma cmd_row_region:
  assumes "n < 10" "k \<le> 100"
  shows "a \<in> region (cmd_row sh n) k \<longleftrightarrow> 100 * n \<le> unat (a - commands sh) \<and> unat (a - commands sh) < 100 * n + k"
  unfolding cmd_row_def by (rule region_offset) (use assms in simp)

lemma cmd_row_sub: "n < 10 \<Longrightarrow> k \<le> 100 \<Longrightarrow> region (cmd_row sh n) k \<subseteq> region (commands sh) 1000"
  unfolding cmd_row_def by (rule region_sub) simp_all

lemma sint_length: "length xs < 2 ^ 31 \<Longrightarrow> sint (of_nat (length xs) :: u32) = int (length xs)"
  using sint_small [of "of_nat (length xs)"] by (simp add: unat_of_nat)

lemma takeWhile_nonzero: "0 \<notin> set (takeWhile word_char xs)"
  by (auto simp: word_char_def dest: set_takeWhileD)

lemma cmd_row_keeps:
  assumes "n < 10" "length w < 100" "a \<notin> region (commands sh) 1000 \<or> a \<in> region (commands sh) (100 * n)"
  shows "blit m (cmd_row sh n) (w @ [0]) a = m a"
  by (rule blit_outside) (use assms cmd_row_region [OF assms(1), of "Suc (length w)" a sh] in \<open>auto simp: region_def\<close>)

text \<open>One turn of the outer loop stores the next word in its row.\<close>

lemma tokenize_step:
  assumes "cstr m (ipCommand sh) xs" "length xs < 2 ^ 31" "i < length xs" "w = takeWhile word_char (drop i xs)"
    and "region (ipCommand sh) (Suc (length xs)) \<inter> region (commands sh) 1000 = {}" "n < 10" "length w < 100"
  shows "tokenize sh m i n = tokenize sh (blit m (cmd_row sh n) (w @ [0])) (i + length w + 1) (n + 1)"
proof -
  let ?row = "cmd_row sh n"
  have len: "strlen m (ipCommand sh) = Some (of_nat (length xs))" by (rule strlen_spec) fact
  have big: "length xs < 2 ^ 64" using assms(2) by simp
  have apart: "a \<notin> region ?row k" if "a \<in> region (ipCommand sh) (Suc (length xs))" "k \<le> 100" for a k
    using that assms(5) cmd_row_sub [OF assms(6) that(2)] by blast
  have src: "region (ipCommand sh + of_nat i) (Suc (length (drop i xs))) \<subseteq> region (ipCommand sh) (Suc (length xs))"
    using assms(3) big by (intro region_sub) simp_all
  have "word_loop m (ipCommand sh) ?row i 0 = Some (blit m ?row w, i + length w, length w)"
    using word_loop_spec [OF cstr_drop [OF assms(1)] refl, of i ?row 0] assms(3,4,7) src apart by fastforce
  moreover have "(blit m ?row w)(?row + of_nat (length w) := 0) = blit m ?row (w @ [0])"
    using blit_snoc [of w m ?row 0] assms(7) by simp
  ultimately show ?thesis using len sint_length [OF assms(2)] assms(3) by (subst tokenize.simps) simp
qed

lemma tokenize_spec:
  assumes "cstr m (ipCommand sh) xs" "length xs < 2 ^ 31" "ds = drop i xs"
    and "region (ipCommand sh) (Suc (length xs)) \<inter> region (commands sh) 1000 = {}"
    and "n + length (tokens ds) \<le> 10" "\<forall>w \<in> set (tokens ds). length w < 100"
  shows "\<exists>m'. tokenize sh m i n = Some (m', n + length (tokens ds)) \<and>
    (\<forall>k < length (tokens ds). cstr m' (cmd_row sh (n + k)) (tokens ds ! k)) \<and>
    (\<forall>a. a \<notin> region (commands sh) 1000 \<or> a \<in> region (commands sh) (100 * n) \<longrightarrow> m' a = m a)"
  using assms(1,3,5,6)
proof (induction ds arbitrary: m i n rule: tokens.induct)
  case (1 ds)
  show ?case
  proof (cases "ds = []")
    case True
    have len: "strlen m (ipCommand sh) = Some (of_nat (length xs))" by (rule strlen_spec) (rule "1.prems"(1))
    have "\<not> int i < int (length xs)" using True "1.prems"(2) by simp
    with True len sint_length [OF assms(2)] show ?thesis by (subst tokenize.simps) simp
  next
    case False
    let ?w = "takeWhile word_char ds" and ?row = "cmd_row sh n"
    let ?rest = "drop (Suc (length ?w)) ds"
    let ?m = "blit m ?row (?w @ [0])"
    have tk: "tokens ds = ?w # tokens ?rest" using False by (subst tokens.simps) (simp add: Let_def)
    have n: "n < 10" "length ?w < 100" using "1.prems"(3,4) by (simp_all add: tk)
    have step: "tokenize sh m i n = tokenize sh ?m (i + length ?w + 1) (n + 1)"
      by (rule tokenize_step [OF "1.prems"(1) assms(2) _ _ assms(4) n]) (use False "1.prems"(2) in simp_all)
    note keep = cmd_row_keeps [OF n, where sh = sh and m = m]
    have c: "cstr ?m (ipCommand sh) xs"
      by (rule cstr_cong [OF "1.prems"(1)]) (use assms(4) keep in blast)
    have r: "?rest = drop (i + length ?w + 1) xs" by (simp add: "1.prems"(2) add.commute)
    have p: "n + 1 + length (tokens ?rest) \<le> 10" "\<forall>w \<in> set (tokens ?rest). length w < 100"
      using "1.prems"(3,4) by (simp_all add: tk)
    obtain m' where m': "tokenize sh ?m (i + length ?w + 1) (n + 1) = Some (m', n + 1 + length (tokens ?rest))"
      "\<forall>k < length (tokens ?rest). cstr m' (cmd_row sh (n + 1 + k)) (tokens ?rest ! k)"
      "\<forall>a. a \<notin> region (commands sh) 1000 \<or> a \<in> region (commands sh) (100 * (n + 1)) \<longrightarrow> m' a = ?m a"
      using "1.IH" [OF False refl c r p] by (elim exE conjE)
    have "cstr m' ?row ?w"
    proof (rule cstr_cong)
      show "cstr ?m ?row ?w" using n(2) by (intro cstr_blit takeWhile_nonzero) simp
      fix a assume "a \<in> region ?row (Suc (length ?w))"
      then have "a \<in> region (commands sh) (100 * (n + 1))"
        using n cmd_row_region [OF n(1), of "Suc (length ?w)" a sh] by (auto simp: region_def)
      then show "m' a = ?m a" using m'(3) by blast
    qed
    then have "\<forall>k < length (tokens ds). cstr m' (cmd_row sh (n + k)) (tokens ds ! k)"
      using m'(2) by (auto simp: tk less_Suc_eq_0_disj)
    moreover have "m' a = m a" if "a \<notin> region (commands sh) 1000 \<or> a \<in> region (commands sh) (100 * n)" for a
      using that keep [of a] m'(3) by (auto simp: region_def)
    ultimately show ?thesis using m'(1) step by (auto simp: tk)
  qed
qed

subsection \<open>Normalised arguments\<close>

definition command_lits :: "string list" where
  "command_lits = [''/bin/ls'', ''ls'', ''/bin/cat'', ''cat'', ''/bin/echo'', ''echo'', ''/bin/ps'', ''ps'',
     ''/bin/kill'', ''kill'']"

definition norm_word :: "u8 list \<Rightarrow> u8 list" where
  "norm_word w =
     (if w = of_string ''/bin/ls'' \<or> w = of_string ''ls'' then of_string ''ls''
      else if w = of_string ''/bin/cat'' \<or> w = of_string ''cat'' then of_string ''cat''
      else if w = of_string ''/bin/echo'' \<or> w = of_string ''echo'' then of_string ''echo''
      else if w = of_string ''/bin/ps'' \<or> w = of_string ''ps'' then of_string ''ps''
      else if w = of_string ''/bin/kill'' \<or> w = of_string ''kill'' then of_string ''kill''
      else w)"

text \<open>The literals are in memory, and the line, the two tables and the literals do not overlap. The last
  row of \<open>arglist\<close> is cleared 36 bytes past the end of the array.\<close>

definition shell_layout :: "shell \<Rightarrow> bytes \<Rightarrow> u8 list \<Rightarrow> bool" where
  "shell_layout sh m xs \<longleftrightarrow>
     region (ipCommand sh) (Suc (length xs)) \<inter> region (commands sh) 1000 = {} \<and>
     region (arglist sh) 676 \<inter> region (commands sh) 1000 = {} \<and>
     (\<forall>l \<in> set command_lits. cstr m (lit sh l) (of_string l) \<and>
        region (lit sh l) 10 \<inter> region (commands sh) 1000 = {} \<and> region (lit sh l) 10 \<inter> region (arglist sh) 676 = {})"

lemma strcmp_zero:
  assumes "cstr m p xs" "cstr m q ys"
  obtains c where "strcmp m p q = Some c" "c = 0 \<longleftrightarrow> xs = ys"
  using strcmp_spec(1) [OF assms] first_diff_eq [of xs ys] assms
  by (auto simp: cstr_def char_int_inj split: prod.splits)

lemma is_lit_spec:
  assumes "cstr m a xs" "\<forall>l \<in> set ls. cstr m (lit sh l) (of_string l)"
  shows "is_lit sh m a ls = Some (\<exists>l \<in> set ls. xs = of_string l)"
  using assms(2)
proof (induction ls)
  case (Cons l ls)
  obtain c where "strcmp m a (lit sh l) = Some c" "c = 0 \<longleftrightarrow> xs = of_string l"
    using strcmp_zero [OF assms(1), of "lit sh l" "of_string l"] Cons.prems by auto
  with Cons show ?case by auto
qed simp

lemma of_string_length [simp]: "length (of_string l) = length l"
  by (simp add: of_string_def)

lemma command_name_spec:
  assumes "cstr m c w" "\<forall>l \<in> set command_lits. cstr m (lit sh l) (of_string l)"
  obtains src where "command_name sh m c = Some src"
    "src = c \<and> norm_word w = w \<or> (\<exists>l \<in> set command_lits. src = lit sh l \<and> norm_word w = of_string l)"
proof -
  have i: "is_lit sh m c ls = Some (\<exists>l \<in> set ls. w = of_string l)" if "set ls \<subseteq> set command_lits" for ls
    using is_lit_spec [OF assms(1)] assms(2) that by blast
  have "is_lit sh m c [''/bin/ls'', ''ls''] = Some (w = of_string ''/bin/ls'' \<or> w = of_string ''ls'')"
    "is_lit sh m c [''/bin/cat'', ''cat''] = Some (w = of_string ''/bin/cat'' \<or> w = of_string ''cat'')"
    "is_lit sh m c [''/bin/echo'', ''echo''] = Some (w = of_string ''/bin/echo'' \<or> w = of_string ''echo'')"
    "is_lit sh m c [''/bin/ps'', ''ps''] = Some (w = of_string ''/bin/ps'' \<or> w = of_string ''ps'')"
    "is_lit sh m c [''/bin/kill'', ''kill''] = Some (w = of_string ''/bin/kill'' \<or> w = of_string ''kill'')"
    by (subst i; simp add: command_lits_def)+
  then have "\<exists>src. command_name sh m c = Some src \<and>
    (src = c \<and> norm_word w = w \<or> (\<exists>l \<in> set command_lits. src = lit sh l \<and> norm_word w = of_string l))"
    unfolding command_name_def norm_word_def by (simp add: command_lits_def)
  then show thesis using that by blast
qed

lemma arg_row_region:
  assumes "i < 10" "k \<le> 100"
  shows "a \<in> region (arg_row sh i) k \<longleftrightarrow> 64 * i \<le> unat (a - arglist sh) \<and> unat (a - arglist sh) < 64 * i + k"
  unfolding arg_row_def by (rule region_offset) (use assms in simp)

lemma arg_row_sub: "i < 10 \<Longrightarrow> k \<le> 100 \<Longrightarrow> region (arg_row sh i) k \<subseteq> region (arglist sh) 676"
  unfolding arg_row_def by (rule region_sub) simp_all

lemma norm_word_short: "length w < 64 \<Longrightarrow> length (norm_word w) < 64"
  by (simp add: norm_word_def)

lemma set_arg_spec:
  assumes "shell_layout sh m xs" "cstr m (cmd_row sh i) w" "i < 10" "length w < 64"
  shows "\<exists>m'. set_arg sh i m = Some m' \<and> cstr m' (arg_row sh i) (norm_word w) \<and>
    (\<forall>a. a \<notin> region (arg_row sh i) 100 \<longrightarrow> m' a = m a)"
proof -
  let ?row = "arg_row sh i"
  define mz where "mz = (\<lambda>a. if a \<in> region ?row 100 then 0 else m a)"
  have z: "memset m ?row 0 100 = Some mz"
    using memset_spec [of 100 m ?row 0] by (simp add: mz_def cong: if_cong)
  have row: "region ?row 100 \<subseteq> region (arglist sh) 676" by (rule arg_row_sub [OF assms(3)]) simp
  have ca: "region (cmd_row sh i) (Suc (length w)) \<inter> region (arglist sh) 676 = {}"
    using assms(1,4) cmd_row_sub [OF assms(3), of "Suc (length w)" sh] by (auto simp: shell_layout_def)
  have keep: "cstr mz p ys" if "cstr m p ys" "region p (Suc (length ys)) \<inter> region (arglist sh) 676 = {}" for p ys
    by (rule cstr_cong [OF that(1)]) (use that(2) row in \<open>auto simp: mz_def\<close>)
  have la: "region (lit sh l) (Suc (length l)) \<inter> region (arglist sh) 676 = {}" if "l \<in> set command_lits" for l
  proof -
    have "region (lit sh l) (Suc (length l)) \<subseteq> region (lit sh l) 10"
      using that by (intro region_mono) (auto simp: command_lits_def)
    moreover have "region (lit sh l) 10 \<inter> region (arglist sh) 676 = {}"
      using assms(1) that by (simp add: shell_layout_def)
    ultimately show ?thesis by blast
  qed
  have l: "\<forall>l \<in> set command_lits. cstr mz (lit sh l) (of_string l)"
    using assms(1) la keep by (simp add: shell_layout_def)
  obtain src where src: "command_name sh mz (cmd_row sh i) = Some src"
    "src = cmd_row sh i \<and> norm_word w = w \<or> (\<exists>l \<in> set command_lits. src = lit sh l \<and> norm_word w = of_string l)"
    using command_name_spec [OF keep [OF assms(2) ca] l] by blast
  have c: "cstr mz src (norm_word w)" and d: "region src (Suc (length (norm_word w))) \<inter> region (arglist sh) 676 = {}"
    using src(2) l keep [OF assms(2) ca] ca la by (metis of_string_length)+
  have n: "length (norm_word w) < 64" using assms(4) by (rule norm_word_short)
  have r: "region ?row (Suc (length (norm_word w))) \<subseteq> region ?row 100" using n by (intro region_mono) simp
  have "region ?row (Suc (length (norm_word w))) \<inter> region src (Suc (length (norm_word w))) = {}"
    using d r row by blast
  then have "strcpy mz ?row src = Some (?row, blit mz ?row (norm_word w @ [0]))"
    using strcpy_loop_spec [OF c] by (simp add: strcpy_def)
  then have "set_arg sh i m = Some (blit mz ?row (norm_word w @ [0]))"
    using z src(1) by (simp add: set_arg_def)
  moreover have "cstr (blit mz ?row (norm_word w @ [0])) ?row (norm_word w)"
    using c n by (intro cstr_blit) (simp_all add: cstr_def)
  moreover have "blit mz ?row (norm_word w @ [0]) a = m a" if "a \<notin> region ?row 100" for a
    using that r by (subst blit_outside) (auto simp: mz_def)
  ultimately show ?thesis by blast
qed

text \<open>The layout survives changes inside the two tables.\<close>

lemma shell_layout_cong:
  assumes "shell_layout sh m xs" "\<And>a. a \<notin> region (commands sh) 1000 \<Longrightarrow> a \<notin> region (arglist sh) 676 \<Longrightarrow> m' a = m a"
  shows "shell_layout sh m' xs"
proof -
  have "cstr m' (lit sh l) (of_string l)" if "l \<in> set command_lits" for l
  proof (rule cstr_cong)
    show "cstr m (lit sh l) (of_string l)" using assms(1) that by (simp add: shell_layout_def)
    fix a assume a: "a \<in> region (lit sh l) (Suc (length (of_string l)))"
    have "region (lit sh l) (Suc (length (of_string l))) \<subseteq> region (lit sh l) 10"
      using that by (intro region_mono) (auto simp: command_lits_def)
    moreover have "region (lit sh l) 10 \<inter> region (commands sh) 1000 = {}" "region (lit sh l) 10 \<inter> region (arglist sh) 676 = {}"
      using assms(1) that by (simp_all add: shell_layout_def)
    ultimately show "m' a = m a" using a assms(2) by blast
  qed
  with assms(1) show ?thesis by (simp add: shell_layout_def)
qed

lemma set_args_spec:
  assumes "shell_layout sh m xs" "i \<le> length ws" "length ws \<le> 10" "\<forall>w \<in> set ws. length w < 64"
    and "\<forall>k < length ws. cstr m (cmd_row sh k) (ws ! k)"
  shows "\<exists>m'. for_each (set_arg sh) [i..<length ws] m = Some m' \<and>
    (\<forall>k. i \<le> k \<longrightarrow> k < length ws \<longrightarrow> cstr m' (arg_row sh k) (norm_word (ws ! k))) \<and>
    (\<forall>a. a \<notin> region (arglist sh) 676 \<or> a \<in> region (arglist sh) (64 * i) \<longrightarrow> m' a = m a)"
  using assms(1,2,5)
proof (induction "length ws - i" arbitrary: i m)
  case (Suc d)
  then have i: "i < length ws" "i < 10" using assms(3) by simp_all
  let ?w = "ws ! i"
  have w: "length ?w < 64" using assms(4) i by simp
  obtain m1 where m1: "set_arg sh i m = Some m1" "cstr m1 (arg_row sh i) (norm_word ?w)"
    "\<forall>a. a \<notin> region (arg_row sh i) 100 \<longrightarrow> m1 a = m a"
    using set_arg_spec [OF Suc.prems(1) _ i(2) w] Suc.prems(3) i(1) by blast
  have row: "region (arg_row sh i) 100 \<subseteq> region (arglist sh) 676" by (rule arg_row_sub [OF i(2)]) simp
  have lay: "shell_layout sh m1 xs" by (rule shell_layout_cong [OF Suc.prems(1)]) (use m1(3) row in blast)
  have cmd: "cstr m1 (cmd_row sh k) (ws ! k)" if "k < length ws" for k
  proof (rule cstr_cong)
    show "cstr m (cmd_row sh k) (ws ! k)" using Suc.prems(3) that by blast
    fix a assume a: "a \<in> region (cmd_row sh k) (Suc (length (ws ! k)))"
    have "length (ws ! k) < 64" using assms(4) that by simp
    then have "a \<in> region (commands sh) 1000" using a that assms(3) cmd_row_sub [of k "Suc (length (ws ! k))" sh] by auto
    then have "a \<notin> region (arglist sh) 676" using Suc.prems(1) by (auto simp: shell_layout_def)
    then show "m1 a = m a" using m1(3) row by blast
  qed
  have dd: "d = length ws - Suc i" using Suc.hyps(2) by simp
  obtain m' where m': "for_each (set_arg sh) [Suc i..<length ws] m1 = Some m'"
    "\<forall>k. Suc i \<le> k \<longrightarrow> k < length ws \<longrightarrow> cstr m' (arg_row sh k) (norm_word (ws ! k))"
    "\<forall>a. a \<notin> region (arglist sh) 676 \<or> a \<in> region (arglist sh) (64 * Suc i) \<longrightarrow> m' a = m1 a"
    using Suc.hyps(1) [OF dd lay Suc_leI [OF i(1)]] cmd by auto
  have "cstr m' (arg_row sh i) (norm_word ?w)"
  proof (rule cstr_cong [OF m1(2)])
    fix a assume "a \<in> region (arg_row sh i) (Suc (length (norm_word ?w)))"
    then have "a \<in> region (arglist sh) (64 * Suc i)"
      using w norm_word_short [OF w] arg_row_region [OF i(2), of "Suc (length (norm_word ?w))" a sh]
      by (auto simp: region_def)
    then show "m' a = m1 a" using m'(3) by blast
  qed
  then have "\<forall>k. i \<le> k \<longrightarrow> k < length ws \<longrightarrow> cstr m' (arg_row sh k) (norm_word (ws ! k))"
    using m'(2) by (metis Suc_leI le_neq_implies_less)
  moreover have "m' a = m a" if "a \<notin> region (arglist sh) 676 \<or> a \<in> region (arglist sh) (64 * i)" for a
  proof -
    have "a \<notin> region (arg_row sh i) 100" using that row arg_row_region [OF i(2), of 100 a sh] by (auto simp: region_def)
    moreover have "a \<notin> region (arglist sh) 676 \<or> a \<in> region (arglist sh) (64 * Suc i)"
      using that by (auto simp: region_def)
    ultimately show ?thesis using m1(3) m'(3) by simp
  qed
  ultimately show ?case using m'(1) m1(1) i(1) by (auto simp: upt_conv_Cons)
qed simp

text \<open>C19. The shell splits every command line: for a line of at most 127 characters with at most ten words of fewer
  than 64 characters, the scan and the normalisation of \<open>performCommand\<close> end, and \<open>arglist\<close> then holds
  the words of the line in order (one per separator, so doubled blanks give empty words), with the five
  built-in programs shortened to their plain names. Nothing outside the two tables changes, except
  that the last row used is cleared 36 bytes too far.\<close>

theorem parse_command_words:
  assumes "cstr m (ipCommand sh) xs" "length xs < 128" "shell_layout sh m xs"
    and "length (tokens xs) \<le> 10" "\<forall>w \<in> set (tokens xs). length w < 64"
  shows "\<exists>m'. parse_command sh m = Some (m', length (tokens xs)) \<and>
    (\<forall>i < length (tokens xs). cstr m' (arg_row sh i) (norm_word (tokens xs ! i))) \<and>
    (\<forall>a. a \<notin> region (commands sh) 1000 \<longrightarrow> a \<notin> region (arglist sh) 676 \<longrightarrow> m' a = m a)"
proof -
  have d: "region (ipCommand sh) (Suc (length xs)) \<inter> region (commands sh) 1000 = {}"
    using assms(3) by (simp add: shell_layout_def)
  obtain m1 where m1: "tokenize sh m 0 0 = Some (m1, length (tokens xs))"
    "\<forall>k < length (tokens xs). cstr m1 (cmd_row sh k) (tokens xs ! k)"
    "\<forall>a. a \<notin> region (commands sh) 1000 \<longrightarrow> m1 a = m a"
    using tokenize_spec [OF assms(1) _ _ d, of xs 0 0] assms(2,4,5) by fastforce
  have lay: "shell_layout sh m1 xs" by (rule shell_layout_cong [OF assms(3)]) (use m1(3) in blast)
  obtain m' where m': "for_each (set_arg sh) [0..<length (tokens xs)] m1 = Some m'"
    "\<forall>k < length (tokens xs). cstr m' (arg_row sh k) (norm_word (tokens xs ! k))"
    "\<forall>a. a \<notin> region (arglist sh) 676 \<longrightarrow> m' a = m1 a"
    using set_args_spec [OF lay le0 assms(4,5) m1(2)] by auto
  with m1 show ?thesis by (intro exI [of _ m']) (simp add: parse_command_def)
qed

definition demo_lit_bytes :: "u8 list" where
  "demo_lit_bytes = concat (map (\<lambda>l. of_string l @ replicate (16 - length l) 0) command_lits)"

definition demo_shell :: shell where
  "demo_shell = \<lparr>arglist = 0x1000, ipCommand = 0x2000, s_cwd = 0, commands = 0x2800, tempecho = 0, tempcat = 0,
     shellbuf = 0, shellcommands = 0, cdcwd = 0, tempcwd = 0, m_cwd = 0, sh_loc = 0,
     lit = (\<lambda>l. 0x4000 + 16 * of_nat (length (takeWhile (\<lambda>k. k \<noteq> l) command_lits)))\<rparr>"

definition demo_line :: "u8 list" where "demo_line = of_string ''/bin/cat  a.txt''"

definition demo_line_mem :: bytes where
  "demo_line_mem = blit (blit (\<lambda>_. 0) 0x4000 demo_lit_bytes) 0x2000 (demo_line @ [0])"

lemma padded_cstr:
  assumes "arr m p (concat (map (\<lambda>l. of_string l @ replicate (16 - length l) 0) ls))" "k < length ls"
    and "\<forall>l \<in> set ls. length l < 16 \<and> 0 \<notin> set (of_string l)"
  shows "cstr m (p + of_nat (16 * k)) (of_string (ls ! k))"
  using assms
proof (induction ls arbitrary: p k)
  case (Cons l ls)
  have "16 - length l = Suc (15 - length l)" using Cons.prems(3) by auto
  with Cons.prems have a: "arr m p (of_string l)" "m (p + of_nat (length l)) = 0"
    "arr m (p + of_nat 16) (concat (map (\<lambda>l. of_string l @ replicate (16 - length l) 0) ls))"
    by (simp_all add: arr_append add.assoc flip: of_nat_add)
  show ?case
  proof (cases k)
    case 0
    with a Cons.prems(3) show ?thesis by (simp add: cstr_def arr_append)
  next
    case (Suc i)
    with Cons.IH [OF a(3), of i] Cons.prems show ?thesis by (simp add: algebra_simps)
  qed
qed simp

lemma demo_lits:
  assumes "l \<in> set command_lits"
  shows "cstr demo_line_mem (lit demo_shell l) (of_string l)"
    and "0x4000 \<le> unat (lit demo_shell l)" "unat (lit demo_shell l) \<le> 0x5000"
proof -
  let ?m = "blit (\<lambda>_. 0) 0x4000 demo_lit_bytes"
  define k where "k = length (takeWhile (\<lambda>k. k \<noteq> l) command_lits)"
  have len: "\<forall>l \<in> set command_lits. length l < 16 \<and> 0 \<notin> set (of_string l)" "length command_lits = 10"
    by (simp_all add: command_lits_def of_string_def)
  have "takeWhile (\<lambda>k. k \<noteq> l) command_lits \<noteq> command_lits" using assms by (auto simp: takeWhile_eq_all_conv)
  then have k: "k < length command_lits"
    unfolding k_def by (metis length_takeWhile_le linorder_neqE_nat not_less takeWhile_eq_take take_all_iff)
  have n: "command_lits ! k = l" using nth_length_takeWhile [of "\<lambda>k. k \<noteq> l" command_lits] k by (simp add: k_def)
  have a: "lit demo_shell l = 0x4000 + of_nat (16 * k)" by (simp add: demo_shell_def k_def)
  then have u: "unat (lit demo_shell l) = 0x4000 + 16 * k"
    using k len(2) unat_of_nat [of "0x4000 + 16 * k", where 'a = 64] by simp
  then show "0x4000 \<le> unat (lit demo_shell l)" "unat (lit demo_shell l) \<le> 0x5000" using k len(2) by simp_all
  have "arr ?m 0x4000 demo_lit_bytes" by (rule arr_blit) (simp add: demo_lit_bytes_def command_lits_def)
  then have c: "cstr ?m (lit demo_shell l) (of_string l)"
    using padded_cstr [OF _ k len(1), of ?m "0x4000"] by (simp only: a n demo_lit_bytes_def)
  have "region (lit demo_shell l) (Suc (length l)) \<inter> region 0x2000 (length (demo_line @ [0])) = {}"
    using u k len assms by (intro region_disjoint) (auto simp: demo_line_def)
  then show "cstr demo_line_mem (lit demo_shell l) (of_string l)"
    unfolding demo_line_mem_def by (intro cstr_cong [OF c] blit_outside) auto
qed

lemma demo_line_layout: "shell_layout demo_shell demo_line_mem demo_line"
  unfolding shell_layout_def
proof (intro conjI ballI)
  fix l assume l: "l \<in> set command_lits"
  show "cstr demo_line_mem (lit demo_shell l) (of_string l)" using demo_lits [OF l] by simp
  show "region (lit demo_shell l) 10 \<inter> region (commands demo_shell) 1000 = {}"
    "region (lit demo_shell l) 10 \<inter> region (arglist demo_shell) 676 = {}"
    using demo_lits [OF l] by (intro region_disjoint; simp add: demo_shell_def)+
next
  show "region (ipCommand demo_shell) (Suc (length demo_line)) \<inter> region (commands demo_shell) 1000 = {}"
    by (subst Int_commute, rule region_disjoint) (simp_all add: demo_shell_def demo_line_def)
  show "region (arglist demo_shell) 676 \<inter> region (commands demo_shell) 1000 = {}"
    by (subst Int_commute, rule region_disjoint) (simp_all add: demo_shell_def)
qed

theorem parse_command_words_witness:
  "\<exists>m'. parse_command demo_shell demo_line_mem = Some (m', 3) \<and>
     cstr m' 0x1000 (of_string ''cat'') \<and> cstr m' 0x1040 [] \<and> cstr m' 0x1080 (of_string ''a.txt'')"
proof -
  have t: "tokens demo_line = [of_string ''/bin/cat'', [], of_string ''a.txt'']"
    by (simp add: demo_line_def of_string_def tokens.simps word_char_def)
  have c: "cstr demo_line_mem (ipCommand demo_shell) demo_line"
    using cstr_blit [of demo_line _ "0x2000"] by (simp add: demo_line_mem_def demo_shell_def demo_line_def of_string_def)
  have n: "norm_word (of_string ''/bin/cat'') = of_string ''cat''" "norm_word [] = []"
    "norm_word (of_string ''a.txt'') = of_string ''a.txt''"
    by (simp_all add: norm_word_def of_string_def)
  have l: "length demo_line < 128" by (simp add: demo_line_def)
  have w: "length (tokens demo_line) \<le> 10" "\<forall>w \<in> set (tokens demo_line). length w < 64" by (simp_all add: t)
  obtain m' where "parse_command demo_shell demo_line_mem = Some (m', length (tokens demo_line))"
    "\<forall>i < length (tokens demo_line). cstr m' (arg_row demo_shell i) (norm_word (tokens demo_line ! i))"
    using parse_command_words [OF c l demo_line_layout w] by blast
  then show ?thesis
    by (intro exI [of _ m']) (auto simp: t n arg_row_def demo_shell_def dest: spec [of _ 0] spec [of _ 1] spec [of _ 2])
qed

end
