(* ===== verification/Spec2Isabelle.thy ===== *)
theory Spec2Isabelle
  imports Boot Exec ForkIsolation Malloc Ahci Sbush
begin

text \<open>
  A verification development for FERDOS/SBUnix, a small x86-64 teaching kernel with its C library, shell and
  utilities. The definitions translate the C code under \<^verbatim>\<open>src/\<close>, one definition per function, with the
  source's names; the theorems state what the code does, and, where it does not do what it means to, what it
  does instead.

  \<^bold>\<open>The program.\<close> At boot \<^verbatim>\<open>sys/main.c\<close> sets up descriptors, interrupts and the tar file system, finds the
  size of memory, builds the page allocator and the kernel's page tables (\<^verbatim>\<open>sys/phymap.c\<close>), and creates the first
  user process from an ELF file in the archive (\<^verbatim>\<open>sys/elf.c\<close>, \<^verbatim>\<open>sys/tarfs.c\<close>, \<^verbatim>\<open>sys/task.c\<close>). User
  programs enter the kernel through \<open>int 0x80\<close> (\<^verbatim>\<open>sys/isr.s\<close>, \<^verbatim>\<open>sys/isr.c\<close>, \<^verbatim>\<open>sys/syscall.c\<close>) to
  print (\<^verbatim>\<open>sys/kprintf.c\<close>), read lines (\<^verbatim>\<open>sys/keyboard.c\<close>), read files, fork, exec, wait and exit. The user side is
  \<^verbatim>\<open>libc/\<close>, \<^verbatim>\<open>crt/\<close> and \<^verbatim>\<open>bin/\<close>. The AHCI disk driver (\<^verbatim>\<open>sys/ahci.c\<close>) is linked in but its call is
  commented out.

  \<^bold>\<open>How it is modelled.\<close> Integers are words of their C width. Fallible code returns an \<open>option\<close>: \<open>None\<close> is a run
  without a defined result (a null pointer is dereferenced, a loop does not end, memory that is not there is used).
  Loops that may run forever are \<open>partial_function (option)\<close>, and every theorem about them proves that they
  return; loops with a bound are total functions, and no definition uses fuel. State is a record that each component extends:
  \<open>alloc\<close> (pages and free list), \<open>vm\<close> (word memory, \<open>cr3\<close>), \<open>kernel\<close> (tasks, registers, stacks),
  \<open>proc_state\<close> and \<open>sysstate\<close> on the kernel side; \<open>console\<close>, \<open>kbd\<close> and \<open>ahci\<close> on the side of the devices.
  Strings, files, structures on disk and video memory are bytes of a memory \<open>u64 \<Rightarrow> u8\<close>, so that overruns and
  overlaps have their real effect.

  \<^bold>\<open>Theories\<close>, in the order in which they build on each other:
  \<^item> \<open>Prelude\<close>: integer types, linked chains, page alignment, bit masks, counted loops (\<open>for_each\<close>).
  \<^item> \<open>PageAlloc\<close> (\<^verbatim>\<open>phymap.c\<close> 61--102, 222--238): \<open>page_init\<close>, \<open>page_alloc\<close>, \<open>page_dealloc\<close>, \<open>kmalloc\<close>. The locale
    \<open>page_allocator\<close> is the contract the rest of the kernel uses. Initialisation, contiguity, round trip, and the two
    defects of the reservation and of \<open>kmalloc\<close>.
  \<^item> \<open>PageTable\<close>, \<open>AddrSpace\<close> (\<^verbatim>\<open>phymap.c\<close>): the four-level tables, \<open>map_process\<close>, \<open>phyAddr\<close>, the hardware walk as
    reference; boot mappings, new address spaces, copying for a child. Round trip and frame of a mapping; what
    a shared lower table means.
  \<^item> \<open>Task\<close> (\<^verbatim>\<open>task.c\<close>): task list, process numbers, scheduling, \<open>switchTask\<close>, exit, kill, wait. The locale
    \<open>rotating_queue\<close> states the task queue; \<open>sched_step\<close> is the step relation of the scheduler, with its
    invariant by rule induction. The choice of the next task refines an abstract rotation.
  \<^item> \<open>CString\<close> (\<^verbatim>\<open>libc/string.c\<close>, \<^verbatim>\<open>sys/string1.c\<close>): every routine over byte memory; \<open>region\<close>, \<open>arr\<close>, \<open>cstr\<close>
    and \<open>blit\<close> are the vocabulary for buffers that the later theories use.
  \<^item> \<open>Tarfs\<close>, \<open>Elf\<close>, \<open>Process\<close>: the archive as a list of entries, loading of segments, memory areas, creation of
    processes, fork, exec, \<open>start\<close>. A child of \<open>fork\<close> returns to user mode as its parent did, with 0.
  \<^item> \<open>PageFault\<close> (\<^verbatim>\<open>isr.c\<close> 169--196, \<^verbatim>\<open>isr.s\<close>): the fault on a page marked for copy on write, from the faulting
    instruction through the entry code, the copy and the new mapping back to that instruction.
  \<^item> \<open>VmTypes\<close>: the types of pages. \<open>vm_ok\<close> says that memory can be typed, every page being a table of one level at one
    path, data or free; the locales \<open>vm_op\<close> and \<open>data_op\<close> are the contract of operations that keep the types, and
    \<open>vm_reach\<close> the step relation of all of them from boot on.
  \<^item> \<open>ForkCopy\<close>, \<open>ForkIsolation\<close>: what \<open>copy_page_tables_forchild\<close> makes, address by address, and how many pages it
    takes; with the page fault handler, that parent and child do not see each other's writes.
  \<^item> \<open>Kprintf\<close>, \<open>Keyboard\<close>, \<open>Interrupts\<close>: console, scan codes and line input, descriptor tables. Numbers are
    printed by two loops that share the locale \<open>digit_loop\<close>; the console refines a terminal of 80 columns (\<open>term_rel\<close>).
  \<^item> \<open>Syscall\<close>, \<open>Libc\<close>, \<open>Malloc\<close>: dispatcher and handlers, wrappers, \<open>printf\<close>, start-up code, the user heap, which
    refines first-fit allocation.
  \<^item> \<open>Exec\<close>: execution of a program from end to end, through the loader, the page tables, the task list, the return to
    user mode and the start-up code of the new program. What has to hold of the program is \<open>program_ok\<close>, the pages that it
    takes are \<open>program_cost\<close>, and \<open>same_but_load\<close> (of \<open>Elf\<close>) is the frame of a loading step.
  \<^item> \<open>Boot\<close> (\<^verbatim>\<open>main.c\<close> 140--180, \<^verbatim>\<open>gdt.s\<close>, \<^verbatim>\<open>isr.s\<close>): the processor's tables and registers at boot, the machine that
    \<open>start\<close> finds, and the stubs of the timer and keyboard interrupts.
  \<^item> \<open>Ahci\<close>: registers through a \<open>bus\<close>, which is a parameter, commands and tables in memory; the locale \<open>mem_field\<close>
    is the contract of typed accesses to memory, interpreted for 2, 4 and 8 bytes. The layout that \<open>port_rebase\<close> sets up
    meets the conditions under which a command is built.
  \<^item> \<open>Sbush\<close>: the shell and the utilities; the parser yields the words of the line.
  \<^item> This theory: user output from \<open>printf\<close> down to the screen, the showing of a file from the archive, and what \<open>waitpid\<close>
    waits for.

  \<^bold>\<open>Parameters.\<close> What is not C code under \<^verbatim>\<open>src/\<close> is an argument: the scan codes that arrive, the AHCI controller
  (\<open>bus\<close>), the byte an input port delivers, what other tasks do while one waits (\<open>others\<close>), the break that the kernel
  would return to the heap, the registers that a compiled handler leaves changed (\<open>left\<close>, under the calling convention
  \<open>c_call\<close>), and the addresses that the linker chooses (\<open>env\<close>, \<open>shell\<close>, \<open>layout\<close>).

  \<^bold>\<open>Bounds.\<close> \<open>memset\<close> counts in an \<open>int\<close> and is used below \<open>2 ^ 31\<close> bytes; a disk request has at most 1048560 sectors,
  where the 16-bit number of descriptors ends; a shell line has at most 127 characters and ten words of
  63, the size of its tables; process numbers end at 99; \<open>_start\<close> takes at most four arguments of 63 characters.

  \<^bold>\<open>Not modelled.\<close> The structures of \<^verbatim>\<open>ahci.h\<close> and \<^verbatim>\<open>tarfs.h\<close> that no code uses;
  \<^verbatim>\<open>sys/ptranslate.c\<close> (commented out), with the other code in comments;
  prototypes; data files and boot loader scripts. The kernel's word memory of the page tables and the byte memory
  of strings are separate, and time is the order of steps: an interrupt arrives only where the code waits for it, or
  in user mode.
\<close>

unbundle bit_operations_syntax

section \<open>Properties across components\<close>

text \<open>C10. User output from end to end: \<open>printf\<close> of a text in a user program makes one \<open>write\<close> call per
  character through \<open>int 0x80\<close>, the dispatcher and \<open>kprintf\<close>; it returns, the terminal has
  received exactly the characters of the text in order, and no memory changes outside the screen
  and the two bytes of the local array of \<open>printf\<close>.\<close>

theorem printf_shows_text:
  assumes "term_rel (con s) t" "cstr (umemory s) fmt xs" "fits (tcol t) xs" "8 \<notin> set xs" "37 \<notin> set xs"
    and "\<not> on_screen loc" "\<not> on_screen (loc + 1)"
    and "\<forall>j \<le> length xs. fmt + of_nat j \<noteq> loc \<and> fmt + of_nat j \<noteq> loc + 1 \<and> \<not> on_screen (fmt + of_nat j)"
  shows "\<exists>s'. printf e loc fmt args s = Some s' \<and> term_rel (con s') (fold term_putc xs t) \<and>
    (\<forall>a. \<not> on_screen a \<longrightarrow> a \<noteq> loc \<longrightarrow> a \<noteq> loc + 1 \<longrightarrow> umemory s' a = umemory s a)"
proof -
  have "\<forall>c \<in> set xs. c \<notin> {0, 8, 37}" using assms(2,4,5) by (auto simp: cstr_def)
  moreover have "umemory s (fmt + of_nat j) = xs ! j" if "j < length xs" for j
    using arr_nthD [of "umemory s" fmt "xs @ [0]" j] assms(2) that by (simp add: cstr_def nth_append)
  moreover have "umemory s (fmt + of_nat (length xs)) = 0"
    using arr_nthD [of "umemory s" fmt "xs @ [0]" "length xs"] assms(2) by (simp add: cstr_def)
  ultimately show ?thesis
    using printf_loop_shown [OF assms(1,3), of fmt 0 loc e args] assms(6-8) by (simp add: printf_def)
qed

theorem printf_shows_text_witness:
  "\<exists>s'. printf demo_env 0x7000 0x5000 [] demo_sys = Some s' \<and> umemory s' startpos = 72 \<and> umemory s' (startpos + 160) = 33"
proof -
  let ?cs = "[72, 105, 10, 33] :: u8 list"
  have k: "con demo_sys = demo_kbd" by (simp add: demo_sys_def proc_state.defs sysstate.defs)
  have m: "cmem demo_kbd = cmem demo_console" "video demo_kbd = video demo_console"
    "line_count demo_kbd = line_count demo_console" "line_width demo_kbd = line_width demo_console"
    by (simp_all add: demo_kbd_def console.defs)
  have r: "term_rel (con demo_sys) demo_terminal" using demo_console_rel by (simp add: term_rel_def k m)
  have c: "cstr (umemory demo_sys) 0x5000 ?cs" by (simp add: k m cstr_def demo_console_def)
  have o: "\<forall>j \<le> length ?cs. 0x5000 + of_nat j \<noteq> (0x7000 :: u64) \<and> 0x5000 + of_nat j \<noteq> (0x7000 :: u64) + 1 \<and> \<not> on_screen (0x5000 + of_nat j)"
    by (simp add: le_Suc_eq on_screen_def)
  obtain s' where s': "printf demo_env 0x7000 0x5000 [] demo_sys = Some s'" "term_rel (con s') (fold term_putc ?cs demo_terminal)"
    using printf_shows_text [OF r c _ _ _ _ _ o, of demo_env "[]"] by (auto simp: demo_terminal_def on_screen_def)
  have "umemory s' (cell 0 0) = 72 \<and> umemory s' (cell 1 0) = 33"
    using s'(2) by (simp add: term_rel_def term_putc_def demo_terminal_def)
  with s'(1) show ?thesis by (intro exI [of _ s']) (simp add: cell_def)
qed



text \<open>C11. Showing a file from end to end: after \<open>tarfs_init\<close> has read the archive, \<open>catfiles\<close> of a path in it, through
  \<open>int 0x80\<close>, the dispatcher, the file table, \<open>readfile\<close> and \<open>kprintf\<close>, returns 0 and the terminal shows the bytes of the
  file on the current line, as glyphs (line feeds are not interpreted), the last one replaced by a blank, with the cursor on a
  new line; besides the screen only the file buffer of the kernel changes. The wrapper loads the path into \<open>rbx\<close> while the
  handler reads \<open>rdi\<close>, which is assumed to hold it still, as the calling convention has it on entry of \<open>catfiles\<close>; the
  file fits into the rest of the line.\<close>

theorem catfiles_shows_file:
  assumes "archive (umemory s) tstart files" "tree_ok files" "length files < 100" "total files + 512 < 2 ^ 31"
    and "e_name (tarfs_fs f0 (length files)) = []" "tarfs_init (umemory s) tstart e0 f0 = Some (fs s)"
    and "rdi (cpu_state s) = path" "cstr (umemory s) path name" "open_addr tstart files name 0 = h" "h \<noteq> 0"
    and "\<forall>f \<in> set files. f_name f = name \<longrightarrow> f_size f = length xs" "arr (umemory s) (h + 512) xs" "0 \<notin> set xs" "xs \<noteq> []"
    and "term_rel (con s) t" "tcol t + length xs < 80"
    and "region (filebuf e) 2048 \<inter> region path (Suc (length name)) = {}" "region (filebuf e) 2048 \<inter> region h (512 + length xs) = {}"
    and "\<forall>a \<in> region (filebuf e) 2048. \<not> on_screen a"
  shows "\<exists>s'. catfiles e path pipe s = Some (0, s') \<and> term_rel (con s') (term_putc 10 (term_back (fold term_glyph xs t))) \<and>
    (\<forall>a. \<not> on_screen a \<longrightarrow> a \<notin> region (filebuf e) 2048 \<longrightarrow> umemory s' a = umemory s a)"
proof -
  let ?c = "(cpu_state s)\<lparr>rax := SYS_catfiles, rbx := path, rcx := scast pipe\<rparr>"
  let ?s1 = "isr_syscall_entry (isr_addr e) 0x08 0 (s\<lparr>cpu_state := ?c\<rparr>)"
  have o: "openfile (fs s) name = Some h" using open_after_init [OF assms(1-5), of e0] assms(6,9) by auto
  have z: "size_field (umemory s) h (length xs)"
    using open_addr_header [OF assms(1,9,10)] assms(11) by (auto simp: header_ok_def)
  obtain c where c: "sys_catfiles e path (ucast (rsi ?c)) ?s1 = Some (0, ?s1\<lparr>con := c\<rparr>)"
    "term_rel c (term_putc 10 (term_back (fold term_glyph xs t)))"
    "\<forall>a. \<not> on_screen a \<longrightarrow> a \<notin> region (filebuf e) 2048 \<longrightarrow> cmem c a = umemory s a"
    using sys_catfiles_shows [of ?s1 t path name h xs e "ucast (rsi ?c)"] assms(8,10,12-19) o z by auto
  then have "syscall_caller e (rax ?c) (rdi ?c) (rsi ?c) (rdx ?c) ?s1 = Some (0, ?s1\<lparr>con := c\<rparr>)"
    using assms(7) by (simp add: syscall_caller_def)
  then obtain s' where s': "syscall_2 e SYS_catfiles path (scast pipe) s = Some (0, s')"
    "s' = ?s1\<lparr>con := c, mem := mem s', cpu_state := cpu_state s'\<rparr>"
    using syscall_with_returns [of e "\<lambda>c. c\<lparr>rax := SYS_catfiles, rbx := path, rcx := scast pipe\<rparr>" s 0 "?s1\<lparr>con := c\<rparr>"]
    unfolding syscall_2_def by auto
  have "con s' = c" by (subst s'(2)) simp
  with s'(1) c(2,3) show ?thesis by (simp add: catfiles_def to_int_def)
qed

text \<open>A system with the archive of \<open>demo_image\<close> in memory, asked for its file \<^verbatim>\<open>ab\<close>.\<close>

definition demo_cat :: "tarfs \<Rightarrow> sysstate" where
  "demo_cat f = demo_sys\<lparr>con := demo_kbd\<lparr>cmem := demo_image\<rparr>, fs := f, cpu_state := demo_cpu\<lparr>rdi := 0x100000\<rparr>\<rparr>"

theorem catfiles_shows_file_witness:
  "\<exists>f s'. tarfs_init demo_image 0x100000 (tarfs_fs demo_tarfs 0) demo_tarfs = Some f \<and>
     catfiles demo_env 0x100000 1 (demo_cat f) = Some (0, s') \<and> umemory s' startpos = 1 \<and> umemory s' (startpos + 8) = 32"
proof -
  have t: "extent demo_tfile = 1024" "f_name demo_tfile = [97, 98]" "f_size demo_tfile = 5" "f_type demo_tfile = 0"
    by (simp_all add: extent_def demo_tfile_def)
  obtain f where f: "tarfs_init demo_image 0x100000 (tarfs_fs demo_tarfs 0) demo_tarfs = Some f"
    using tarfs_init_spec [OF demo_archive demo_tree_ok, of "tarfs_fs demo_tarfs 0" demo_tarfs] t by auto
  have d: "umemory (demo_cat f) = demo_image" "fs (demo_cat f) = f" "rdi (cpu_state (demo_cat f)) = 0x100000" "filebuf demo_env = 0"
    by (simp_all add: demo_cat_def demo_env_def)
  have "arr demo_image 0x100000 demo_file" unfolding demo_image_def by (rule arr_blit) (simp add: length_demo_file)
  then have xs: "arr demo_image (0x100000 + 512) [1, 2, 3, 4, 5]" unfolding demo_file_def arr_append by simp
  have "demo_image a = 0" if "on_screen a" for a
    using that region_disjoint [of "0x100000" 517 startpos 4000] length_demo_file
    by (subst demo_image_def, subst blit_outside) (auto simp: on_screen_def region_def)
  then have r: "term_rel (con (demo_cat f)) demo_terminal"
    using cell_on_screen(1) by (simp add: term_rel_def demo_terminal_def demo_cat_def)
      (simp add: demo_kbd_def console.defs demo_console_def cell_def)
  have g: "region 0 2048 \<inter> region 0x100000 (Suc (length [97, 98 :: u8])) = {}" "region 0 2048 \<inter> region 0x100000 (512 + length [1, 2, 3, 4, 5 :: u8]) = {}"
    "\<forall>a \<in> region 0 2048. \<not> on_screen a"
    using region_disjoint [of 0 2048 "0x100000" 3] region_disjoint [of 0 2048 "0x100000" 517] region_disjoint [of 0 2048 startpos 4000]
    by (auto simp: on_screen_def region_def [of startpos] numeral_3_eq_3)
  obtain s' where s': "catfiles demo_env 0x100000 1 (demo_cat f) = Some (0, s')"
    "term_rel (con s') (term_putc 10 (term_back (fold term_glyph [1, 2, 3, 4, 5] demo_terminal)))"
    using catfiles_shows_file [of "demo_cat f" "0x100000" "[demo_tfile]" demo_tarfs "tarfs_fs demo_tarfs 0" "0x100000" "[97, 98]" "0x100000"
      "[1, 2, 3, 4, 5]" demo_terminal demo_env 1] demo_archive demo_tree_ok f xs demo_image_arr(1) g r
    by (auto simp: d t demo_tarfs_def demo_terminal_def)
  have "umemory s' (cell 0 0) = 1 \<and> umemory s' (cell 0 4) = 32"
    using s'(2) by (simp add: term_rel_def term_putc_def term_back_def term_glyph_def demo_terminal_def)
  with f s'(1) show ?thesis by (intro exI [of _ f] exI [of _ s']) (simp add: cell_def)
qed

end
